(* ===== verification/Relay_Prelude.thy ===== *)
theory Relay_Prelude
  imports Main "HOL-Library.Word" "HOL-Library.AList" "HOL-Library.Stream" "HOL-Library.Sublist"
begin

unbundle bit_operations_syntax

text \<open>
  The vocabulary every component shares: the types that stand for Go's bytes, strings and
  errors, the functions of Go's standard library that the relay calls on strings and bytes
  (package \<^verbatim>\<open>strings\<close>, package \<^verbatim>\<open>encoding/hex\<close>, package \<^verbatim>\<open>crypto/rand\<close>), and the generic
  lemmas on lists, association lists and sums used by the component theories.

  A Go \<^verbatim>\<open>string\<close> is a sequence of bytes, which is what an Isabelle \<^typ>\<open>string\<close> (a list of
  eight-bit characters) is. A \<^verbatim>\<open>[]byte\<close> is a list of \<open>8 word\<close>, and a \<open>blob\<close> where the code
  can tell a nil slice from an empty one.
\<close>

named_theorems relay_simps \<open>equations that unfold the small helpers of the relay\<close>
named_theorems alist_simps \<open>association lists seen as finite maps\<close>

type_synonym byte = "8 word"

type_synonym blob = "byte list option"   \<comment> \<open>\<open>None\<close> is the nil slice\<close>

text \<open>The bytes of a slice, which a nil slice has none of.\<close>

definition bytes_in :: "blob \<Rightarrow> byte list" where
  "bytes_in b = (case b of None \<Rightarrow> [] | Some bs \<Rightarrow> bs)"

lemma bytes_in_simps [simp]: "bytes_in None = []" "bytes_in (Some bs) = bs"
  by (simp_all add: bytes_in_def)

text \<open>An error value carries the text of \<^verbatim>\<open>Error()\<close>; a panic is kept apart from an error.\<close>

datatype go_error = GoErr string | GoPanic string

fun error_text :: "go_error \<Rightarrow> string" where
  "error_text (GoErr s) = s"
| "error_text (GoPanic s) = s"

section \<open>Go strings and bytes\<close>

definition bytes_of :: "string \<Rightarrow> byte list" where
  "bytes_of s = map of_char s"

definition string_of :: "byte list \<Rightarrow> string" where
  "string_of bs = map (\<lambda>b. char_of (unat b)) bs"

definition HasPrefix :: "string \<Rightarrow> string \<Rightarrow> bool" where
  "HasPrefix s p \<longleftrightarrow> take (length p) s = p"

definition TrimPrefix :: "string \<Rightarrow> string \<Rightarrow> string" where
  "TrimPrefix s p = (if HasPrefix s p then drop (length p) s else s)"

fun Cut :: "string \<Rightarrow> char \<Rightarrow> (string \<times> string) option" where
  "Cut [] sep = None"
| "Cut (c # s) sep =
     (if c = sep then Some ([], s) else map_option (\<lambda>(a, b). (c # a, b)) (Cut s sep))"

text \<open>
  \<^verbatim>\<open>strings.TrimSpace\<close> removes every leading and trailing character that
  \<^verbatim>\<open>unicode.IsSpace\<close> accepts; the list holds the UTF-8 encodings of these characters.
\<close>

definition space_seqs :: "string list" where
  "space_seqs =
     [[CHR 0x09], [CHR 0x0A], [CHR 0x0B], [CHR 0x0C], [CHR 0x0D], [CHR 0x20],
      [CHR 0xC2, CHR 0x85], [CHR 0xC2, CHR 0xA0], [CHR 0xE1, CHR 0x9A, CHR 0x80],
      [CHR 0xE2, CHR 0x80, CHR 0x80], [CHR 0xE2, CHR 0x80, CHR 0x81],
      [CHR 0xE2, CHR 0x80, CHR 0x82], [CHR 0xE2, CHR 0x80, CHR 0x83],
      [CHR 0xE2, CHR 0x80, CHR 0x84], [CHR 0xE2, CHR 0x80, CHR 0x85],
      [CHR 0xE2, CHR 0x80, CHR 0x86], [CHR 0xE2, CHR 0x80, CHR 0x87],
      [CHR 0xE2, CHR 0x80, CHR 0x88], [CHR 0xE2, CHR 0x80, CHR 0x89],
      [CHR 0xE2, CHR 0x80, CHR 0x8A], [CHR 0xE2, CHR 0x80, CHR 0xA8],
      [CHR 0xE2, CHR 0x80, CHR 0xA9], [CHR 0xE2, CHR 0x80, CHR 0xAF],
      [CHR 0xE2, CHR 0x81, CHR 0x9F], [CHR 0xE3, CHR 0x80, CHR 0x80]]"

fun strip_any :: "string list \<Rightarrow> string \<Rightarrow> string option" where
  "strip_any [] s = None"
| "strip_any (p # ps) s =
     (if p \<noteq> [] \<and> HasPrefix s p then Some (drop (length p) s) else strip_any ps s)"

lemma strip_any_shorter: "strip_any ps s = Some r \<Longrightarrow> length r < length s"
proof (induction ps)
  case (Cons p ps)
  have "length p \<le> length s" if "HasPrefix s p"
    using that unfolding HasPrefix_def by (metis length_take min.cobounded1)
  with Cons show ?case
    by (auto split: if_splits) (metis diff_less length_greater_0_conv less_le_trans)
qed simp

function trim_front :: "string list \<Rightarrow> string \<Rightarrow> string" where
  "trim_front ps s = (case strip_any ps s of None \<Rightarrow> s | Some r \<Rightarrow> trim_front ps r)"
  by pat_completeness auto
termination
  by (relation "measure (\<lambda>(ps, s). length s)") (auto dest: strip_any_shorter)

declare trim_front.simps [simp del]

definition TrimSpace :: "string \<Rightarrow> string" where
  "TrimSpace s = rev (trim_front (map rev space_seqs) (rev (trim_front space_seqs s)))"

section \<open>Package encoding/hex\<close>

definition hextable :: string where
  "hextable = ''0123456789abcdef''"

definition hex_byte :: "byte \<Rightarrow> string" where
  "hex_byte b = [hextable ! unat (drop_bit 4 b), hextable ! unat (b AND 15)]"

definition EncodeToString :: "byte list \<Rightarrow> string" where
  "EncodeToString bs = concat (map hex_byte bs)"

definition from_hex_char :: "char \<Rightarrow> nat option" where
  "from_hex_char c =
     (let n = of_char c :: nat in
      if 48 \<le> n \<and> n \<le> 57 then Some (n - 48)
      else if 97 \<le> n \<and> n \<le> 102 then Some (n - 97 + 10)
      else if 65 \<le> n \<and> n \<le> 70 then Some (n - 65 + 10)
      else None)"

fun DecodeString :: "string \<Rightarrow> byte list option" where
  "DecodeString [] = Some []"
| "DecodeString [c] = None"
| "DecodeString (c # d # s) =
     (case (from_hex_char c, from_hex_char d) of
        (Some a, Some b) \<Rightarrow> map_option ((#) (of_nat (a * 16 + b))) (DecodeString s)
      | _ \<Rightarrow> None)"

section \<open>Package crypto/rand\<close>

text \<open>
  The random source is an unbounded stream of bytes: reading \<open>n\<close> bytes fills a buffer with the
  next \<open>n\<close> bytes and leaves the rest of the stream. (From Go 1.24 on, which \<^verbatim>\<open>go.mod\<close> requires,
  \<^verbatim>\<open>rand.Read\<close> never returns an error, so the panics guarded by its error are dead code.)
\<close>

type_synonym entropy = "byte stream"

definition rand_Read :: "nat \<Rightarrow> entropy \<Rightarrow> byte list \<times> entropy" where
  "rand_Read n e = (stake n e, sdrop n e)"

section \<open>Lemmas on strings\<close>

lemma HasPrefix_append [simp]: "HasPrefix (p @ s) p"
  by (simp add: HasPrefix_def)

lemma HasPrefix_iff: "HasPrefix s p \<longleftrightarrow> (\<exists>r. s = p @ r)"
  by (metis HasPrefix_def append_eq_conv_conj)

lemma TrimPrefix_append [simp]: "TrimPrefix (p @ s) p = s"
  by (simp add: TrimPrefix_def)

lemma Cut_Some:
  "Cut s sep = Some (a, b) \<longleftrightarrow> s = a @ sep # b \<and> sep \<notin> set a"
proof (induction s arbitrary: a)
  case (Cons c s)
  then show ?case by (cases a) auto
qed simp

lemma Cut_None: "Cut s sep = None \<longleftrightarrow> sep \<notin> set s"
  by (induction s) auto

lemma bytes_of_append [simp]: "bytes_of (s @ t) = bytes_of s @ bytes_of t"
  by (simp add: bytes_of_def)

lemma length_bytes_of [simp]: "length (bytes_of s) = length s"
  by (simp add: bytes_of_def)

lemma unat_of_char [simp]: "unat (of_char c :: byte) = (of_char c :: nat)"
proof -
  have "(of_char c :: byte) = of_nat (of_char c :: nat)" by (simp only: of_nat_of_char)
  then have "unat (of_char c :: byte) = (of_char c :: nat) mod 256"
    by (simp add: unat_of_nat)
  then show ?thesis using nat_of_char_less_256 [of c] by simp
qed

lemma of_char_byte_inj [simp]: "(of_char c :: byte) = of_char d \<longleftrightarrow> c = d"
proof
  assume "(of_char c :: byte) = of_char d"
  then have "unat (of_char c :: byte) = unat (of_char d :: byte)" by simp
  then show "c = d" by simp
qed simp

lemma string_of_bytes_of [simp]: "string_of (bytes_of s) = s"
  by (induction s) (auto simp: string_of_def bytes_of_def)

lemma bytes_of_inject [simp]: "bytes_of s = bytes_of t \<longleftrightarrow> s = t"
  by (metis string_of_bytes_of)

section \<open>Lemmas on hexadecimal text\<close>

lemma hextable_from_hex: "n < 16 \<Longrightarrow> from_hex_char (hextable ! n) = Some n"
proof -
  have "\<forall>n\<in>set [0..<16]. from_hex_char (hextable ! n) = Some n" by code_simp
  then show "n < 16 \<Longrightarrow> from_hex_char (hextable ! n) = Some n" by simp
qed

lemma unat_byte_less: "unat (b :: byte) < 256"
proof -
  have "unat b < 2 ^ LENGTH(8)" by (rule unsigned_less)
  then show ?thesis by simp
qed

lemma unat_nibbles:
  fixes b :: byte
  shows "unat (drop_bit 4 b) < 16" and "unat (b AND 15) < 16"
    and "unat (drop_bit 4 b) * 16 + unat (b AND 15) = unat b"
proof -
  have hi: "unat (drop_bit 4 b) = unat b div 16"
    by (simp only: unat_drop_bit_eq) (simp add: drop_bit_eq_div)
  have m: "b AND 15 = take_bit 4 b" by (simp add: take_bit_eq_mask mask_eq_exp_minus_1)
  have lo: "unat (b AND 15) = unat b mod 16"
    unfolding m by (simp only: unsigned_take_bit_eq) (simp add: take_bit_eq_mod)
  show "unat (drop_bit 4 b) < 16" unfolding hi using unat_byte_less [of b] by simp
  show "unat (b AND 15) < 16" unfolding lo by simp
  show "unat (drop_bit 4 b) * 16 + unat (b AND 15) = unat b" unfolding hi lo by simp
qed

lemma Decode_Encode [simp]: "DecodeString (EncodeToString bs) = Some bs"
proof (induction bs)
  case Nil
  then show ?case by (simp add: EncodeToString_def)
next
  case (Cons b bs)
  have "(of_nat (unat (drop_bit 4 b) * 16 + unat (b AND 15)) :: byte) = b"
    unfolding unat_nibbles by simp
  with Cons show ?case
    by (simp add: EncodeToString_def hex_byte_def hextable_from_hex unat_nibbles(1,2))
qed

lemma length_EncodeToString [simp]: "length (EncodeToString bs) = 2 * length bs"
  by (induction bs) (auto simp: EncodeToString_def hex_byte_def)

lemma EncodeToString_inject [simp]: "EncodeToString a = EncodeToString b \<longleftrightarrow> a = b"
  by (metis Decode_Encode option.inject)

lemma length_DecodeString: "DecodeString s = Some bs \<Longrightarrow> length s = 2 * length bs"
  by (induction s arbitrary: bs rule: DecodeString.induct) (auto split: option.splits)

lemma length_rand_Read [simp]: "length (fst (rand_Read n e)) = n"
  by (simp add: rand_Read_def)

section \<open>Association lists as finite maps\<close>

lemma map_of_filter_snd:
  "distinct (map fst al) \<Longrightarrow>
   map_of (filter (\<lambda>(k, v). P k v) al) k =
     (case map_of al k of None \<Rightarrow> None | Some v \<Rightarrow> if P k v then Some v else None)"
proof (induction al)
  case (Cons kv al)
  obtain k' v' where kv: "kv = (k', v')" by fastforce
  have "map_of al k' = None" using Cons.prems kv by (simp add: map_of_eq_None_iff)
  with Cons kv show ?case by (auto split: option.splits)
qed simp

lemma distinct_filter_fst:
  "distinct (map fst al) \<Longrightarrow> distinct (map fst (filter P al))"
  by (simp add: distinct_map_filter)

lemma map_of_update_alist [alist_simps]: "map_of (AList.update k v al) = (map_of al)(k \<mapsto> v)"
  by (rule update_conv')

lemma map_of_delete_alist [alist_simps]: "map_of (AList.delete k al) = (map_of al)(k := None)"
  by (rule delete_conv')

lemmas alist_distinct [simp, intro] =
  distinct_filter_fst distinct_update distinct_delete

end
