(* ===== verification/Nano_Hash.thy ===== *)
theory Nano_Hash
  imports Relay_Prelude
begin

text \<open>
  Package \<^verbatim>\<open>internal/nano\<close>, file \<^verbatim>\<open>hash.go\<close>: the BLAKE2b helpers. The hash itself is
  \<^verbatim>\<open>golang.org/x/crypto/blake2b\<close>, a parameter here: \<open>B n\<close> is what \<^verbatim>\<open>blake2b.New(n, nil)\<close> returns,
  \<open>None\<close> for an error and otherwise the function from the bytes written to the digest that
  \<^verbatim>\<open>Sum(nil)\<close> returns. Writing several parts is writing their concatenation, the documented
  behaviour of Go's \<^verbatim>\<open>hash.Hash\<close>.
\<close>

type_synonym blake2b = "nat \<Rightarrow> (byte list \<Rightarrow> byte list) option"

text \<open>What the code relies on: sizes 1 to 64 are accepted, and a digest has the size asked for.\<close>

definition blake2b_ok :: "blake2b \<Rightarrow> bool" where
  "blake2b_ok B \<longleftrightarrow> (\<forall>n. 1 \<le> n \<and> n \<le> 64 \<longrightarrow> (\<exists>h. B n = Some h \<and> (\<forall>m. length (h m) = n)))"

definition blake2bSum :: "blake2b \<Rightarrow> nat \<Rightarrow> byte list list \<Rightarrow> go_error + byte list" where
  "blake2bSum B sz parts =
     (case B sz of
        None \<Rightarrow> Inl (GoPanic ''nano: invalid blake2b size'')
      | Some h \<Rightarrow> Inr (h (concat parts)))"

definition blake2b256 :: "blake2b \<Rightarrow> byte list list \<Rightarrow> go_error + byte list" where
  "blake2b256 B parts = blake2bSum B 32 parts"

definition blake2b512 :: "blake2b \<Rightarrow> byte list list \<Rightarrow> go_error + byte list" where
  "blake2b512 B parts = blake2bSum B 64 parts"

text \<open>
  Under the contract no call with a size from 1 to 64 panics. \<open>digest\<close> names the result of
  such a call.
\<close>

definition digest :: "blake2b \<Rightarrow> nat \<Rightarrow> byte list \<Rightarrow> byte list" where
  "digest B n m = (case B n of None \<Rightarrow> [] | Some h \<Rightarrow> h m)"

lemma blake2bSum_digest:
  "blake2b_ok B \<Longrightarrow> 1 \<le> n \<Longrightarrow> n \<le> 64 \<Longrightarrow> blake2bSum B n parts = Inr (digest B n (concat parts))"
  by (auto simp: blake2b_ok_def blake2bSum_def digest_def)

lemma length_digest:
  "blake2b_ok B \<Longrightarrow> 1 \<le> n \<Longrightarrow> n \<le> 64 \<Longrightarrow> length (digest B n m) = n"
  by (auto simp: blake2b_ok_def digest_def split: option.splits)

lemma blake2b256_digest: "blake2b_ok B \<Longrightarrow> blake2b256 B parts = Inr (digest B 32 (concat parts))"
  by (simp add: blake2b256_def blake2bSum_digest)

lemma blake2b512_digest: "blake2b_ok B \<Longrightarrow> blake2b512 B parts = Inr (digest B 64 (concat parts))"
  by (simp add: blake2b512_def blake2bSum_digest)

text \<open>
  A function that satisfies the contract, for closed instances of the theorems that assume it:
  the message cut or padded to the digest size, starting with the low byte of its length.
\<close>

definition pad_hash :: blake2b where
  "pad_hash n = (if 1 \<le> n \<and> n \<le> 64
     then Some (\<lambda>m. take n (of_nat (length m) # m @ replicate n 0)) else None)"

lemma pad_hash_ok: "blake2b_ok pad_hash"
  by (auto simp: blake2b_ok_def pad_hash_def)

end
