(* ===== verification/Nano_Account.thy ===== *)
theory Nano_Account
  imports Nano_Hash
begin

unbundle bit_operations_syntax

text \<open>
  Package \<^verbatim>\<open>internal/nano\<close>, file \<^verbatim>\<open>account.go\<close>: the Nano base-32 codec and account addresses.
  The loops of \<^verbatim>\<open>encodeBase32\<close> and \<^verbatim>\<open>decodeBase32\<close> are translated with their indices, shifts and
  in-place updates; \<open>cbits\<close> and \<open>bits_of\<close> give the reference meaning (a text and a byte string
  denote the same bits) and the lemmas show that the loops compute it, that \<^verbatim>\<open>ParseAddress\<close> inverts
  \<^verbatim>\<open>Address\<close>, and exactly which texts \<^verbatim>\<open>ParseAddress\<close> accepts.
\<close>

section \<open>The code\<close>

definition nanoAlphabet :: string where
  "nanoAlphabet = ''13456789abcdefghijkmnopqrstuwxyz''"

definition nanoReverse :: "int list" where
  "nanoReverse =
     fold (\<lambda>i t. t[of_char (nanoAlphabet ! i) := int i]) [0..<length nanoAlphabet]
       (replicate 128 (- 1))"

type_synonym PublicKey = "byte list"  \<comment> \<open>\<^verbatim>\<open>[32]byte\<close>: always of length 32\<close>

definition bitAt :: "byte list \<Rightarrow> nat \<Rightarrow> nat \<Rightarrow> nat option" where
  "bitAt data padBits i =
     (if i < padBits then Some 0
      else let j = i - padBits in
        if j div 8 < length data
        then Some (unat (drop_bit (7 - j mod 8) (data ! (j div 8)) AND 1))
        else None)"

fun enc_inner :: "byte list \<Rightarrow> nat \<Rightarrow> nat \<Rightarrow> nat list \<Rightarrow> nat \<Rightarrow> nat option" where
  "enc_inner data padBits i [] v = Some v"
| "enc_inner data padBits i (k # ks) v =
     (case bitAt data padBits (i + k) of
        None \<Rightarrow> None
      | Some b \<Rightarrow> enc_inner data padBits i ks (push_bit 1 v OR b))"

function enc_loop :: "byte list \<Rightarrow> nat \<Rightarrow> nat \<Rightarrow> nat \<Rightarrow> string \<Rightarrow> go_error + string" where
  "enc_loop data padBits totalBits i sb =
     (if i < totalBits then
        (case enc_inner data padBits i [0..<5] 0 of
           None \<Rightarrow> Inl (GoPanic ''index out of range'')
         | Some v \<Rightarrow>
             if v < length nanoAlphabet
             then enc_loop data padBits totalBits (i + 5) (sb @ [nanoAlphabet ! v])
             else Inl (GoPanic ''index out of range''))
      else Inr sb)"
  by pat_completeness auto
termination
  by (relation "measure (\<lambda>(data, padBits, totalBits, i, sb). totalBits - i)") auto

declare enc_loop.simps [simp del]

definition encodeBase32 :: "byte list \<Rightarrow> nat \<Rightarrow> go_error + string" where
  "encodeBase32 data padBits = enc_loop data padBits (padBits + length data * 8) 0 []"

fun dec_inner :: "nat \<Rightarrow> nat \<Rightarrow> nat list \<Rightarrow> nat \<Rightarrow> byte list \<Rightarrow> (nat \<times> byte list) option" where
  "dec_inner v padBits [] bitIdx out = Some (bitIdx, out)"
| "dec_inner v padBits (k # ks) bitIdx out =
     (let b = drop_bit k v AND 1 in
      if padBits \<le> bitIdx then
        let pos = bitIdx - padBits in
        if pos div 8 < length out then
          dec_inner v padBits ks (bitIdx + 1)
            (out[pos div 8 := out ! (pos div 8) OR push_bit (7 - pos mod 8) (of_nat b)])
        else None
      else dec_inner v padBits ks (bitIdx + 1) out)"

fun dec_loop :: "string \<Rightarrow> nat \<Rightarrow> nat \<Rightarrow> byte list \<Rightarrow> go_error + byte list" where
  "dec_loop [] padBits bitIdx out = Inr out"
| "dec_loop (c # s) padBits bitIdx out =
     (let n = of_char c :: nat in
      if 128 \<le> n \<or> nanoReverse ! n < 0 then Inl (GoErr ''nano: invalid base32 character'')
      else case dec_inner (nat (nanoReverse ! n)) padBits [4, 3, 2, 1, 0] bitIdx out of
             None \<Rightarrow> Inl (GoPanic ''index out of range'')
           | Some (bitIdx', out') \<Rightarrow> dec_loop s padBits bitIdx' out')"

definition decodeBase32 :: "string \<Rightarrow> nat \<Rightarrow> go_error + byte list" where
  "decodeBase32 s padBits =
     (let outBits = int (length s * 5) - int padBits in
      if outBits mod 8 \<noteq> 0 then Inl (GoErr ''nano: base32 length not byte-aligned'')
      else if outBits < 0 then Inl (GoPanic ''makeslice: len out of range'')
      else dec_loop s padBits 0 (replicate (nat outBits div 8) 0))"

text \<open>\<^verbatim>\<open>reverseBytes\<close> swaps in place from both ends; \<open>j\<close> is one past the right index.\<close>

function rev_loop :: "byte list \<Rightarrow> nat \<Rightarrow> nat \<Rightarrow> byte list" where
  "rev_loop b i j =
     (if i + 1 < j then rev_loop (b[i := b ! (j - 1), j - 1 := b ! i]) (i + 1) (j - 1) else b)"
  by pat_completeness auto
termination
  by (relation "measure (\<lambda>(b, i, j). j - i)") auto

declare rev_loop.simps [simp del]

definition reverseBytes :: "byte list \<Rightarrow> byte list" where
  "reverseBytes b = rev_loop b 0 (length b)"

fun eq_loop :: "nat list \<Rightarrow> byte list \<Rightarrow> byte list \<Rightarrow> bool" where
  "eq_loop [] a b = True"
| "eq_loop (i # is) a b = (if a ! i \<noteq> b ! i then False else eq_loop is a b)"

definition bytesEqual :: "byte list \<Rightarrow> byte list \<Rightarrow> bool" where
  "bytesEqual a b = (if length a \<noteq> length b then False else eq_loop [0..<length a] a b)"

definition Address :: "blake2b \<Rightarrow> PublicKey \<Rightarrow> go_error + string" where
  "Address B pk =
     (case encodeBase32 pk 4 of
        Inl e \<Rightarrow> Inl e
      | Inr account \<Rightarrow>
          (case blake2bSum B 5 [pk] of
             Inl e \<Rightarrow> Inl e
           | Inr cs \<Rightarrow>
               (case encodeBase32 (reverseBytes cs) 0 of
                  Inl e \<Rightarrow> Inl e
                | Inr checksum \<Rightarrow> Inr (''nano_'' @ account @ checksum))))"

text \<open>\<^verbatim>\<open>ParseAddress\<close>: \<open>parseBody\<close> is what follows the switch on the prefix.\<close>

definition parseBody :: "blake2b \<Rightarrow> string \<Rightarrow> go_error + PublicKey" where
  "parseBody B addr =
     (if length addr \<noteq> 60 then Inl (GoErr ''nano: address has wrong length'')
      else
        (case decodeBase32 (take 52 addr) 4 of
           Inl e \<Rightarrow> Inl e
         | Inr pub \<Rightarrow>
             if length pub \<noteq> 32 then Inl (GoErr ''nano: decoded public key has wrong length'')
             else
               (case decodeBase32 (drop 52 addr) 0 of
                  Inl e \<Rightarrow> Inl e
                | Inr gotChecksum \<Rightarrow>
                    (case blake2bSum B 5 [pub] of
                       Inl e \<Rightarrow> Inl e
                     | Inr want \<Rightarrow>
                         if \<not> bytesEqual (reverseBytes gotChecksum) want
                         then Inl (GoErr ''nano: invalid address checksum'')
                         else Inr pub))))"

definition ParseAddress :: "blake2b \<Rightarrow> string \<Rightarrow> go_error + PublicKey" where
  "ParseAddress B addr =
     (if HasPrefix addr ''nano_'' then parseBody B (drop 5 addr)
      else if HasPrefix addr ''xrb_'' then parseBody B (drop 4 addr)
      else Inl (GoErr ''nano: address must start with nano_ or xrb_''))"

section \<open>Reference meaning: the bits a text or a byte string denotes\<close>

definition bits_of :: "byte list \<Rightarrow> bool list" where
  "bits_of bs = map (\<lambda>i. bit (bs ! (i div 8)) (7 - i mod 8)) [0..<8 * length bs]"

definition vbits :: "nat \<Rightarrow> bool list" where
  "vbits v = [bit v 4, bit v 3, bit v 2, bit v 1, bit v 0]"

definition code_of :: "char \<Rightarrow> nat" where
  "code_of c = nat (nanoReverse ! of_char c)"

definition cbits :: "string \<Rightarrow> bool list" where
  "cbits s = concat (map (\<lambda>c. vbits (code_of c)) s)"

abbreviation base32_text :: "string \<Rightarrow> bool" where
  "base32_text s \<equiv> set s \<subseteq> set nanoAlphabet"

subsection \<open>Facts about the alphabet and its reverse table\<close>

lemma length_nanoAlphabet [simp]: "length nanoAlphabet = 32"
  by (simp add: nanoAlphabet_def)

lemma nanoAlphabet_ascii: "\<forall>c\<in>set nanoAlphabet. (of_char c :: nat) < 128"
  by (simp add: nanoAlphabet_def)

lemma distinct_nanoAlphabet: "distinct nanoAlphabet"
  by (simp add: nanoAlphabet_def)

text \<open>The initializer of \<^verbatim>\<open>nanoReverse\<close> writes distinct entries, so each keeps its index.\<close>

lemma fold_fill:
  assumes "inj_on f {..<n}" "\<And>i. i < n \<Longrightarrow> f i < length t"
  shows "length (fold (\<lambda>i t. t[f i := g i]) [0..<n] t) = length t
    \<and> (\<forall>m. fold (\<lambda>i t. t[f i := g i]) [0..<n] t ! m
           = (if m \<in> f ` {..<n} then g (the_inv_into {..<n} f m) else t ! m))"
  using assms
proof (induction n)
  case (Suc n)
  let ?F = "fold (\<lambda>i t. t[f i := g i]) [0..<n] t"
  have inj: "inj_on f {..<n}" by (rule inj_on_subset [OF Suc.prems(1)]) auto
  have IH: "length ?F = length t"
      "\<And>m. ?F ! m = (if m \<in> f ` {..<n} then g (the_inv_into {..<n} f m) else t ! m)"
    using Suc.IH [OF inj] Suc.prems(2) by auto
  have the: "the_inv_into {..<k} f (f i) = i" if "i < k" "inj_on f {..<k}" for i k
    using that by (intro the_inv_into_f_f) auto
  have "?F[f n := g n] ! m
      = (if m \<in> f ` {..<Suc n} then g (the_inv_into {..<Suc n} f m) else t ! m)" for m
  proof (cases "m = f n")
    case True
    then show ?thesis using Suc.prems IH(1) the [of n "Suc n"] by auto
  next
    case False
    then show ?thesis
      using IH(2) [of m] the Suc.prems(1) inj by (auto simp: less_Suc_eq)
  qed
  with IH(1) show ?case by simp
qed simp

lemma alphabet_positions:
  "inj_on (\<lambda>i. of_char (nanoAlphabet ! i) :: nat) {..<length nanoAlphabet}"
  using distinct_nanoAlphabet by (auto simp: inj_on_def nth_eq_iff_index_eq)

lemma nanoReverse_alphabet: "v < 32 \<Longrightarrow> nanoReverse ! of_char (nanoAlphabet ! v) = int v"
  and nanoReverse_other: "n < 128 \<Longrightarrow> char_of n \<notin> set nanoAlphabet \<Longrightarrow> nanoReverse ! n = - 1"
proof -
  let ?f = "\<lambda>i. of_char (nanoAlphabet ! i) :: nat"
  have fill: "nanoReverse ! m = (if m \<in> ?f ` {..<32}
      then int (the_inv_into {..<32} ?f m) else replicate 128 (- 1) ! m)" for m
    using fold_fill [of ?f 32 "replicate 128 (- 1)" int] alphabet_positions nanoAlphabet_ascii
    by (simp add: nanoReverse_def)
  show "v < 32 \<Longrightarrow> nanoReverse ! of_char (nanoAlphabet ! v) = int v"
    using the_inv_into_f_f [OF alphabet_positions, of v] by (simp add: fill)
  assume n: "n < 128" "char_of n \<notin> set nanoAlphabet"
  have "n \<notin> ?f ` {..<32}"
  proof
    assume "n \<in> ?f ` {..<32}"
    then obtain i where "i < 32" "n = ?f i" by auto
    then have "char_of n \<in> set nanoAlphabet" by simp
    with n(2) show False by simp
  qed
  then show "nanoReverse ! n = - 1" using n(1) fill by simp
qed

lemma code_of_alphabet [simp]: "v < 32 \<Longrightarrow> code_of (nanoAlphabet ! v) = v"
  using nanoReverse_alphabet by (simp add: code_of_def)

lemma base32_char_iff:
  "128 \<le> (of_char c :: nat) \<or> nanoReverse ! of_char c < 0 \<longleftrightarrow> c \<notin> set nanoAlphabet"
proof (cases "c \<in> set nanoAlphabet")
  case True
  then obtain v where "v < 32" "c = nanoAlphabet ! v" by (auto simp: in_set_conv_nth)
  with True show ?thesis
    using bspec [OF nanoAlphabet_ascii True] nanoReverse_alphabet [of v] by simp
next
  case False
  then show ?thesis
    using nanoReverse_other [of "of_char c"] by (cases "(of_char c :: nat) < 128") auto
qed

lemma code_of_bound: "c \<in> set nanoAlphabet \<Longrightarrow> code_of c < 32 \<and> nanoAlphabet ! code_of c = c"
  by (metis code_of_alphabet in_set_conv_nth length_nanoAlphabet)

lemma code_of_inj: "c \<in> set nanoAlphabet \<Longrightarrow> d \<in> set nanoAlphabet \<Longrightarrow> code_of c = code_of d \<Longrightarrow> c = d"
  by (metis code_of_bound)

subsection \<open>Facts about bits\<close>

lemma length_bits_of [simp]: "length (bits_of bs) = 8 * length bs"
  by (simp add: bits_of_def)

lemma nth_bits_of: "i < 8 * length bs \<Longrightarrow> bits_of bs ! i = bit (bs ! (i div 8)) (7 - i mod 8)"
  by (simp add: bits_of_def)

lemma length_vbits [simp]: "length (vbits v) = 5"
  by (simp add: vbits_def)

lemma cbits_simps [simp]:
  "cbits [] = []" "cbits (c # s) = vbits (code_of c) @ cbits s" "cbits (s @ t) = cbits s @ cbits t"
  by (simp_all add: cbits_def)

lemma length_cbits [simp]: "length (cbits s) = 5 * length s"
  by (induction s) auto

lemma bits_of_inject:
  assumes "bits_of a = bits_of b"
  shows "a = b"
proof -
  have len: "length a = length b" using arg_cong [OF assms, of length] by simp
  show ?thesis
  proof (rule nth_equalityI [OF len])
    fix m assume m: "m < length a"
    have "bit (a ! m) n = bit (b ! m) n" if "n < 8" for n
    proof -
      have k: "(8 * m + k) div 8 = m \<and> (8 * m + k) mod 8 = k" if "k < 8" for k
        using that by simp
      define i where "i = 8 * m + (7 - n)"
      have i: "i < 8 * length a" "i div 8 = m" "7 - i mod 8 = n"
        unfolding i_def using m that k [of "7 - n"] by linarith+
      have "bits_of a ! i = bits_of b ! i" using assms by simp
      then show ?thesis using i len by (simp add: nth_bits_of)
    qed
    then show "a ! m = b ! m" by (intro bit_word_eqI) simp
  qed
qed

definition group_val :: "bool \<Rightarrow> bool \<Rightarrow> bool \<Rightarrow> bool \<Rightarrow> bool \<Rightarrow> nat" where
  "group_val b0 b1 b2 b3 b4 =
     push_bit 1 (push_bit 1 (push_bit 1 (push_bit 1 (push_bit 1 0 OR of_bool b0)
       OR of_bool b1) OR of_bool b2) OR of_bool b3) OR of_bool b4"

lemma group_val_ok:
  "\<forall>b0 b1 b2 b3 b4. group_val b0 b1 b2 b3 b4 < 32
     \<and> vbits (group_val b0 b1 b2 b3 b4) = [b0, b1, b2, b3, b4]"
  by code_simp

lemma high_bits_zero: "(v :: nat) < 32 \<Longrightarrow> 5 \<le> n \<Longrightarrow> \<not> bit v n"
proof -
  assume "v < 32" "5 \<le> n"
  moreover have "(2::nat) ^ 5 \<le> 2 ^ n" using \<open>5 \<le> n\<close> by (intro power_increasing) auto
  ultimately have "v div 2 ^ n = 0" by simp
  then show "\<not> bit v n" by (simp add: bit_iff_odd)
qed

lemma vbits_inject: "v < 32 \<Longrightarrow> w < 32 \<Longrightarrow> vbits v = vbits w \<Longrightarrow> v = w"
proof (rule bit_eqI)
  fix n :: nat assume *: "v < 32" "w < 32" "vbits v = vbits w"
  consider "n = 0" | "n = 1" | "n = 2" | "n = 3" | "n = 4" | "5 \<le> n" by linarith
  then show "bit v n \<longleftrightarrow> bit w n"
    by cases (use * high_bits_zero in \<open>auto simp: vbits_def\<close>)
qed

lemma cbits_inject:
  "base32_text s \<Longrightarrow> base32_text t \<Longrightarrow> cbits s = cbits t \<Longrightarrow> s = t"
proof (induction s arbitrary: t)
  case Nil
  then show ?case by (cases t) (auto simp: vbits_def)
next
  case (Cons c s)
  then obtain d t' where t: "t = d # t'" by (cases t) (auto simp: vbits_def)
  with Cons.prems have "vbits (code_of c) = vbits (code_of d)" "cbits s = cbits t'" by auto
  with Cons t show ?case
    by (metis code_of_bound code_of_inj insert_subset list.simps(15) vbits_inject)
qed

section \<open>The encoder\<close>

abbreviation padded :: "byte list \<Rightarrow> nat \<Rightarrow> bool list" where
  "padded data padBits \<equiv> replicate padBits False @ bits_of data"

lemma bitAt_padded:
  assumes "i < padBits + 8 * length data"
  shows "bitAt data padBits i = Some (of_bool (padded data padBits ! i))"
proof (cases "i < padBits")
  case True
  then show ?thesis by (simp add: bitAt_def nth_append)
next
  case False
  have "unat (drop_bit n w AND 1) = of_bool (bit w n)" for w :: byte and n
    by (simp add: and_one_eq bit_iff_odd_drop_bit odd_iff_mod_2_eq_one)
  with False assms show ?thesis
    by (auto simp: bitAt_def Let_def nth_append nth_bits_of less_mult_imp_div_less)
qed

lemma take5_drop:
  "i + 5 \<le> length B \<Longrightarrow>
   take 5 (drop i B) = [B ! i, B ! (i + 1), B ! (i + 2), B ! (i + 3), B ! (i + 4)]"
  by (rule nth_equalityI) (auto simp: less_Suc_eq numeral_eq_Suc)

lemma enc_group:
  assumes "i + 5 \<le> padBits + 8 * length data"
  shows "\<exists>v<32. enc_inner data padBits i [0..<5] 0 = Some v
    \<and> vbits v = take 5 (drop i (padded data padBits))"
proof -
  let ?B = "padded data padBits"
  have l: "i + 5 \<le> length ?B" using assms by simp
  note t = take5_drop [OF l]
  have b: "bitAt data padBits (i + k) = Some (of_bool (?B ! (i + k)))" if "k < 5" for k
    using assms that by (intro bitAt_padded) simp
  have u: "[0..<5] = [0, 1, 2, 3, 4 :: nat]" by (simp add: upt_rec)
  have "enc_inner data padBits i [0..<5] 0
      = Some (group_val (?B ! i) (?B ! (i+1)) (?B ! (i+2)) (?B ! (i+3)) (?B ! (i+4)))"
    unfolding u group_val_def using b [of 0] b [of 1] b [of 2] b [of 3] b [of 4] by simp
  then show ?thesis unfolding t using group_val_ok by blast
qed

lemma enc_loop_step:
  assumes "i < totalBits" "enc_inner data padBits i [0..<5] 0 = Some v" "v < 32"
  shows "enc_loop data padBits totalBits i sb
    = enc_loop data padBits totalBits (i + 5) (sb @ [nanoAlphabet ! v])"
  using assms by (subst enc_loop.simps) simp

lemma enc_loop_correct:
  assumes "padBits + 8 * length data = 5 * (n + m)"
    and "length sb = n" "base32_text sb" "cbits sb = take (5 * n) (padded data padBits)"
  shows "\<exists>s. enc_loop data padBits (5 * (n + m)) (5 * n) sb = Inr s \<and> length s = n + m
    \<and> base32_text s \<and> cbits s = padded data padBits"
  using assms
proof (induction m arbitrary: n sb)
  case 0
  then show ?case by (subst enc_loop.simps) simp
next
  case (Suc m)
  let ?B = "padded data padBits"
  have "5 * n + 5 \<le> padBits + 8 * length data" using Suc.prems(1) by simp
  then obtain v where v: "v < 32" "enc_inner data padBits (5 * n) [0..<5] 0 = Some v"
      "vbits v = take 5 (drop (5 * n) ?B)"
    using enc_group by blast
  let ?sb = "sb @ [nanoAlphabet ! v]"
  have "cbits ?sb = take (5 * n + 5) ?B"
    unfolding take_add using Suc.prems(4) v(1,3)
    by (simp only: cbits_simps code_of_alphabet append_Nil2)
  then have c: "cbits ?sb = take (5 * Suc n) ?B" by (simp only: mult_Suc_right add.commute)
  have "\<exists>s. enc_loop data padBits (5 * (Suc n + m)) (5 * Suc n) ?sb = Inr s
      \<and> length s = Suc n + m \<and> base32_text s \<and> cbits s = ?B"
    by (rule Suc.IH) (use Suc.prems v c in \<open>auto intro: nth_mem\<close>)
  then show ?case
    using enc_loop_step [OF _ v(2) v(1), of "5 * (n + Suc m)" sb] by (simp add: add.commute)
qed

lemma encodeBase32_correct:
  assumes "padBits + 8 * length data = 5 * n"
  shows "\<exists>s. encodeBase32 data padBits = Inr s \<and> length s = n \<and> base32_text s
    \<and> cbits s = padded data padBits"
  using enc_loop_correct [of padBits data 0 n "[]"] assms
  by (simp add: encodeBase32_def mult.commute)

section \<open>The decoder\<close>

lemma bits_of_zero: "bits_of (replicate n 0) = replicate (8 * n) False"
  by (rule nth_equalityI) (simp_all add: nth_bits_of less_mult_imp_div_less)

text \<open>Setting one bit of the output array, as the decoder does with \<^verbatim>\<open>out[pos/8] |= ...\<close>.\<close>

lemma bits_of_set:
  assumes pos: "pos < 8 * length out" and clear: "\<not> bits_of out ! pos"
  shows "bits_of (out[pos div 8 := out ! (pos div 8) OR push_bit (7 - pos mod 8) (of_bool b)])
    = (bits_of out)[pos := b]" (is "bits_of ?o = _")
proof (rule nth_equalityI)
  fix i assume "i < length (bits_of ?o)"
  then have i: "i < 8 * length out" by simp
  have p: "pos div 8 < length out" using pos by (simp add: less_mult_imp_div_less)
  have u: "bit (push_bit k (of_bool b :: byte)) n \<longleftrightarrow> b \<and> n = k" if "n < 8" for k n
    using that by (auto simp: bit_push_bit_iff bit_of_bool_iff)
  have eq: "i = pos \<longleftrightarrow> i div 8 = pos div 8 \<and> 7 - i mod 8 = 7 - pos mod 8"
  proof -
    have m: "i mod 8 < 8" "pos mod 8 < 8" by simp_all
    have "7 - i mod 8 = 7 - pos mod 8 \<longleftrightarrow> i mod 8 = pos mod 8" using m by linarith
    then show ?thesis using div_mult_mod_eq [of i 8] div_mult_mod_eq [of pos 8] by metis
  qed
  show "bits_of ?o ! i = (bits_of out)[pos := b] ! i"
  proof (cases "i div 8 = pos div 8")
    case True
    have w: "?o ! (i div 8) = out ! (i div 8) OR push_bit (7 - pos mod 8) (of_bool b)"
      using True p by simp
    have "bits_of ?o ! i = bit (?o ! (i div 8)) (7 - i mod 8)"
      by (rule nth_bits_of) (simp add: i)
    also have "\<dots> \<longleftrightarrow> bits_of out ! i \<or> b \<and> 7 - i mod 8 = 7 - pos mod 8"
      unfolding w bit_or_iff nth_bits_of [OF i] by (subst u) simp_all
    also have "\<dots> \<longleftrightarrow> (bits_of out)[pos := b] ! i"
      using True eq clear pos by (cases "i = pos") simp_all
    finally show ?thesis .
  next
    case False
    then show ?thesis using i p eq by (auto simp: nth_bits_of nth_list_update)
  qed
qed simp

text \<open>
  Loop invariant of the decoder: the output array holds the bits consumed so far, less the padding,
  followed by zeros.
\<close>

definition dec_inv :: "nat \<Rightarrow> bool list \<Rightarrow> byte list \<Rightarrow> bool" where
  "dec_inv padBits seen out \<longleftrightarrow>
     length seen \<le> padBits + 8 * length out \<and>
     bits_of out = drop padBits seen
       @ replicate (8 * length out - (length seen - padBits)) False"

lemma dec_inv_pad:
  "dec_inv padBits seen out \<Longrightarrow> length seen < padBits \<Longrightarrow> dec_inv padBits (seen @ [b]) out"
  by (auto simp: dec_inv_def)

lemma dec_inv_bit:
  assumes inv: "dec_inv padBits seen out" and pad: "padBits \<le> length seen"
    and room: "length seen < padBits + 8 * length out"
  defines "pos \<equiv> length seen - padBits"
  shows "pos div 8 < length out
    \<and> dec_inv padBits (seen @ [b])
        (out[pos div 8 := out ! (pos div 8) OR push_bit (7 - pos mod 8) (of_bool b)])"
proof -
  let ?r = "8 * length out - pos"
  have pos: "pos < 8 * length out" using pad room by (simp add: pos_def)
  have bits: "bits_of out = drop padBits seen @ replicate ?r False"
    using inv by (simp add: dec_inv_def pos_def)
  have len: "length (drop padBits seen) = pos" by (simp add: pos_def)
  obtain r where r: "?r = Suc r" using pos by (metis Suc_diff_Suc)
  have "\<not> bits_of out ! pos" unfolding bits r using len by (simp add: nth_append)
  note set = bits_of_set [OF pos this, of b]
  have "(bits_of out)[pos := b] = drop padBits seen @ b # replicate r False"
    unfolding bits r using len by (simp add: list_update_append)
  moreover have "8 * length out - (length (seen @ [b]) - padBits) = r"
    using r pad by (simp add: pos_def)
  ultimately show ?thesis
    using set pad room pos by (simp add: dec_inv_def less_mult_imp_div_less)
qed

lemma dec_inner_correct:
  assumes "dec_inv padBits seen out"
    and "length seen + length ks \<le> padBits + 8 * length out"
  shows "\<exists>out'. dec_inner v padBits ks (length seen) out = Some (length seen + length ks, out')
    \<and> length out' = length out \<and> dec_inv padBits (seen @ map (bit v) ks) out'"
  using assms
proof (induction ks arbitrary: seen out)
  case (Cons k ks)
  have b: "(of_nat (drop_bit k v mod 2) :: byte) = of_bool (bit v k)"
    by (simp add: and_one_eq bit_iff_odd_drop_bit odd_iff_mod_2_eq_one)
  let ?seen = "seen @ [bit v k]"
  show ?case
  proof (cases "padBits \<le> length seen")
    case False
    then show ?thesis using Cons.IH [of ?seen out] Cons.prems dec_inv_pad by simp
  next
    case True
    let ?pos = "length seen - padBits"
    let ?out = "out[?pos div 8 := out ! (?pos div 8) OR push_bit (7 - ?pos mod 8) (of_bool (bit v k))]"
    have s: "?pos div 8 < length out" "dec_inv padBits ?seen ?out"
      using dec_inv_bit [OF Cons.prems(1) True, of "bit v k"] Cons.prems(2) by auto
    show ?thesis using Cons.IH [of ?seen ?out] s Cons.prems(2) True by (simp add: b Let_def and_one_eq)
  qed
qed simp

lemma vbits_map: "vbits v = map (bit v) [4, 3, 2, 1, 0]"
  by (simp add: vbits_def)

lemma dec_loop_correct:
  assumes "dec_inv padBits seen out" "length seen + 5 * length s = padBits + 8 * length out"
  shows "if base32_text s
    then \<exists>out'. dec_loop s padBits (length seen) out = Inr out' \<and> length out' = length out
      \<and> dec_inv padBits (seen @ cbits s) out'
    else dec_loop s padBits (length seen) out = Inl (GoErr ''nano: invalid base32 character'')"
  using assms
proof (induction s arbitrary: seen out)
  case (Cons c s)
  show ?case
  proof (cases "c \<in> set nanoAlphabet")
    case False
    then show ?thesis using base32_char_iff [of c] by simp
  next
    case True
    let ?v = "code_of c"
    have "length seen + length [4, 3, 2, 1, 0::nat] \<le> padBits + 8 * length out"
      using Cons.prems(2) by simp
    from dec_inner_correct [OF Cons.prems(1) this, of ?v]
    obtain out' where o: "dec_inner ?v padBits [4, 3, 2, 1, 0] (length seen) out
        = Some (length (seen @ vbits ?v), out')"
      "length out' = length out" "dec_inv padBits (seen @ vbits ?v) out'"
      by (auto simp: vbits_map)
    have "\<not> (128 \<le> (of_char c :: nat) \<or> nanoReverse ! of_char c < 0)"
      using True base32_char_iff by simp
    then have step: "dec_loop (c # s) padBits (length seen) out
        = dec_loop s padBits (length (seen @ vbits ?v)) out'"
      using o(1) by (simp add: code_of_def Let_def)
    show ?thesis
      using Cons.IH [OF o(3)] o(2) Cons.prems(2) True unfolding step by (simp split: if_splits)
  qed
qed simp

lemma decodeBase32_correct:
  assumes "5 * length s = padBits + 8 * n"
  shows "if base32_text s
    then \<exists>out. decodeBase32 s padBits = Inr out \<and> length out = n
      \<and> bits_of out = drop padBits (cbits s)
    else decodeBase32 s padBits = Inl (GoErr ''nano: invalid base32 character'')"
proof -
  let ?z = "replicate n 0 :: byte list"
  have o: "int (length s * 5) - int padBits = int (8 * n)" using assms by linarith
  have d: "decodeBase32 s padBits = dec_loop s padBits (length ([] :: bool list)) ?z"
    unfolding decodeBase32_def o by (simp add: nat_mult_distrib)
  have "dec_inv padBits [] ?z" by (simp add: dec_inv_def bits_of_zero)
  from dec_loop_correct [OF this, of s] assms show ?thesis
    unfolding d by (auto simp: dec_inv_def split: if_splits)
qed

corollary decodeBase32_Inr:
  assumes "5 * length s = padBits + 8 * n"
  shows "decodeBase32 s padBits = Inr out
    \<longleftrightarrow> base32_text s \<and> bits_of out = drop padBits (cbits s)"
proof (cases "base32_text s")
  case True
  then obtain o' where "decodeBase32 s padBits = Inr o'" "bits_of o' = drop padBits (cbits s)"
    using decodeBase32_correct [OF assms] by auto
  with True show ?thesis using bits_of_inject by auto
next
  case False
  then show ?thesis using decodeBase32_correct [OF assms] by simp
qed

section \<open>The byte loops\<close>

lemma rev_loop_nth:
  assumes "j \<le> length b"
  shows "length (rev_loop b i j) = length b \<and>
    (\<forall>m < length b. rev_loop b i j ! m = (if i \<le> m \<and> m < j then b ! (i + j - 1 - m) else b ! m))"
  using assms
proof (induction b i j rule: rev_loop.induct)
  case (1 b i j)
  show ?case
  proof (cases "i + 1 < j")
    case True
    let ?b = "b[i := b ! (j - 1), j - 1 := b ! i]"
    have r: "rev_loop b i j = rev_loop ?b (i + 1) (j - 1)"
      using True by (subst rev_loop.simps) simp
    have IH: "length (rev_loop ?b (i + 1) (j - 1)) = length ?b"
      "\<And>m. m < length b \<Longrightarrow> rev_loop ?b (i + 1) (j - 1) ! m
        = (if i + 1 \<le> m \<and> m < j - 1 then ?b ! (i + 1 + (j - 1) - 1 - m) else ?b ! m)"
      using "1.IH" [OF True] "1.prems" by auto
    have "rev_loop ?b (i + 1) (j - 1) ! m
        = (if i \<le> m \<and> m < j then b ! (i + j - 1 - m) else b ! m)" if m: "m < length b" for m
    proof -
      consider "m = i" | "m = j - 1" "m \<noteq> i" | "i < m" "m < j - 1" | "m < i" | "j \<le> m" by linarith
      then show ?thesis
        using True "1.prems" m IH(2) [OF m] by cases (auto simp: nth_list_update)
    qed
    then show ?thesis unfolding r using IH(1) by simp
  next
    case False
    then have "rev_loop b i j = b" by (subst rev_loop.simps) simp
    moreover have "m = i + j - 1 - m" if "i \<le> m" "m < j" for m using False that by linarith
    ultimately show ?thesis by auto
  qed
qed

lemma reverseBytes_rev [simp]: "reverseBytes b = rev b"
proof (rule nth_equalityI)
  have l: "length (reverseBytes b) = length b"
    "\<And>m. m < length b \<Longrightarrow> reverseBytes b ! m = b ! (length b - 1 - m)"
    using rev_loop_nth [of "length b" b 0] by (auto simp: reverseBytes_def)
  then show "length (reverseBytes b) = length (rev b)" by simp
  fix m assume "m < length (reverseBytes b)"
  then show "reverseBytes b ! m = rev b ! m" using l by (simp add: rev_nth)
qed

lemma eq_loop_all: "eq_loop is a b \<longleftrightarrow> (\<forall>i\<in>set is. a ! i = b ! i)"
  by (induction "is") auto

lemma bytesEqual_eq [simp]: "bytesEqual a b \<longleftrightarrow> a = b"
  by (auto simp: bytesEqual_def eq_loop_all intro: nth_equalityI)

section \<open>Addresses\<close>

lemma Address_parts:
  assumes B: "blake2b_ok B" and pk: "length pk = 32"
  obtains acc cs where "Address B pk = Inr (''nano_'' @ acc @ cs)"
    "length acc = 52" "length cs = 8" "base32_text acc" "base32_text cs"
    "cbits acc = replicate 4 False @ bits_of pk" "cbits cs = bits_of (rev (digest B 5 pk))"
proof -
  obtain acc where acc: "encodeBase32 pk 4 = Inr acc" "length acc = 52" "base32_text acc"
      "cbits acc = replicate 4 False @ bits_of pk"
    using encodeBase32_correct [of 4 pk 52] pk by auto
  have "length (rev (digest B 5 pk)) = 5" using length_digest [OF B, of 5] by simp
  then obtain cs where cs: "encodeBase32 (rev (digest B 5 pk)) 0 = Inr cs" "length cs = 8"
      "base32_text cs" "cbits cs = bits_of (rev (digest B 5 pk))"
    using encodeBase32_correct [of 0 "rev (digest B 5 pk)" 8] by auto
  have "Address B pk = Inr (''nano_'' @ acc @ cs)"
    using acc(1) cs(1) blake2bSum_digest [OF B, of 5 "[pk]"] by (simp add: Address_def)
  then show ?thesis using acc cs that by blast
qed

lemma parseBody_parts:
  assumes B: "blake2b_ok B"
  shows "parseBody B addr = Inr pk \<longleftrightarrow>
    length addr = 60 \<and> base32_text (take 52 addr) \<and> base32_text (drop 52 addr)
    \<and> bits_of pk = drop 4 (cbits (take 52 addr))
    \<and> bits_of (rev (digest B 5 pk)) = cbits (drop 52 addr)"
proof (cases "length addr = 60")
  case len: True
  have d1: "decodeBase32 (take 52 addr) 4 = Inr pub
      \<longleftrightarrow> base32_text (take 52 addr) \<and> bits_of pub = drop 4 (cbits (take 52 addr))" for pub
    using len by (intro decodeBase32_Inr [where n = 32]) simp
  have d2: "decodeBase32 (drop 52 addr) 0 = Inr got
      \<longleftrightarrow> base32_text (drop 52 addr) \<and> bits_of got = cbits (drop 52 addr)" for got
    using len decodeBase32_Inr [where n = 5 and s = "drop 52 addr" and padBits = 0] by simp
  have l32: "length pub = 32" if "bits_of pub = drop 4 (cbits (take 52 addr))" for pub
    using arg_cong [OF that, of length] len by simp
  have h: "blake2bSum B 5 [m] = Inr (digest B 5 m)" for m
    using blake2bSum_digest [OF B, of 5 "[m]"] by simp
  have ex: "\<exists>got. bits_of got = cbits (drop 52 addr)" if "base32_text (drop 52 addr)"
    using decodeBase32_correct [of "drop 52 addr" 0 5] len that by auto
  have "parseBody B addr = Inr pk \<longleftrightarrow> (\<exists>got. decodeBase32 (take 52 addr) 4 = Inr pk
      \<and> length pk = 32 \<and> decodeBase32 (drop 52 addr) 0 = Inr got \<and> rev got = digest B 5 pk)"
    unfolding parseBody_def using len by (auto simp: h split: sum.splits if_splits)
  also have "\<dots> \<longleftrightarrow> base32_text (take 52 addr) \<and> base32_text (drop 52 addr)
      \<and> bits_of pk = drop 4 (cbits (take 52 addr))
      \<and> bits_of (rev (digest B 5 pk)) = cbits (drop 52 addr)"
    unfolding d1 d2 using l32 ex by (metis bits_of_inject rev_rev_ident)
  finally show ?thesis using len by simp
qed (simp add: parseBody_def)

lemma ParseAddress_prefix:
  assumes "p = ''nano_'' \<or> p = ''xrb_''"
  shows "ParseAddress B (p @ addr) = parseBody B addr"
  using assms by (auto simp: ParseAddress_def HasPrefix_def)

lemma ParseAddress_parts:
  assumes B: "blake2b_ok B"
  shows "ParseAddress B a = Inr pk \<longleftrightarrow>
    (\<exists>p acc cs. (p = ''nano_'' \<or> p = ''xrb_'') \<and> a = p @ acc @ cs \<and> length acc = 52
       \<and> length cs = 8 \<and> base32_text acc \<and> base32_text cs \<and> bits_of pk = drop 4 (cbits acc)
       \<and> bits_of (rev (digest B 5 pk)) = cbits cs)" (is "_ \<longleftrightarrow> ?R")
proof
  assume L: "ParseAddress B a = Inr pk"
  then have "HasPrefix a ''nano_'' \<or> HasPrefix a ''xrb_''"
    by (auto simp: ParseAddress_def split: if_splits)
  then obtain p addr where p: "p = ''nano_'' \<or> p = ''xrb_''" and a: "a = p @ addr"
    unfolding HasPrefix_iff by blast
  have body: "parseBody B addr = Inr pk" using L ParseAddress_prefix [OF p] a by simp
  have parts: "length addr = 60" "base32_text (take 52 addr)" "base32_text (drop 52 addr)"
      "bits_of pk = drop 4 (cbits (take 52 addr))"
      "bits_of (rev (digest B 5 pk)) = cbits (drop 52 addr)"
    using body parseBody_parts [OF B] by simp_all
  show ?R
    by (rule exI [of _ p], rule exI [of _ "take 52 addr"], rule exI [of _ "drop 52 addr"])
       (use p a parts in \<open>simp only: append_take_drop_id length_take length_drop, simp\<close>)
next
  assume ?R
  then obtain p acc cs where p: "p = ''nano_'' \<or> p = ''xrb_''" and a: "a = p @ acc @ cs"
    and "length acc = 52" "length cs = 8" "base32_text acc" "base32_text cs"
      "bits_of pk = drop 4 (cbits acc)" "bits_of (rev (digest B 5 pk)) = cbits cs"
    by blast
  then have "parseBody B (acc @ cs) = Inr pk" using parseBody_parts [OF B] by simp
  then show "ParseAddress B a = Inr pk" unfolding a ParseAddress_prefix [OF p] .
qed

text \<open>
  The decoder drops the four padding bits of the first character without looking at them, so only
  the lowest bit of that character counts.
\<close>

lemma drop4_cbits_Cons:
  "drop 4 (cbits (c # s)) = odd (code_of c) # cbits s"
  by (simp add: vbits_def bit_0)

lemma acc_alias:
  assumes acc: "length acc = 52" "base32_text acc" and can: "length can = 52" "base32_text can"
    and eq: "drop 4 (cbits acc) = drop 4 (cbits can)"
  shows "tl acc = tl can \<and> odd (code_of (hd acc)) = odd (code_of (hd can))"
proof -
  obtain c s d t where *: "acc = c # s" "can = d # t"
    using acc(1) can(1) by (cases acc; cases can) auto
  have "cbits s = cbits t" "odd (code_of c) = odd (code_of d)"
    using eq unfolding * drop4_cbits_Cons by simp_all
  then show ?thesis using cbits_inject [of s t] acc(2) can(2) unfolding * by simp
qed

lemma Address_length: "blake2b_ok B \<Longrightarrow> length pk = 32 \<Longrightarrow> \<exists>s. Address B pk = Inr s \<and> length s = 65"
  by (elim Address_parts) auto

text \<open>Under the hash's contract no text makes \<^verbatim>\<open>ParseAddress\<close> panic, and a key it returns has 32 bytes.\<close>

lemma decodeBase32_no_panic:
  "5 * length s = padBits + 8 * n \<Longrightarrow> decodeBase32 s padBits \<noteq> Inl (GoPanic p)"
  using decodeBase32_correct [of s padBits n] by (auto split: if_splits)

lemma ParseAddress_no_panic:
  assumes "blake2b_ok B"
  shows "ParseAddress B a \<noteq> Inl (GoPanic p)"
proof -
  have "parseBody B addr \<noteq> Inl (GoPanic p)" for addr
  proof (cases "length addr = 60")
    case True
    have "decodeBase32 (take 52 addr) 4 \<noteq> Inl (GoPanic p)"
      using True by (intro decodeBase32_no_panic [of _ _ 32]) simp
    moreover have "decodeBase32 (drop 52 addr) 0 \<noteq> Inl (GoPanic p)"
      using True by (intro decodeBase32_no_panic [of _ _ 5]) simp
    moreover have "blake2bSum B 5 [m] = Inr (digest B 5 m)" for m
      using blake2bSum_digest [OF assms, of 5 "[m]"] by simp
    ultimately show ?thesis by (auto simp: parseBody_def split: sum.splits)
  qed (simp add: parseBody_def)
  then show ?thesis by (simp add: ParseAddress_def)
qed

lemma ParseAddress_length: "blake2b_ok B \<Longrightarrow> ParseAddress B a = Inr pk \<Longrightarrow> length pk = 32"
proof -
  assume "blake2b_ok B" "ParseAddress B a = Inr pk"
  then obtain acc where "length acc = 52" "bits_of pk = drop 4 (cbits acc)"
    unfolding ParseAddress_parts [OF \<open>blake2b_ok B\<close>] by blast
  then have "length (bits_of pk) = 256" by simp
  then show ?thesis by simp
qed

lemma parse_of_address:
  assumes "blake2b_ok B" and "length pk = 32"
  shows "\<exists>a. Address B pk = Inr a \<and> length a = 65 \<and> HasPrefix a ''nano_''
    \<and> ParseAddress B a = Inr pk"
proof -
  obtain acc cs where a: "Address B pk = Inr (''nano_'' @ acc @ cs)"
      "length acc = 52" "length cs = 8" "base32_text acc" "base32_text cs"
      "cbits acc = replicate 4 False @ bits_of pk" "cbits cs = bits_of (rev (digest B 5 pk))"
    by (rule Address_parts [OF assms])
  have "bits_of pk = drop 4 (cbits acc)" using a(6) by simp
  then have "ParseAddress B (''nano_'' @ acc @ cs) = Inr pk"
    unfolding ParseAddress_parts [OF assms(1)] using a(2-5,7) by metis
  then show ?thesis
    using a(1-3) by (intro exI [of _ "''nano_'' @ acc @ cs"]) (simp add: HasPrefix_def)
qed

section \<open>Properties\<close>

text \<open>
  Base-32 round trip: for any bytes whose length together with the padding is a multiple of five
  bits, the encoder returns (never panics) a text of the alphabet with one character per five bits,
  and the decoder applied to that text with the same padding returns the original bytes.
\<close>

theorem base32_roundtrip:
  assumes "padBits + 8 * length data = 5 * n"
  shows "\<exists>s. encodeBase32 data padBits = Inr s \<and> length s = n \<and> set s \<subseteq> set nanoAlphabet
    \<and> decodeBase32 s padBits = Inr data"
proof -
  obtain s where s: "encodeBase32 data padBits = Inr s" "length s = n" "base32_text s"
      "cbits s = padded data padBits"
    using encodeBase32_correct [OF assms] by blast
  have "decodeBase32 s padBits = Inr data"
    using decodeBase32_Inr [of s padBits "length data" data] s assms by simp
  with s show ?thesis by blast
qed

theorem base32_roundtrip_witness:
  "\<exists>s. encodeBase32 [0xDE, 0xAD, 0xBE, 0xEF, 0x01] 0 = Inr s \<and> length s = 8
    \<and> set s \<subseteq> set nanoAlphabet \<and> decodeBase32 s 0 = Inr [0xDE, 0xAD, 0xBE, 0xEF, 0x01]"
  by (rule base32_roundtrip) simp

text \<open>
  C29. Address round trip: for every 32-byte public key, \<^verbatim>\<open>Address\<close> returns a text of 65 characters and
  \<^verbatim>\<open>ParseAddress\<close> of that text returns the key, for any hash with BLAKE2b's size contract.
\<close>

theorem address_roundtrip:
  assumes "blake2b_ok B" and "length pk = 32"
  shows "\<exists>a. Address B pk = Inr a \<and> length a = 65 \<and> HasPrefix a ''nano_''
    \<and> ParseAddress B a = Inr pk"
  using assms by (rule parse_of_address)

theorem address_roundtrip_witness:
  "\<exists>a. Address pad_hash (replicate 32 7) = Inr a \<and> length a = 65 \<and> HasPrefix a ''nano_''
    \<and> ParseAddress pad_hash a = Inr (replicate 32 7)"
  by (rule address_roundtrip [OF pad_hash_ok]) simp

text \<open>
  C30. Exactly which texts \<^verbatim>\<open>ParseAddress\<close> accepts for a key: the prefix is \<^verbatim>\<open>nano_\<close> or \<^verbatim>\<open>xrb_\<close>, everything
  after the first character of the body is that of the canonical address, and the first character is
  any of the sixteen alphabet characters with the canonical lowest bit, because the decoder ignores
  the padding bits.
\<close>

theorem parse_address_exact:
  assumes "blake2b_ok B" and "length pk = 32"
  shows "\<exists>can. Address B pk = Inr (''nano_'' @ can) \<and>
    (\<forall>a. ParseAddress B a = Inr pk \<longleftrightarrow>
      (\<exists>p c. (p = ''nano_'' \<or> p = ''xrb_'') \<and> a = p @ c # tl can \<and> c \<in> set nanoAlphabet
        \<and> odd (code_of c) = odd (code_of (hd can))))"
proof -
  obtain acc cs where can: "Address B pk = Inr (''nano_'' @ acc @ cs)"
      "length acc = 52" "length cs = 8" "base32_text acc" "base32_text cs"
      "cbits acc = replicate 4 False @ bits_of pk" "cbits cs = bits_of (rev (digest B 5 pk))"
    by (rule Address_parts [OF assms])
  obtain d t where acc: "acc = d # t" using can(2) by (cases acc) auto
  have bits: "bits_of pk = drop 4 (cbits acc)" using can(6) by simp
  have "ParseAddress B a = Inr pk \<longleftrightarrow>
      (\<exists>p c. (p = ''nano_'' \<or> p = ''xrb_'') \<and> a = p @ c # t @ cs \<and> c \<in> set nanoAlphabet
        \<and> odd (code_of c) = odd (code_of d))" (is "?L \<longleftrightarrow> ?R") for a
  proof
    assume ?L
    then obtain p acc' cs' where a: "p = ''nano_'' \<or> p = ''xrb_''" "a = p @ acc' @ cs'"
        "length acc' = 52" "length cs' = 8" "base32_text acc'" "base32_text cs'"
        "bits_of pk = drop 4 (cbits acc')" "bits_of (rev (digest B 5 pk)) = cbits cs'"
      unfolding ParseAddress_parts [OF assms(1)] by blast
    have "cs' = cs" using cbits_inject [of cs' cs] a(6,8) can(5,7) by simp
    moreover have "tl acc' = t \<and> odd (code_of (hd acc')) = odd (code_of d)"
      using acc_alias [of acc' acc] a(3,5,7) can(2,4) bits acc by simp
    moreover obtain c s where "acc' = c # s" using a(3) by (cases acc') auto
    ultimately show ?R using a(1,2,5) by auto
  next
    assume ?R
    then obtain p c where c: "p = ''nano_'' \<or> p = ''xrb_''" "a = p @ (c # t) @ cs"
        "c \<in> set nanoAlphabet" "odd (code_of c) = odd (code_of d)"
      by auto
    have "bits_of pk = drop 4 (cbits (c # t))"
      using bits c(4) unfolding acc drop4_cbits_Cons by simp
    moreover have "length (c # t) = 52" "base32_text (c # t)" using can(2,4) acc c(3) by auto
    ultimately show ?L
      unfolding ParseAddress_parts [OF assms(1)] using c(1,2) can(3,5,7) by metis
  qed
  with can(1) acc show ?thesis by (intro exI [of _ "acc @ cs"]) simp
qed

theorem parse_address_exact_witness:
  "\<exists>can. Address pad_hash (replicate 32 0) = Inr (''nano_'' @ can) \<and>
    (\<forall>a. ParseAddress pad_hash a = Inr (replicate 32 0) \<longleftrightarrow>
      (\<exists>p c. (p = ''nano_'' \<or> p = ''xrb_'') \<and> a = p @ c # tl can \<and> c \<in> set nanoAlphabet
        \<and> odd (code_of c) = odd (code_of (hd can))))"
  by (rule parse_address_exact [OF pad_hash_ok]) simp

end
