(* ===== verification/Store.thy ===== *)
theory Store
  imports Relay_Prelude
begin

text \<open>
  File \<^verbatim>\<open>cmd/relay/store.go\<close>: the persistence boundary. The Go interface \<^verbatim>\<open>Store\<close> is a record of
  operations over a state of any type, so that the handlers are written once for every
  implementation. Every operation returns the new state; those that only read return it too, because
  an implementation may consume something there (the SQLite store does). \<open>abs_store\<close> is the abstract
  specification: three finite maps; the locale \<open>store_contract\<close> states what an implementation
  promises with respect to it, and its lemmas are the facts clients rely on.
\<close>

section \<open>Data\<close>

definition ErrNotFound :: go_error where
  "ErrNotFound = GoErr ''not found''"

record APIKey =
  k_ID :: string
  k_OwnerAccount :: string
  k_AllowedOrigins :: "string list"

definition zero_APIKey :: APIKey where
  "zero_APIKey = \<lparr>k_ID = [], k_OwnerAccount = [], k_AllowedOrigins = []\<rparr>"

record 's Store =
  RegisterAPIKey :: "'s \<Rightarrow> string \<Rightarrow> string \<Rightarrow> string \<Rightarrow> go_error option \<times> 's"
  RevokeAPIKey :: "'s \<Rightarrow> string \<Rightarrow> string \<Rightarrow> go_error option \<times> 's"
  ResolveAPIKey :: "'s \<Rightarrow> string \<Rightarrow> (go_error + APIKey) \<times> 's"
  RebindAPIKey :: "'s \<Rightarrow> string \<Rightarrow> string \<Rightarrow> string \<Rightarrow> go_error option \<times> 's"
  UpdateKeyOrigins :: "'s \<Rightarrow> string \<Rightarrow> string \<Rightarrow> string list \<Rightarrow> go_error option \<times> 's"
  OriginAllowed :: "'s \<Rightarrow> string \<Rightarrow> (bool \<times> go_error option) \<times> 's"
  PutPolicy :: "'s \<Rightarrow> string \<Rightarrow> int \<Rightarrow> blob \<Rightarrow> go_error option \<times> 's"
  GetPolicy :: "'s \<Rightarrow> string \<Rightarrow> (int \<times> blob \<times> bool \<times> go_error option) \<times> 's"

section \<open>The abstract specification\<close>

record abs_store =
  a_keys :: "string \<rightharpoonup> APIKey"                  \<comment> \<open>key id to key\<close>
  a_hash :: "string \<rightharpoonup> string"                  \<comment> \<open>secret hash to key id\<close>
  a_policy :: "string \<rightharpoonup> int \<times> blob"            \<comment> \<open>account to encrypted policy\<close>

definition abs_empty :: abs_store where
  "abs_empty = \<lparr>a_keys = Map.empty, a_hash = Map.empty, a_policy = Map.empty\<rparr>"

definition owned :: "abs_store \<Rightarrow> string \<Rightarrow> string \<Rightarrow> bool" where
  "owned v kid acc \<longleftrightarrow> (\<exists>k. a_keys v kid = Some k \<and> k_OwnerAccount k = acc)"

definition origins_of :: "abs_store \<Rightarrow> string \<Rightarrow> string list" where
  "origins_of v kid = (case a_keys v kid of None \<Rightarrow> [] | Some k \<Rightarrow> k_AllowedOrigins k)"

definition abs_register :: "abs_store \<Rightarrow> string \<Rightarrow> string \<Rightarrow> string \<Rightarrow> abs_store" where
  "abs_register v kid acc h = v
     \<lparr>a_keys := (a_keys v)(kid \<mapsto>
        \<lparr>k_ID = kid, k_OwnerAccount = acc, k_AllowedOrigins = origins_of v kid\<rparr>),
      a_hash := (\<lambda>x. if x = h then Some kid else if a_hash v x = Some kid then None else a_hash v x)\<rparr>"

definition abs_rebind :: "abs_store \<Rightarrow> string \<Rightarrow> string \<Rightarrow> abs_store" where
  "abs_rebind v kid acc = v
     \<lparr>a_keys := (a_keys v)(kid := map_option (\<lambda>k. k\<lparr>k_OwnerAccount := acc\<rparr>) (a_keys v kid))\<rparr>"

definition abs_origins :: "abs_store \<Rightarrow> string \<Rightarrow> string list \<Rightarrow> abs_store" where
  "abs_origins v kid os = v
     \<lparr>a_keys := (a_keys v)(kid := map_option (\<lambda>k. k\<lparr>k_AllowedOrigins := os\<rparr>) (a_keys v kid))\<rparr>"

definition abs_revoke :: "abs_store \<Rightarrow> string \<Rightarrow> abs_store" where
  "abs_revoke v kid = v
     \<lparr>a_keys := (a_keys v)(kid := None),
      a_hash := (\<lambda>x. if a_hash v x = Some kid then None else a_hash v x)\<rparr>"

definition abs_put_policy :: "abs_store \<Rightarrow> string \<Rightarrow> int \<Rightarrow> blob \<Rightarrow> abs_store" where
  "abs_put_policy v acc ver blob =
     (case a_policy v acc of
        Some (cur, _) \<Rightarrow>
          if ver \<le> cur then v else v\<lparr>a_policy := (a_policy v)(acc \<mapsto> (ver, blob))\<rparr>
      | None \<Rightarrow> v\<lparr>a_policy := (a_policy v)(acc \<mapsto> (ver, blob))\<rparr>)"

definition abs_resolve :: "abs_store \<Rightarrow> string \<Rightarrow> APIKey option" where
  "abs_resolve v h = (case a_hash v h of None \<Rightarrow> None | Some kid \<Rightarrow> a_keys v kid)"

definition abs_allowed :: "abs_store \<Rightarrow> string \<Rightarrow> bool" where
  "abs_allowed v org \<longleftrightarrow> (\<exists>kid k. a_keys v kid = Some k \<and> org \<in> set (k_AllowedOrigins k))"

text \<open>A hash that belongs to another key id.\<close>

definition taken :: "abs_store \<Rightarrow> string \<Rightarrow> string \<Rightarrow> bool" where
  "taken v kid h \<longleftrightarrow> (case a_hash v h of None \<Rightarrow> False | Some kid' \<Rightarrow> kid' \<noteq> kid)"

lemma taken_iff: "taken v kid h \<longleftrightarrow> (\<exists>kid'. a_hash v h = Some kid' \<and> kid' \<noteq> kid)"
  by (simp add: taken_def split: option.split)

lemmas abs_ops = abs_register_def abs_rebind_def abs_origins_def abs_revoke_def

text \<open>
  The invariant of the abstract store: a key is filed under its own id, every hash leads to a key,
  and no key has two hashes.
\<close>

definition abs_inv :: "abs_store \<Rightarrow> bool" where
  "abs_inv v \<longleftrightarrow>
     (\<forall>kid k. a_keys v kid = Some k \<longrightarrow> k_ID k = kid) \<and>
     (\<forall>h kid. a_hash v h = Some kid \<longrightarrow> (\<exists>k. a_keys v kid = Some k)) \<and>
     (\<forall>h h' kid. a_hash v h = Some kid \<longrightarrow> a_hash v h' = Some kid \<longrightarrow> h = h')"

lemma abs_inv_empty: "abs_inv abs_empty"
  by (simp add: abs_inv_def abs_empty_def)

lemma abs_inv_register: "abs_inv v \<Longrightarrow> abs_inv (abs_register v kid acc h)"
  unfolding abs_inv_def abs_register_def by (auto split: if_splits)

lemma abs_inv_rebind: "abs_inv v \<Longrightarrow> abs_inv (abs_rebind v kid acc)"
  unfolding abs_inv_def abs_rebind_def by (auto split: if_splits)

lemma abs_inv_origins: "abs_inv v \<Longrightarrow> abs_inv (abs_origins v kid os)"
  unfolding abs_inv_def abs_origins_def by (auto split: if_splits)

lemma abs_inv_revoke: "abs_inv v \<Longrightarrow> abs_inv (abs_revoke v kid)"
  unfolding abs_inv_def abs_revoke_def by (auto split: if_splits)

lemma abs_inv_put_policy: "abs_inv v \<Longrightarrow> abs_inv (abs_put_policy v acc ver blob)"
  unfolding abs_inv_def abs_put_policy_def by (auto split: option.splits if_splits)

lemmas abs_inv_ops =
  abs_inv_register abs_inv_rebind abs_inv_origins abs_inv_revoke abs_inv_put_policy

subsection \<open>What a caller sees after an operation\<close>

lemma resolve_register:
  "abs_resolve (abs_register v kid acc h) x =
     (if x = h then Some \<lparr>k_ID = kid, k_OwnerAccount = acc, k_AllowedOrigins = origins_of v kid\<rparr>
      else if a_hash v x = Some kid then None else abs_resolve v x)"
  by (auto simp: abs_resolve_def abs_register_def split: option.splits)

lemma resolve_rebind:
  "abs_resolve (abs_rebind v kid acc) x =
     map_option (\<lambda>k. if a_hash v x = Some kid then k\<lparr>k_OwnerAccount := acc\<rparr> else k) (abs_resolve v x)"
  by (auto simp: abs_resolve_def abs_rebind_def option.map_ident split: option.splits)

lemma resolve_origins:
  "abs_resolve (abs_origins v kid os) x =
     map_option (\<lambda>k. if a_hash v x = Some kid then k\<lparr>k_AllowedOrigins := os\<rparr> else k) (abs_resolve v x)"
  by (auto simp: abs_resolve_def abs_origins_def option.map_ident split: option.splits)

lemma resolve_revoke:
  "abs_resolve (abs_revoke v kid) x = (if a_hash v x = Some kid then None else abs_resolve v x)"
  by (auto simp: abs_resolve_def abs_revoke_def split: option.splits)

lemma policy_unchanged [simp]:
  "a_policy (abs_register v kid acc h) = a_policy v"
  "a_policy (abs_rebind v kid acc) = a_policy v"
  "a_policy (abs_origins v kid os) = a_policy v"
  "a_policy (abs_revoke v kid) = a_policy v"
  by (simp_all add: abs_ops)

lemma put_policy_frame [simp]:
  "a_keys (abs_put_policy v acc ver blob) = a_keys v"
  "a_hash (abs_put_policy v acc ver blob) = a_hash v"
  by (auto simp: abs_put_policy_def split: option.splits)

lemma put_policy_version:
  "a_policy v acc = Some (cur, b) \<Longrightarrow>
   \<exists>ver' b'. a_policy (abs_put_policy v acc' ver blob) acc = Some (ver', b') \<and> cur \<le> ver'"
  by (auto simp: abs_put_policy_def split: option.splits)

section \<open>The contract of an implementation\<close>

text \<open>
  \<open>hashf\<close> is the secret hash, \<open>view\<close> the abstract content of a state, \<open>inv\<close> the implementation's own
  invariant and \<open>up\<close> a condition under which no operation fails for reasons outside the store (a
  driver error, an expired deadline). An operation that returns an error leaves the content as it
  was. The exact behaviour under \<open>up\<close> is part of the contract, so that a store that always fails does
  not satisfy it. \<open>nil_err\<close> and \<open>dup_err\<close> are what a store answers to a policy without a blob and to a hash
  that belongs to another key: the schema of SQLite refuses a NULL and a second row with the hash, the in-memory store
  keeps a nil slice like any other and gives the hash to the new key.
\<close>

locale store_contract =
  fixes S :: "'s Store" and hashf :: "string \<Rightarrow> string"
    and view :: "'s \<Rightarrow> abs_store" and inv :: "'s \<Rightarrow> bool" and up :: "'s \<Rightarrow> bool"
    and text_ok :: "string \<Rightarrow> bool" and nil_err dup_err :: "'s \<Rightarrow> go_error option"
  assumes view_inv: "inv s \<Longrightarrow> abs_inv (view s)"
    and register: "inv s \<Longrightarrow> RegisterAPIKey S s kid acc h = (r, s') \<Longrightarrow>
      inv s' \<and> (up s \<longrightarrow> up s')
      \<and> (view s' = (if r = None then abs_register (view s) kid acc h else view s))
      \<and> (up s \<longrightarrow> r = (if taken (view s) kid h then dup_err s else None))"
    and rebind: "inv s \<Longrightarrow> RebindAPIKey S s kid old new = (r, s') \<Longrightarrow>
      inv s' \<and> (up s \<longrightarrow> up s')
      \<and> (view s' = (if r = None then abs_rebind (view s) kid new else view s))
      \<and> (r = None \<longrightarrow> owned (view s) kid old)
      \<and> (up s \<longrightarrow> r = (if owned (view s) kid old then None else Some ErrNotFound))"
    and origins: "inv s \<Longrightarrow> list_all text_ok os \<Longrightarrow> UpdateKeyOrigins S s kid acc os = (r, s') \<Longrightarrow>
      inv s' \<and> (up s \<longrightarrow> up s')
      \<and> (view s' = (if r = None then abs_origins (view s) kid os else view s))
      \<and> (r = None \<longrightarrow> owned (view s) kid acc)
      \<and> (up s \<longrightarrow> r = (if owned (view s) kid acc then None else Some ErrNotFound))"
    and revoke: "inv s \<Longrightarrow> RevokeAPIKey S s acc kid = (r, s') \<Longrightarrow>
      inv s' \<and> (up s \<longrightarrow> up s')
      \<and> (view s' = (if r = None then abs_revoke (view s) kid else view s))
      \<and> (r = None \<longrightarrow> owned (view s) kid acc)
      \<and> (up s \<longrightarrow> r = (if owned (view s) kid acc then None else Some ErrNotFound))"
    and resolve: "inv s \<Longrightarrow> ResolveAPIKey S s p = (q, s') \<Longrightarrow>
      inv s' \<and> (up s \<longrightarrow> up s') \<and> view s' = view s
      \<and> (\<forall>k. q = Inr k \<longrightarrow> abs_resolve (view s) (hashf p) = Some k)
      \<and> (up s \<longrightarrow> q = (case abs_resolve (view s) (hashf p) of None \<Rightarrow> Inl ErrNotFound | Some k \<Rightarrow> Inr k))"
    and allowed: "inv s \<Longrightarrow> OriginAllowed S s org = ((b, e), s') \<Longrightarrow>
      inv s' \<and> (up s \<longrightarrow> up s') \<and> view s' = view s
      \<and> (b \<longrightarrow> abs_allowed (view s) org)
      \<and> (up s \<longrightarrow> e = None \<and> b = abs_allowed (view s) org)"
    and put_policy: "inv s \<Longrightarrow> PutPolicy S s acc ver blob = (r, s') \<Longrightarrow>
      inv s' \<and> (up s \<longrightarrow> up s' \<and> r = (if blob = None then nil_err s else None))
      \<and> (view s' = (if r = None then abs_put_policy (view s) acc ver blob else view s))"
    and get_policy: "inv s \<Longrightarrow> GetPolicy S s acc = ((ver, blob, found, e), s') \<Longrightarrow>
      inv s' \<and> (up s \<longrightarrow> up s' \<and> e = None) \<and> view s' = view s
      \<and> (e = None \<longrightarrow> (case a_policy (view s) acc of
           None \<Rightarrow> \<not> found | Some (v, b) \<Rightarrow> found \<and> ver = v \<and> blob = b))"

section \<open>What every client may rely on\<close>

text \<open>A sequence of policy writes to one account, as the put_policy messages of its devices make it.\<close>

fun put_policies :: "'s Store \<Rightarrow> 's \<Rightarrow> string \<Rightarrow> (int \<times> blob) list \<Rightarrow> go_error option list \<times> 's" where
  "put_policies S s acc [] = ([], s)"
| "put_policies S s acc ((ver, blob) # ps) =
     (let (r, s1) = PutPolicy S s acc ver blob;
          (rs, s2) = put_policies S s1 acc ps
      in (r # rs, s2))"

text \<open>The write that wins: the first among those with the highest version.\<close>

fun newest :: "(int \<times> blob) option \<Rightarrow> (int \<times> blob) list \<Rightarrow> (int \<times> blob) option" where
  "newest cur [] = cur"
| "newest cur (p # ps) =
     newest (case cur of None \<Rightarrow> Some p | Some c \<Rightarrow> if fst p \<le> fst c then cur else Some p) ps"

lemma newest_max:
  "newest cur ps = Some (ver, b) \<Longrightarrow>
     (\<forall>p\<in>set ps. fst p \<le> ver) \<and> (\<forall>c. cur = Some c \<longrightarrow> fst c \<le> ver)
     \<and> ((ver, b) \<in> set ps \<or> cur = Some (ver, b))"
proof (induction ps arbitrary: cur)
  case (Cons p ps)
  let ?cur = "case cur of None \<Rightarrow> Some p | Some c \<Rightarrow> if fst p \<le> fst c then cur else Some p"
  have IH: "(\<forall>p\<in>set ps. fst p \<le> ver) \<and> (\<forall>c. ?cur = Some c \<longrightarrow> fst c \<le> ver)
     \<and> ((ver, b) \<in> set ps \<or> ?cur = Some (ver, b))"
    using Cons.prems by (intro Cons.IH) simp
  then show ?case by (cases cur; cases p) (auto split: if_splits)
qed simp

lemma abs_put_policy_newest:
  "a_policy (abs_put_policy v acc (fst p) (snd p)) acc = newest (a_policy v acc) [p]"
  by (auto simp: abs_put_policy_def split: option.splits)

lemma newest_Cons: "newest cur (p # ps) = newest (newest cur [p]) ps"
  by simp

section \<open>Programs of store calls\<close>

text \<open>
  A client is a sequence of calls. What it sees is the list of answers; of a policy that is not
  found it sees only that, and of a blob its bytes.
\<close>

datatype store_cmd =
    CRegister string string string
  | CRevoke string string
  | CResolve string
  | CRebind string string string
  | COrigins string string "string list"
  | CAllowed string
  | CPut string int blob
  | CGet string

datatype store_ans =
    AErr "go_error option"
  | AKey "go_error + APIKey"
  | AAllowed bool "go_error option"
  | APolicy "(int \<times> byte list) option" "go_error option"

fun exec_cmd :: "'s Store \<Rightarrow> 's \<Rightarrow> store_cmd \<Rightarrow> store_ans \<times> 's" where
  "exec_cmd S s (CRegister kid acc h) = (let (r, s') = RegisterAPIKey S s kid acc h in (AErr r, s'))"
| "exec_cmd S s (CRevoke acc kid) = (let (r, s') = RevokeAPIKey S s acc kid in (AErr r, s'))"
| "exec_cmd S s (CResolve p) = (let (q, s') = ResolveAPIKey S s p in (AKey q, s'))"
| "exec_cmd S s (CRebind kid old new) = (let (r, s') = RebindAPIKey S s kid old new in (AErr r, s'))"
| "exec_cmd S s (COrigins kid acc os) =
     (let (r, s') = UpdateKeyOrigins S s kid acc os in (AErr r, s'))"
| "exec_cmd S s (CAllowed org) = (let ((b, e), s') = OriginAllowed S s org in (AAllowed b e, s'))"
| "exec_cmd S s (CPut acc ver blob) = (let (r, s') = PutPolicy S s acc ver blob in (AErr r, s'))"
| "exec_cmd S s (CGet acc) =
     (let ((ver, blob, found, e), s') = GetPolicy S s acc
      in (APolicy (if found then Some (ver, bytes_in blob) else None) e, s'))"

fun run_cmds :: "'s Store \<Rightarrow> 's \<Rightarrow> store_cmd list \<Rightarrow> store_ans list \<times> 's" where
  "run_cmds S s [] = ([], s)"
| "run_cmds S s (c # cs) =
     (let (a, s1) = exec_cmd S s c; (as, s2) = run_cmds S s1 cs in (a # as, s2))"

definition owner_ans :: "abs_store \<Rightarrow> string \<Rightarrow> string \<Rightarrow> abs_store \<Rightarrow> store_ans \<times> abs_store" where
  "owner_ans v kid acc v' = (if owned v kid acc then (AErr None, v') else (AErr (Some ErrNotFound), v))"

fun abs_exec :: "(string \<Rightarrow> string) \<Rightarrow> abs_store \<Rightarrow> store_cmd \<Rightarrow> store_ans \<times> abs_store" where
  "abs_exec hashf v (CRegister kid acc h) = (AErr None, abs_register v kid acc h)"
| "abs_exec hashf v (CRevoke acc kid) = owner_ans v kid acc (abs_revoke v kid)"
| "abs_exec hashf v (CResolve p) =
     (AKey (case abs_resolve v (hashf p) of None \<Rightarrow> Inl ErrNotFound | Some k \<Rightarrow> Inr k), v)"
| "abs_exec hashf v (CRebind kid old new) = owner_ans v kid old (abs_rebind v kid new)"
| "abs_exec hashf v (COrigins kid acc os) = owner_ans v kid acc (abs_origins v kid os)"
| "abs_exec hashf v (CAllowed org) = (AAllowed (abs_allowed v org) None, v)"
| "abs_exec hashf v (CPut acc ver blob) = (AErr None, abs_put_policy v acc ver blob)"
| "abs_exec hashf v (CGet acc) = (APolicy (map_option (\<lambda>(ver, blob). (ver, bytes_in blob)) (a_policy v acc)) None, v)"

fun abs_run :: "(string \<Rightarrow> string) \<Rightarrow> abs_store \<Rightarrow> store_cmd list \<Rightarrow> store_ans list \<times> abs_store" where
  "abs_run hashf v [] = ([], v)"
| "abs_run hashf v (c # cs) =
     (let (a, v1) = abs_exec hashf v c; (as, v2) = abs_run hashf v1 cs in (a # as, v2))"

text \<open>
  The calls that every store must answer alike: no hash is registered under a second key id, the
  origins are texts the store can hold, and a policy has a blob.
\<close>

fun cmd_ok :: "(string \<Rightarrow> bool) \<Rightarrow> abs_store \<Rightarrow> store_cmd \<Rightarrow> bool" where
  "cmd_ok ok v (CRegister kid acc h) = (case a_hash v h of None \<Rightarrow> True | Some kid' \<Rightarrow> kid' = kid)"
| "cmd_ok ok v (COrigins kid acc os) = list_all ok os"
| "cmd_ok ok v (CPut acc ver blob) \<longleftrightarrow> blob \<noteq> None"
| "cmd_ok ok v _ = True"

fun cmds_ok :: "(string \<Rightarrow> bool) \<Rightarrow> (string \<Rightarrow> string) \<Rightarrow> abs_store \<Rightarrow> store_cmd list \<Rightarrow> bool" where
  "cmds_ok ok hashf v [] = True"
| "cmds_ok ok hashf v (c # cs) \<longleftrightarrow> cmd_ok ok v c \<and> cmds_ok ok hashf (snd (abs_exec hashf v c)) cs"

lemma cmds_ok_mono:
  "cmds_ok ok hashf v cs \<Longrightarrow> (\<And>s. ok s \<Longrightarrow> ok' s) \<Longrightarrow> cmds_ok ok' hashf v cs"
proof (induction cs arbitrary: v)
  case (Cons c cs)
  then show ?case by (cases c) (auto simp: list_all_iff)
qed simp

context store_contract
begin

lemma resolve_up:
  "inv s \<Longrightarrow> up s \<Longrightarrow> ResolveAPIKey S s p = (q, s') \<Longrightarrow>
     q = (case abs_resolve (view s) (hashf p) of None \<Rightarrow> Inl ErrNotFound | Some k \<Rightarrow> Inr k)
     \<and> inv s' \<and> up s' \<and> view s' = view s"
  using resolve [of s p q s'] by blast

lemma fst_resolve:
  "inv s \<Longrightarrow> up s \<Longrightarrow> fst (ResolveAPIKey S s p) =
     (case abs_resolve (view s) (hashf p) of None \<Rightarrow> Inl ErrNotFound | Some k \<Rightarrow> Inr k)"
  using resolve_up [of s p] by (metis prod.collapse)

text \<open>
  Registering over an existing key id is a rotation: the new secret opens the key, every earlier
  secret of the key is refused, and no other secret is affected.
\<close>

lemma rotation:
  assumes "inv s" "up s" and free: "\<forall>kid'. a_hash (view s) h = Some kid' \<longrightarrow> kid' = kid"
    and run: "RegisterAPIKey S s kid acc h = (r, s1)"
  shows "r = None \<and> (\<forall>p. fst (ResolveAPIKey S s1 p) =
     (if hashf p = h
      then Inr \<lparr>k_ID = kid, k_OwnerAccount = acc, k_AllowedOrigins = origins_of (view s) kid\<rparr>
      else if a_hash (view s) (hashf p) = Some kid then Inl ErrNotFound
      else fst (ResolveAPIKey S s p)))"
proof -
  have s1: "r = None" "inv s1" "up s1" "view s1 = abs_register (view s) kid acc h"
    using register [OF assms(1) run] assms(2) free by (auto simp: taken_iff)
  note res = fst_resolve [OF s1(2,3)] fst_resolve [OF assms(1,2)]
  show ?thesis using s1(1) by (simp add: res s1(4) resolve_register)
qed

lemma rebind_keeps_secret:
  assumes "inv s" "up s" and own: "owned (view s) kid old"
    and run: "RebindAPIKey S s kid old new = (r, s1)"
  shows "r = None \<and> (\<forall>p. fst (ResolveAPIKey S s1 p) =
     (case fst (ResolveAPIKey S s p) of
        Inl e \<Rightarrow> Inl e
      | Inr k \<Rightarrow> Inr (if a_hash (view s) (hashf p) = Some kid then k\<lparr>k_OwnerAccount := new\<rparr> else k)))"
proof -
  have s1: "r = None" "inv s1" "up s1" "view s1 = abs_rebind (view s) kid new"
    using rebind [OF assms(1) run] assms(2) own by auto
  note res = fst_resolve [OF s1(2,3)] fst_resolve [OF assms(1,2)]
  show ?thesis using s1(1) by (simp add: res s1(4) resolve_rebind split: option.split)
qed

lemma revoked_stops:
  assumes "inv s" "up s" and own: "owned (view s) kid acc"
    and run: "RevokeAPIKey S s acc kid = (r, s1)"
  shows "r = None \<and> (\<forall>p. fst (ResolveAPIKey S s1 p) =
     (if a_hash (view s) (hashf p) = Some kid then Inl ErrNotFound else fst (ResolveAPIKey S s p)))"
proof -
  have s1: "r = None" "inv s1" "up s1" "view s1 = abs_revoke (view s) kid"
    using revoke [OF assms(1) run] assms(2) own by auto
  note res = fst_resolve [OF s1(2,3)] fst_resolve [OF assms(1,2)]
  show ?thesis using s1(1) by (simp add: res s1(4) resolve_revoke)
qed

lemma policies_newest:
  "inv s \<Longrightarrow> up s \<Longrightarrow> list_all (\<lambda>p. snd p \<noteq> None) ps \<Longrightarrow> put_policies S s acc ps = (rs, s1) \<Longrightarrow>
     inv s1 \<and> up s1 \<and> a_policy (view s1) acc = newest (a_policy (view s) acc) ps
     \<and> (\<forall>r\<in>set rs. r = None)"
proof (induction ps arbitrary: s rs)
  case (Cons p ps)
  obtain ver blob where p: "p = (ver, blob)" by fastforce
  obtain r s0 where put: "PutPolicy S s acc ver blob = (r, s0)" by fastforce
  obtain rs' where rest: "put_policies S s0 acc ps = (rs', s1)" and rs: "rs = r # rs'"
    using Cons.prems(4) put p by (auto split: prod.splits)
  have b: "blob \<noteq> None" "list_all (\<lambda>p. snd p \<noteq> None) ps" using Cons.prems(3) p by simp_all
  have s0: "inv s0" "up s0" "r = None" "view s0 = abs_put_policy (view s) acc ver blob"
    using put_policy [OF Cons.prems(1) put] Cons.prems(2) b(1) by auto
  have "a_policy (view s0) acc = newest (a_policy (view s) acc) [p]"
    using abs_put_policy_newest [of "view s" acc p] s0(4) p by simp
  then show ?case using Cons.IH [OF s0(1,2) b(2) rest] s0(3) rs by simp
qed simp

lemma policy_kept_is_newest:
  assumes "inv s" "up s" "list_all (\<lambda>p. snd p \<noteq> None) ps" "put_policies S s acc ps = (rs, s1)"
    and "GetPolicy S s1 acc = ((ver, blob, found, e), s2)"
  shows "e = None \<and> (if found then newest (a_policy (view s) acc) ps = Some (ver, blob)
     else newest (a_policy (view s) acc) ps = None)"
proof -
  note p = policies_newest [OF assms(1-4)]
  then have "inv s1" "up s1" by auto
  with get_policy [OF this(1) assms(5)] p show ?thesis by (auto split: option.splits)
qed

text \<open>Every call, and every sequence of calls, answers as the abstract store does.\<close>

lemma owner_ans_intro:
  "r = (if owned v kid acc then None else Some ErrNotFound) \<Longrightarrow> v' = (if r = None then w else v) \<Longrightarrow>
     owner_ans v kid acc w = (AErr r, v')"
  by (simp add: owner_ans_def)

lemma exec_refines:
  assumes s: "inv s" "up s" and ok: "cmd_ok text_ok (view s) c" and run: "exec_cmd S s c = (a, s')"
  shows "abs_exec hashf (view s) c = (a, view s') \<and> inv s' \<and> up s'"
proof (cases c)
  case (CRegister kid acc h)
  then obtain r where run': "RegisterAPIKey S s kid acc h = (r, s')" "a = AErr r"
    using run by (auto split: prod.splits)
  have "a_hash (view s) h = Some kid' \<Longrightarrow> kid' = kid" for kid'
    using ok CRegister by simp
  then have "r = None \<and> inv s' \<and> up s' \<and> view s' = abs_register (view s) kid acc h"
    using register [OF s(1) run'(1)] s(2) by (auto simp: taken_iff)
  then show ?thesis using CRegister run'(2) by simp
next
  case (CRevoke acc kid)
  then obtain r where run': "RevokeAPIKey S s acc kid = (r, s')" "a = AErr r"
    using run by (auto split: prod.splits)
  note res = revoke [OF s(1) run'(1)]
  then have "abs_exec hashf (view s) c = (AErr r, view s')"
    using s(2) unfolding CRevoke abs_exec.simps by (intro owner_ans_intro) blast+
  then show ?thesis using res s(2) run'(2) by blast
next
  case (CResolve p)
  then obtain q where run': "ResolveAPIKey S s p = (q, s')" "a = AKey q"
    using run by (auto split: prod.splits)
  then show ?thesis using resolve_up [OF s] CResolve by simp
next
  case (CRebind kid old new)
  then obtain r where run': "RebindAPIKey S s kid old new = (r, s')" "a = AErr r"
    using run by (auto split: prod.splits)
  note res = rebind [OF s(1) run'(1)]
  then have "abs_exec hashf (view s) c = (AErr r, view s')"
    using s(2) unfolding CRebind abs_exec.simps by (intro owner_ans_intro) blast+
  then show ?thesis using res s(2) run'(2) by blast
next
  case (COrigins kid acc os)
  then obtain r where run': "UpdateKeyOrigins S s kid acc os = (r, s')" "a = AErr r"
    using run by (auto split: prod.splits)
  have os: "list_all text_ok os" using ok COrigins by simp
  note res = origins [OF s(1) os run'(1)]
  then have "abs_exec hashf (view s) c = (AErr r, view s')"
    using s(2) unfolding COrigins abs_exec.simps by (intro owner_ans_intro) blast+
  then show ?thesis using res s(2) run'(2) by blast
next
  case (CAllowed org)
  then obtain b e where run': "OriginAllowed S s org = ((b, e), s')" "a = AAllowed b e"
    using run by (auto split: prod.splits)
  then show ?thesis using allowed [OF s(1) run'(1)] s(2) CAllowed by auto
next
  case (CPut acc ver blob)
  then obtain r where run': "PutPolicy S s acc ver blob = (r, s')" "a = AErr r"
    using run by (auto split: prod.splits)
  moreover have "blob \<noteq> None" using ok CPut by simp
  ultimately show ?thesis using put_policy [OF s(1) run'(1)] s(2) CPut by auto
next
  case (CGet acc)
  then obtain ver blob found e where run': "GetPolicy S s acc = ((ver, blob, found, e), s')"
      "a = APolicy (if found then Some (ver, bytes_in blob) else None) e"
    using run by (auto split: prod.splits)
  then show ?thesis using get_policy [OF s(1) run'(1)] s(2) CGet by (auto split: option.splits)
qed

lemma run_refines:
  "inv s \<Longrightarrow> up s \<Longrightarrow> cmds_ok text_ok hashf (view s) cs \<Longrightarrow>
     fst (run_cmds S s cs) = fst (abs_run hashf (view s) cs)"
proof (induction cs arbitrary: s)
  case (Cons c cs)
  obtain a s1 where e: "exec_cmd S s c = (a, s1)" by fastforce
  have r: "abs_exec hashf (view s) c = (a, view s1)" "inv s1" "up s1"
    using exec_refines [OF Cons.prems(1,2) _ e] Cons.prems(3) by auto
  then have "fst (run_cmds S s1 cs) = fst (abs_run hashf (view s1) cs)"
    using Cons.prems(3) by (intro Cons.IH) simp_all
  then show ?case using e r(1)
    by (cases "run_cmds S s1 cs"; cases "abs_run hashf (view s1) cs") simp
qed simp

end

end
