(* ===== verification/Sha256.thy ===== *)
theory Sha256
  imports Relay_Prelude
begin

unbundle bit_operations_syntax

text \<open>
  Go's \<^verbatim>\<open>crypto/sha256\<close>, which \<^verbatim>\<open>hashSecret\<close> of \<^verbatim>\<open>store.go\<close> calls: the SHA-256 function of FIPS 180-4
  on bytes, with 32-bit words that wrap.
\<close>

type_synonym w32 = "32 word"

text \<open>
  The first 32 bits of the fractional parts of the cube roots of the first 64 primes, and of the
  square roots of the first eight, in decimal.
\<close>

definition K256 :: "w32 list" where
  "K256 =
     [1116352408, 1899447441, 3049323471, 3921009573, 961987163, 1508970993,
      2453635748, 2870763221, 3624381080, 310598401, 607225278, 1426881987,
      1925078388, 2162078206, 2614888103, 3248222580, 3835390401, 4022224774,
      264347078, 604807628, 770255983, 1249150122, 1555081692, 1996064986,
      2554220882, 2821834349, 2952996808, 3210313671, 3336571891, 3584528711,
      113926993, 338241895, 666307205, 773529912, 1294757372, 1396182291,
      1695183700, 1986661051, 2177026350, 2456956037, 2730485921, 2820302411,
      3259730800, 3345764771, 3516065817, 3600352804, 4094571909, 275423344,
      430227734, 506948616, 659060556, 883997877, 958139571, 1322822218,
      1537002063, 1747873779, 1955562222, 2024104815, 2227730452, 2361852424,
      2428436474, 2756734187, 3204031479, 3329325298]"

definition H256 :: "w32 list" where
  "H256 =
     [1779033703, 3144134277, 1013904242, 2773480762, 1359893119, 2600822924,
      528734635, 1541459225]"

abbreviation rotr :: "nat \<Rightarrow> w32 \<Rightarrow> w32" where
  "rotr n x \<equiv> drop_bit n x OR push_bit (32 - n) x"

definition Ch :: "w32 \<Rightarrow> w32 \<Rightarrow> w32 \<Rightarrow> w32" where
  "Ch x y z = (x AND y) XOR (NOT x AND z)"

definition Maj :: "w32 \<Rightarrow> w32 \<Rightarrow> w32 \<Rightarrow> w32" where
  "Maj x y z = (x AND y) XOR (x AND z) XOR (y AND z)"

definition Sigma0 :: "w32 \<Rightarrow> w32" where
  "Sigma0 x = rotr 2 x XOR rotr 13 x XOR rotr 22 x"

definition Sigma1 :: "w32 \<Rightarrow> w32" where
  "Sigma1 x = rotr 6 x XOR rotr 11 x XOR rotr 25 x"

definition sigma0 :: "w32 \<Rightarrow> w32" where
  "sigma0 x = rotr 7 x XOR rotr 18 x XOR drop_bit 3 x"

definition sigma1 :: "w32 \<Rightarrow> w32" where
  "sigma1 x = rotr 17 x XOR rotr 19 x XOR drop_bit 10 x"

text \<open>The message schedule: the last sixteen words are kept, newest last, and one word is added.\<close>

fun schedule :: "nat \<Rightarrow> w32 list \<Rightarrow> w32 list" where
  "schedule 0 ws = ws"
| "schedule (Suc n) ws =
     schedule n (ws @ [sigma1 (ws ! (length ws - 2)) + ws ! (length ws - 7)
       + sigma0 (ws ! (length ws - 15)) + ws ! (length ws - 16)])"

fun rounds :: "(w32 \<times> w32) list \<Rightarrow> w32 list \<Rightarrow> w32 list" where
  "rounds [] st = st"
| "rounds ((k, w) # kws) [a, b, c, d, e, f, g, h] =
     (let t1 = h + Sigma1 e + Ch e f g + k + w;
          t2 = Sigma0 a + Maj a b c
      in rounds kws [t1 + t2, a, b, c, d + t1, e, f, g])"
| "rounds (kw # kws) st = st"

definition compress :: "w32 list \<Rightarrow> w32 list \<Rightarrow> w32 list" where
  "compress hs block = map2 (+) hs (rounds (zip K256 (schedule 48 block)) hs)"

definition be32 :: "byte list \<Rightarrow> w32" where
  "be32 bs = fold (\<lambda>b acc. push_bit 8 acc OR ucast b) bs 0"

definition be_bytes32 :: "w32 \<Rightarrow> byte list" where
  "be_bytes32 w = map (\<lambda>i. ucast (drop_bit (24 - 8 * i) w)) [0..<4]"

definition be_bytes64 :: "64 word \<Rightarrow> byte list" where
  "be_bytes64 w = map (\<lambda>i. ucast (drop_bit (56 - 8 * i) w)) [0..<8]"

definition sha_pad :: "byte list \<Rightarrow> byte list" where
  "sha_pad m =
     m @ [0x80] @ replicate ((119 - length m mod 64) mod 64) 0 @ be_bytes64 (of_nat (8 * length m))"

fun blocks :: "nat \<Rightarrow> byte list \<Rightarrow> w32 list list" where
  "blocks 0 bs = []"
| "blocks (Suc n) bs =
     map (\<lambda>i. be32 (take 4 (drop (4 * i) bs))) [0..<16] # blocks n (drop 64 bs)"

definition Sum256 :: "byte list \<Rightarrow> byte list" where
  "Sum256 m =
     (let p = sha_pad m; hs = fold (\<lambda>b hs. compress hs b) (blocks (length p div 64) p) H256
      in concat (map be_bytes32 hs))"

lemma length_rounds: "length st = 8 \<Longrightarrow> length (rounds kws st) = 8"
  by (induction kws st rule: rounds.induct) (auto simp: Let_def)

lemma length_compress: "length hs = 8 \<Longrightarrow> length (compress hs b) = 8"
  by (simp add: compress_def length_rounds)

lemma length_Sum256 [simp]: "length (Sum256 m) = 32"
proof -
  have "length (fold (\<lambda>b hs. compress hs b) bl hs) = 8" if "length hs = 8" for bl hs
    using that by (induction bl arbitrary: hs) (simp_all add: length_compress)
  moreover have "length (concat (map be_bytes32 hs)) = 4 * length hs" for hs
    by (induction hs) (simp_all add: be_bytes32_def)
  ultimately show ?thesis by (simp add: Sum256_def Let_def H256_def)
qed

end
