(* ===== verification/Store_Mem.thy ===== *)
theory Store_Mem
  imports Store Sha256
begin

text \<open>
  File \<^verbatim>\<open>cmd/relay/store.go\<close>: the in-memory store. A Go map is an association list with distinct keys,
  so that the loops over \<^verbatim>\<open>byHash\<close> and \<^verbatim>\<open>keys\<close> are executable; Go's iteration order is unspecified and
  nothing here depends on it. The store's mutex makes every method one atomic step. The theory
  interprets \<open>store_contract\<close> on the operations.
\<close>

definition hashSecret :: "string \<Rightarrow> string" where
  "hashSecret s = EncodeToString (Sum256 (bytes_of s))"

record policyBlob =
  pb_version :: int
  pb_blob :: blob

record memStore =
  ms_keys :: "(string \<times> APIKey) list"
  ms_byHash :: "(string \<times> string) list"
  ms_policy :: "(string \<times> policyBlob) list"

definition newMemStore :: memStore where
  "newMemStore = \<lparr>ms_keys = [], ms_byHash = [], ms_policy = []\<rparr>"

definition mem_PutPolicy :: "memStore \<Rightarrow> string \<Rightarrow> int \<Rightarrow> blob \<Rightarrow> go_error option \<times> memStore" where
  "mem_PutPolicy s account version blob =
     (case map_of (ms_policy s) account of
        Some cur \<Rightarrow>
          if version \<le> pb_version cur then (None, s)
          else (None, s\<lparr>ms_policy :=
                 AList.update account \<lparr>pb_version = version, pb_blob = blob\<rparr> (ms_policy s)\<rparr>)
      | None \<Rightarrow>
          (None, s\<lparr>ms_policy :=
             AList.update account \<lparr>pb_version = version, pb_blob = blob\<rparr> (ms_policy s)\<rparr>))"

definition mem_GetPolicy ::
  "memStore \<Rightarrow> string \<Rightarrow> (int \<times> blob \<times> bool \<times> go_error option) \<times> memStore" where
  "mem_GetPolicy s account =
     (case map_of (ms_policy s) account of
        None \<Rightarrow> ((0, None, False, None), s)
      | Some p \<Rightarrow> ((pb_version p, pb_blob p, True, None), s))"

text \<open>The loop that forgets every hash of a key, in \<^verbatim>\<open>RegisterAPIKey\<close> and in \<^verbatim>\<open>RevokeAPIKey\<close>.\<close>

definition drop_hashes :: "string \<Rightarrow> (string \<times> string) list \<Rightarrow> (string \<times> string) list" where
  "drop_hashes keyID byHash = filter (\<lambda>(h, kid). kid \<noteq> keyID) byHash"

definition mem_RegisterAPIKey ::
  "memStore \<Rightarrow> string \<Rightarrow> string \<Rightarrow> string \<Rightarrow> go_error option \<times> memStore" where
  "mem_RegisterAPIKey s keyID ownerAccount hash =
     (let byHash = drop_hashes keyID (ms_byHash s);
          k0 = (case map_of (ms_keys s) keyID of None \<Rightarrow> zero_APIKey | Some k \<Rightarrow> k);
          k = k0\<lparr>k_ID := keyID, k_OwnerAccount := ownerAccount\<rparr>
      in (None, s\<lparr>ms_keys := AList.update keyID k (ms_keys s),
                  ms_byHash := AList.update hash keyID byHash\<rparr>))"

definition mem_RebindAPIKey ::
  "memStore \<Rightarrow> string \<Rightarrow> string \<Rightarrow> string \<Rightarrow> go_error option \<times> memStore" where
  "mem_RebindAPIKey s keyID oldAccount newAccount =
     (case map_of (ms_keys s) keyID of
        None \<Rightarrow> (Some ErrNotFound, s)
      | Some k \<Rightarrow>
          if k_OwnerAccount k \<noteq> oldAccount then (Some ErrNotFound, s)
          else (None, s\<lparr>ms_keys :=
                 AList.update keyID (k\<lparr>k_OwnerAccount := newAccount\<rparr>) (ms_keys s)\<rparr>))"

definition mem_UpdateKeyOrigins ::
  "memStore \<Rightarrow> string \<Rightarrow> string \<Rightarrow> string list \<Rightarrow> go_error option \<times> memStore" where
  "mem_UpdateKeyOrigins s keyID ownerAccount origins =
     (case map_of (ms_keys s) keyID of
        None \<Rightarrow> (Some ErrNotFound, s)
      | Some k \<Rightarrow>
          if k_OwnerAccount k \<noteq> ownerAccount then (Some ErrNotFound, s)
          else (None, s\<lparr>ms_keys :=
                 AList.update keyID (k\<lparr>k_AllowedOrigins := origins\<rparr>) (ms_keys s)\<rparr>))"

fun origin_in_keys :: "string \<Rightarrow> (string \<times> APIKey) list \<Rightarrow> bool" where
  "origin_in_keys origin [] = False"
| "origin_in_keys origin ((kid, k) # ks) =
     (if \<exists>o'\<in>set (k_AllowedOrigins k). o' = origin then True else origin_in_keys origin ks)"

definition mem_OriginAllowed :: "memStore \<Rightarrow> string \<Rightarrow> (bool \<times> go_error option) \<times> memStore" where
  "mem_OriginAllowed s origin = ((origin_in_keys origin (ms_keys s), None), s)"

definition mem_RevokeAPIKey :: "memStore \<Rightarrow> string \<Rightarrow> string \<Rightarrow> go_error option \<times> memStore" where
  "mem_RevokeAPIKey s ownerAccount kid =
     (case map_of (ms_keys s) kid of
        None \<Rightarrow> (Some ErrNotFound, s)
      | Some k \<Rightarrow>
          if k_OwnerAccount k \<noteq> ownerAccount then (Some ErrNotFound, s)
          else (None, s\<lparr>ms_keys := AList.delete kid (ms_keys s),
                        ms_byHash := drop_hashes kid (ms_byHash s)\<rparr>))"

definition mem_ResolveAPIKey :: "memStore \<Rightarrow> string \<Rightarrow> (go_error + APIKey) \<times> memStore" where
  "mem_ResolveAPIKey s plaintext =
     (case map_of (ms_byHash s) (hashSecret plaintext) of
        None \<Rightarrow> (Inl ErrNotFound, s)
      | Some kid \<Rightarrow>
          (Inr (case map_of (ms_keys s) kid of None \<Rightarrow> zero_APIKey | Some k \<Rightarrow> k), s))"

definition mem_store :: "memStore Store" where
  "mem_store =
     \<lparr>RegisterAPIKey = mem_RegisterAPIKey, RevokeAPIKey = mem_RevokeAPIKey,
      ResolveAPIKey = mem_ResolveAPIKey, RebindAPIKey = mem_RebindAPIKey,
      UpdateKeyOrigins = mem_UpdateKeyOrigins, OriginAllowed = mem_OriginAllowed,
      PutPolicy = mem_PutPolicy, GetPolicy = mem_GetPolicy\<rparr>"

section \<open>Abstraction and invariant\<close>

definition mem_view :: "memStore \<Rightarrow> abs_store" where
  "mem_view s =
     \<lparr>a_keys = map_of (ms_keys s), a_hash = map_of (ms_byHash s),
      a_policy = map_option (\<lambda>p. (pb_version p, pb_blob p)) \<circ> map_of (ms_policy s)\<rparr>"

definition mem_inv :: "memStore \<Rightarrow> bool" where
  "mem_inv s \<longleftrightarrow> distinct (map fst (ms_keys s)) \<and> distinct (map fst (ms_byHash s))
     \<and> distinct (map fst (ms_policy s)) \<and> abs_inv (mem_view s)"

lemma mem_inv_new: "mem_inv newMemStore"
  by (simp add: mem_inv_def newMemStore_def mem_view_def abs_inv_def)

lemma mem_view_new: "mem_view newMemStore = abs_empty"
  by (auto simp: mem_view_def newMemStore_def abs_empty_def fun_eq_iff)

lemma length_hashSecret [simp]: "length (hashSecret p) = 64"
  by (simp add: hashSecret_def)

lemma map_of_drop_hashes:
  "distinct (map fst bh) \<Longrightarrow>
   map_of (drop_hashes kid bh) = (\<lambda>x. if map_of bh x = Some kid then None else map_of bh x)"
  by (rule ext) (auto simp: drop_hashes_def map_of_filter_snd split: option.splits)

lemma distinct_drop_hashes: "distinct (map fst bh) \<Longrightarrow> distinct (map fst (drop_hashes kid bh))"
  unfolding drop_hashes_def by (rule distinct_filter_fst)

lemma origin_in_keys_iff:
  "distinct (map fst ks) \<Longrightarrow>
   origin_in_keys org ks \<longleftrightarrow> (\<exists>kid k. map_of ks kid = Some k \<and> org \<in> set (k_AllowedOrigins k))"
proof -
  have "origin_in_keys org ks \<longleftrightarrow> (\<exists>(kid, k)\<in>set ks. org \<in> set (k_AllowedOrigins k))"
    by (induction org ks rule: origin_in_keys.induct) auto
  then show "distinct (map fst ks) \<Longrightarrow> ?thesis" by (auto simp: map_of_eq_Some_iff)
qed

subsection \<open>Each operation against the specification\<close>

lemma mem_register_view:
  assumes "mem_inv s"
  shows "mem_view (snd (mem_RegisterAPIKey s kid acc h)) = abs_register (mem_view s) kid acc h"
  using assms
  by (auto simp: mem_inv_def mem_RegisterAPIKey_def mem_view_def abs_register_def Let_def
      origins_of_def zero_APIKey_def alist_simps map_of_drop_hashes fun_eq_iff split: option.splits)

lemma mem_rebind_view:
  "mem_RebindAPIKey s kid old new = (r, s') \<Longrightarrow>
   r = (if owned (mem_view s) kid old then None else Some ErrNotFound)
   \<and> mem_view s' = (if r = None then abs_rebind (mem_view s) kid new else mem_view s)"
  by (auto simp: mem_RebindAPIKey_def mem_view_def abs_rebind_def owned_def alist_simps
      fun_eq_iff split: option.splits if_splits)

lemma mem_origins_view:
  "mem_UpdateKeyOrigins s kid acc os = (r, s') \<Longrightarrow>
   r = (if owned (mem_view s) kid acc then None else Some ErrNotFound)
   \<and> mem_view s' = (if r = None then abs_origins (mem_view s) kid os else mem_view s)"
  by (auto simp: mem_UpdateKeyOrigins_def mem_view_def abs_origins_def owned_def alist_simps
      fun_eq_iff split: option.splits if_splits)

lemma mem_revoke_view:
  "distinct (map fst (ms_byHash s)) \<Longrightarrow> mem_RevokeAPIKey s acc kid = (r, s') \<Longrightarrow>
   r = (if owned (mem_view s) kid acc then None else Some ErrNotFound)
   \<and> mem_view s' = (if r = None then abs_revoke (mem_view s) kid else mem_view s)"
  by (auto simp: mem_RevokeAPIKey_def mem_view_def abs_revoke_def owned_def alist_simps
      map_of_drop_hashes fun_eq_iff split: option.splits if_splits)

lemma mem_put_policy_view:
  "mem_PutPolicy s acc ver blob = (r, s') \<Longrightarrow>
   r = None \<and> mem_view s' = abs_put_policy (mem_view s) acc ver blob"
  by (auto simp: mem_PutPolicy_def mem_view_def abs_put_policy_def alist_simps fun_eq_iff
      split: option.splits if_splits)

lemma mem_distinct:
  assumes "mem_inv s"
  shows "distinct (map fst (ms_keys (snd (mem_RegisterAPIKey s kid acc h))))
      \<and> distinct (map fst (ms_byHash (snd (mem_RegisterAPIKey s kid acc h))))"
    and "distinct (map fst (ms_keys (snd (mem_RebindAPIKey s kid acc new))))
      \<and> distinct (map fst (ms_byHash (snd (mem_RebindAPIKey s kid acc new))))"
    and "distinct (map fst (ms_keys (snd (mem_UpdateKeyOrigins s kid acc os))))
      \<and> distinct (map fst (ms_byHash (snd (mem_UpdateKeyOrigins s kid acc os))))"
    and "distinct (map fst (ms_keys (snd (mem_RevokeAPIKey s acc kid))))
      \<and> distinct (map fst (ms_byHash (snd (mem_RevokeAPIKey s acc kid))))"
    and "distinct (map fst (ms_policy (snd (mem_PutPolicy s acc ver blob))))"
  using assms
  by (auto simp: mem_inv_def mem_RegisterAPIKey_def mem_RebindAPIKey_def mem_UpdateKeyOrigins_def
      mem_RevokeAPIKey_def mem_PutPolicy_def Let_def distinct_update distinct_delete
      distinct_drop_hashes split: option.splits)

lemma mem_policy_frame [simp]:
  "ms_policy (snd (mem_RegisterAPIKey s kid acc h)) = ms_policy s"
  "ms_policy (snd (mem_RebindAPIKey s kid old new)) = ms_policy s"
  "ms_policy (snd (mem_UpdateKeyOrigins s kid acc os)) = ms_policy s"
  "ms_policy (snd (mem_RevokeAPIKey s acc kid)) = ms_policy s"
  "ms_keys (snd (mem_PutPolicy s acc ver blob)) = ms_keys s"
  "ms_byHash (snd (mem_PutPolicy s acc ver blob)) = ms_byHash s"
  by (auto simp: mem_RegisterAPIKey_def mem_RebindAPIKey_def mem_UpdateKeyOrigins_def
      mem_RevokeAPIKey_def mem_PutPolicy_def Let_def split: option.splits)

lemma mem_inv_intro:
  "mem_inv s \<Longrightarrow> distinct (map fst (ms_keys s')) \<Longrightarrow> distinct (map fst (ms_byHash s')) \<Longrightarrow>
   distinct (map fst (ms_policy s')) \<Longrightarrow> abs_inv (mem_view s') \<Longrightarrow> mem_inv s'"
  by (simp add: mem_inv_def)

lemma mem_inv_step:
  assumes "mem_inv s" "abs_inv (mem_view s')" "ms_policy s' = ms_policy s"
    and "distinct (map fst (ms_keys s')) \<and> distinct (map fst (ms_byHash s'))"
  shows "mem_inv s'"
  using assms by (simp add: mem_inv_def)

lemma mem_inv_register:
  assumes "mem_inv s"
  shows "mem_inv (snd (mem_RegisterAPIKey s kid acc h))"
proof (rule mem_inv_step [OF assms])
  show "abs_inv (mem_view (snd (mem_RegisterAPIKey s kid acc h)))"
    unfolding mem_register_view [OF assms] using assms by (simp add: mem_inv_def abs_inv_register)
qed (simp_all add: mem_distinct(1) [OF assms])

section \<open>The in-memory store satisfies the contract\<close>

lemma mem_register_contract:
  assumes "mem_inv s" "mem_RegisterAPIKey s kid acc h = (r, s')"
  shows "mem_inv s' \<and> (True \<longrightarrow> True)
    \<and> (mem_view s' = (if r = None then abs_register (mem_view s) kid acc h else mem_view s))
    \<and> (True \<longrightarrow> r = (if taken (mem_view s) kid h then None else None))"
proof -
  have "s' = snd (mem_RegisterAPIKey s kid acc h)" "r = None"
    using assms(2) by (auto simp: mem_RegisterAPIKey_def Let_def)
  then show ?thesis using mem_inv_register [OF assms(1)] mem_register_view [OF assms(1)] by simp
qed

lemma mem_inv_abs: "mem_inv s \<Longrightarrow> abs_inv (mem_view s)"
  by (simp add: mem_inv_def)

lemma mem_rebind_contract:
  assumes inv: "mem_inv s" and r: "mem_RebindAPIKey s kid old new = (r, s')"
  shows "mem_inv s' \<and> (True \<longrightarrow> True)
    \<and> (mem_view s' = (if r = None then abs_rebind (mem_view s) kid new else mem_view s))
    \<and> (r = None \<longrightarrow> owned (mem_view s) kid old)
    \<and> (True \<longrightarrow> r = (if owned (mem_view s) kid old then None else Some ErrNotFound))"
proof -
  have "mem_inv s'"
    using mem_rebind_view [OF r] mem_distinct(2) [OF inv, of kid old new] mem_policy_frame(2) [of s kid old new]
      mem_inv_abs [OF inv] r by (intro mem_inv_step [OF inv]) (auto simp: abs_inv_rebind mem_store_def split: if_splits)
  with mem_rebind_view [OF r] show ?thesis by simp
qed

lemma mem_origins_contract:
  assumes inv: "mem_inv s" and "list_all (\<lambda>_. True) os" and r: "mem_UpdateKeyOrigins s kid acc os = (r, s')"
  shows "mem_inv s' \<and> (True \<longrightarrow> True)
    \<and> (mem_view s' = (if r = None then abs_origins (mem_view s) kid os else mem_view s))
    \<and> (r = None \<longrightarrow> owned (mem_view s) kid acc)
    \<and> (True \<longrightarrow> r = (if owned (mem_view s) kid acc then None else Some ErrNotFound))"
proof -
  have "mem_inv s'"
    using mem_origins_view [OF r] mem_distinct(3) [OF inv, of kid acc os] mem_policy_frame(3) [of s kid acc os]
      mem_inv_abs [OF inv] r by (intro mem_inv_step [OF inv]) (auto simp: abs_inv_origins split: if_splits)
  with mem_origins_view [OF r] show ?thesis by simp
qed

lemma mem_revoke_contract:
  assumes inv: "mem_inv s" and r: "mem_RevokeAPIKey s acc kid = (r, s')"
  shows "mem_inv s' \<and> (True \<longrightarrow> True)
    \<and> (mem_view s' = (if r = None then abs_revoke (mem_view s) kid else mem_view s))
    \<and> (r = None \<longrightarrow> owned (mem_view s) kid acc)
    \<and> (True \<longrightarrow> r = (if owned (mem_view s) kid acc then None else Some ErrNotFound))"
proof -
  have dh: "distinct (map fst (ms_byHash s))" using inv by (simp add: mem_inv_def)
  have "mem_inv s'"
    using mem_revoke_view [OF dh r] mem_distinct(4) [OF inv, of acc kid] mem_policy_frame(4) [of s acc kid]
      mem_inv_abs [OF inv] r by (intro mem_inv_step [OF inv]) (auto simp: abs_inv_revoke split: if_splits)
  with mem_revoke_view [OF dh r] show ?thesis by simp
qed

lemma mem_resolve_contract:
  assumes inv: "mem_inv s" and q: "mem_ResolveAPIKey s p = (q, s')"
  shows "mem_inv s' \<and> (True \<longrightarrow> True) \<and> mem_view s' = mem_view s
    \<and> (\<forall>k. q = Inr k \<longrightarrow> abs_resolve (mem_view s) (hashSecret p) = Some k)
    \<and> (True \<longrightarrow> q = (case abs_resolve (mem_view s) (hashSecret p) of None \<Rightarrow> Inl ErrNotFound | Some k \<Rightarrow> Inr k))"
proof -
  have "\<exists>k. map_of (ms_keys s) kid = Some k" if "map_of (ms_byHash s) (hashSecret p) = Some kid" for kid
    using mem_inv_abs [OF inv] that by (auto simp: abs_inv_def mem_view_def)
  with q inv show ?thesis
    by (fastforce simp: mem_ResolveAPIKey_def abs_resolve_def mem_view_def split: option.splits)
qed

lemma mem_allowed_contract:
  assumes "mem_inv s" "mem_OriginAllowed s org = ((b, e), s')"
  shows "mem_inv s' \<and> (True \<longrightarrow> True) \<and> mem_view s' = mem_view s \<and> (b \<longrightarrow> abs_allowed (mem_view s) org)
    \<and> (True \<longrightarrow> e = None \<and> b = abs_allowed (mem_view s) org)"
  using assms by (auto simp: mem_OriginAllowed_def mem_inv_def abs_allowed_def mem_view_def origin_in_keys_iff)

lemma mem_put_policy_contract:
  assumes inv: "mem_inv s" and r: "mem_PutPolicy s acc ver blob = (r, s')"
  shows "mem_inv s' \<and> (True \<longrightarrow> True \<and> r = (if blob = None then None else None))
    \<and> (mem_view s' = (if r = None then abs_put_policy (mem_view s) acc ver blob else mem_view s))"
proof -
  have "mem_inv s'"
    using mem_put_policy_view [OF r] mem_distinct(5) [OF inv, of acc ver blob]
      mem_policy_frame(5,6) [of s acc ver blob] inv mem_inv_abs [OF inv] r
    by (intro mem_inv_intro [OF inv]) (auto simp: abs_inv_put_policy mem_inv_def)
  with mem_put_policy_view [OF r] show ?thesis by simp
qed

lemma mem_get_policy_contract:
  assumes "mem_inv s" "mem_GetPolicy s acc = ((ver, blob, found, e), s')"
  shows "mem_inv s' \<and> (True \<longrightarrow> True \<and> e = None) \<and> mem_view s' = mem_view s
    \<and> (e = None \<longrightarrow> (case a_policy (mem_view s) acc of
         None \<Rightarrow> \<not> found | Some (v, b) \<Rightarrow> found \<and> ver = v \<and> blob = b))"
  using assms by (auto simp: mem_GetPolicy_def mem_view_def split: option.splits)

lemma mem_ops [simp]:
  "RegisterAPIKey mem_store = mem_RegisterAPIKey" "RevokeAPIKey mem_store = mem_RevokeAPIKey"
  "ResolveAPIKey mem_store = mem_ResolveAPIKey" "RebindAPIKey mem_store = mem_RebindAPIKey"
  "UpdateKeyOrigins mem_store = mem_UpdateKeyOrigins" "OriginAllowed mem_store = mem_OriginAllowed"
  "PutPolicy mem_store = mem_PutPolicy" "GetPolicy mem_store = mem_GetPolicy"
  by (simp_all add: mem_store_def)

interpretation mem: store_contract mem_store hashSecret mem_view mem_inv "\<lambda>_. True" "\<lambda>_. True" "\<lambda>_. None" "\<lambda>_. None"
  by (unfold_locales, unfold mem_ops)
     (fact mem_inv_abs mem_register_contract mem_rebind_contract mem_origins_contract mem_revoke_contract
       mem_resolve_contract mem_allowed_contract mem_put_policy_contract mem_get_policy_contract)+

end
