(* ===== verification/Json.thy ===== *)
theory Json
  imports Relay_Prelude
begin

text \<open>
  The part of Go's \<^verbatim>\<open>encoding/json\<close> the relay uses: \<^verbatim>\<open>json.Marshal\<close> of a \<^verbatim>\<open>[]string\<close> (the stored CORS
  origins), \<^verbatim>\<open>json.Unmarshal\<close> into a \<^verbatim>\<open>[]string\<close>, and \<^verbatim>\<open>json.NewDecoder(...).Decode\<close> of a request body
  into a struct of string fields. Strings are bytes, as in Go; UTF-8 validity, escapes and surrogate
  pairs are handled as \<^verbatim>\<open>encoding/json\<close> handles them (an invalid byte reads as U+FFFD).
\<close>

section \<open>UTF-8\<close>

abbreviation ord :: "char \<Rightarrow> nat" where
  "ord c \<equiv> of_char c"

abbreviation cont_byte :: "char \<Rightarrow> bool" where
  "cont_byte c \<equiv> 0x80 \<le> ord c \<and> ord c \<le> 0xBF"

text \<open>Bytes of the character at the head of a non-empty text; 0 when they are not valid UTF-8.\<close>

fun rune_len :: "string \<Rightarrow> nat" where
  "rune_len [] = 0"
| "rune_len (a # s) =
     (if ord a < 0x80 then 1
      else if 0xC2 \<le> ord a \<and> ord a \<le> 0xDF then
        (case s of b # _ \<Rightarrow> if cont_byte b then 2 else 0 | _ \<Rightarrow> 0)
      else if 0xE0 \<le> ord a \<and> ord a \<le> 0xEF then
        (case s of
           b # c # _ \<Rightarrow>
             if cont_byte b \<and> cont_byte c \<and> (ord a = 0xE0 \<longrightarrow> 0xA0 \<le> ord b)
                \<and> (ord a = 0xED \<longrightarrow> ord b \<le> 0x9F) then 3 else 0
         | _ \<Rightarrow> 0)
      else if 0xF0 \<le> ord a \<and> ord a \<le> 0xF4 then
        (case s of
           b # c # d # _ \<Rightarrow>
             if cont_byte b \<and> cont_byte c \<and> cont_byte d \<and> (ord a = 0xF0 \<longrightarrow> 0x90 \<le> ord b)
                \<and> (ord a = 0xF4 \<longrightarrow> ord b \<le> 0x8F) then 4 else 0
         | _ \<Rightarrow> 0)
      else 0)"

definition replacement :: string where
  "replacement = [CHR 0xEF, CHR 0xBF, CHR 0xBD]"

definition EncodeRune :: "nat \<Rightarrow> string" where
  "EncodeRune r =
     (if r < 0x80 then [char_of r]
      else if r < 0x800 then [char_of (0xC0 + r div 64), char_of (0x80 + r mod 64)]
      else if 0xD800 \<le> r \<and> r \<le> 0xDFFF \<or> 0x10FFFF < r then replacement
      else if r < 0x10000 then
        [char_of (0xE0 + r div 4096), char_of (0x80 + r div 64 mod 64), char_of (0x80 + r mod 64)]
      else
        [char_of (0xF0 + r div 262144), char_of (0x80 + r div 4096 mod 64),
         char_of (0x80 + r div 64 mod 64), char_of (0x80 + r mod 64)])"

function utf8_valid :: "string \<Rightarrow> bool" where
  "utf8_valid s =
     (if s = [] then True else if rune_len s = 0 then False else utf8_valid (drop (rune_len s) s))"
  by pat_completeness auto
termination
  by (relation "measure length") auto

declare utf8_valid.simps [simp del]

section \<open>Writing strings\<close>

text \<open>\<^verbatim>\<open>json.Marshal\<close> escapes quotes, backslashes, control characters and the HTML characters.\<close>

definition html_safe :: "nat \<Rightarrow> bool" where
  "html_safe n \<longleftrightarrow> 0x20 \<le> n \<and> n < 0x80 \<and> n \<notin> {0x22, 0x26, 0x3C, 0x3E, 0x5C}"

definition escape_ascii :: "char \<Rightarrow> string" where
  "escape_ascii c =
     (if html_safe (ord c) then [c]
      else if ord c = 0x5C \<or> ord c = 0x22 then [CHR 0x5C, c]
      else if ord c = 8 then [CHR 0x5C, CHR ''b'']
      else if ord c = 12 then [CHR 0x5C, CHR ''f'']
      else if ord c = 10 then [CHR 0x5C, CHR ''n'']
      else if ord c = 13 then [CHR 0x5C, CHR ''r'']
      else if ord c = 9 then [CHR 0x5C, CHR ''t'']
      else [CHR 0x5C, CHR ''u'', CHR ''0'', CHR ''0'', hextable ! (ord c div 16), hextable ! (ord c mod 16)])"

function escape_text :: "string \<Rightarrow> string" where
  "escape_text s =
     (case s of
        [] \<Rightarrow> []
      | c # t \<Rightarrow>
          if ord c < 0x80 then escape_ascii c @ escape_text t
          else if rune_len s = 0 then CHR 0x5C # ''ufffd'' @ escape_text t
          else if take 3 s = [CHR 0xE2, CHR 0x80, CHR 0xA8] then CHR 0x5C # ''u2028'' @ escape_text (drop 3 s)
          else if take 3 s = [CHR 0xE2, CHR 0x80, CHR 0xA9] then CHR 0x5C # ''u2029'' @ escape_text (drop 3 s)
          else take (rune_len s) s @ escape_text (drop (rune_len s) s))"
  by pat_completeness auto
termination
  by (relation "measure length") auto

declare escape_text.simps [simp del]

definition marshal_string :: "string \<Rightarrow> string" where
  "marshal_string s = CHR 0x22 # escape_text s @ [CHR 0x22]"

fun marshal_rest :: "string list \<Rightarrow> string" where
  "marshal_rest [] = '']''"
| "marshal_rest (x # xs) = CHR '','' # marshal_string x @ marshal_rest xs"

fun marshal_strings :: "string list \<Rightarrow> string" where
  "marshal_strings [] = ''[]''"
| "marshal_strings (x # xs) = CHR ''['' # marshal_string x @ marshal_rest xs"

section \<open>Reading values\<close>

datatype json =
    JNull
  | JBool bool
  | JNum string
  | JStr string
  | JArr "json list"
  | JObj "(string \<times> json) list"

definition getu4 :: "string \<Rightarrow> nat option" where
  "getu4 s =
     (case s of
        a # b # c # d # _ \<Rightarrow>
          (case (from_hex_char a, from_hex_char b, from_hex_char c, from_hex_char d) of
             (Some w, Some x, Some y, Some z) \<Rightarrow> Some (((w * 16 + x) * 16 + y) * 16 + z)
           | _ \<Rightarrow> None)
      | _ \<Rightarrow> None)"

definition simple_escape :: "char \<Rightarrow> char option" where
  "simple_escape e =
     (if e = CHR 0x22 \<or> e = CHR 0x5C \<or> e = CHR ''/'' then Some e
      else if e = CHR ''b'' then Some (CHR 0x08)
      else if e = CHR ''f'' then Some (CHR 0x0C)
      else if e = CHR ''n'' then Some (CHR 0x0A)
      else if e = CHR ''r'' then Some (CHR 0x0D)
      else if e = CHR ''t'' then Some (CHR 0x09)
      else None)"

definition emit :: "string \<Rightarrow> (string \<times> string) option \<Rightarrow> (string \<times> string) option" where
  "emit p r = map_option (\<lambda>(a, rest). (p @ a, rest)) r"

text \<open>\<open>low_surrogate s\<close>: the second half of a surrogate pair at the head of \<open>s\<close>, as \<^verbatim>\<open>\uXXXX\<close>.\<close>

definition low_surrogate :: "string \<Rightarrow> nat option" where
  "low_surrogate s =
     (case s of
        a # b # t \<Rightarrow>
          if a = CHR 0x5C \<and> b = CHR ''u'' then
            (case getu4 t of
               Some r \<Rightarrow> if 0xDC00 \<le> r \<and> r \<le> 0xDFFF then Some r else None
             | None \<Rightarrow> None)
          else None
      | _ \<Rightarrow> None)"

text \<open>The text after an opening quote: the string it denotes and what follows the closing quote.\<close>

function parse_str :: "string \<Rightarrow> (string \<times> string) option" where
  "parse_str s =
     (case s of
        [] \<Rightarrow> None
      | c # t \<Rightarrow>
          if c = CHR 0x22 then Some ([], t)
          else if c = CHR 0x5C then
            (case t of
               [] \<Rightarrow> None
             | e # u \<Rightarrow>
                 (case simple_escape e of
                    Some x \<Rightarrow> emit [x] (parse_str u)
                  | None \<Rightarrow>
                      if e = CHR ''u'' then
                        (case getu4 u of
                           None \<Rightarrow> None
                         | Some r \<Rightarrow>
                             let v = drop 4 u in
                             if 0xD800 \<le> r \<and> r \<le> 0xDFFF then
                               (case (if r \<le> 0xDBFF then low_surrogate v else None) of
                                  Some r2 \<Rightarrow>
                                    emit (EncodeRune ((r - 0xD800) * 1024 + (r2 - 0xDC00) + 0x10000))
                                      (parse_str (drop 6 v))
                                | None \<Rightarrow> emit replacement (parse_str v))
                             else emit (EncodeRune r) (parse_str v))
                      else None))
          else if ord c < 0x20 then None
          else if rune_len s = 0 then emit replacement (parse_str t)
          else emit (take (rune_len s) s) (parse_str (drop (rune_len s) s)))"
  by pat_completeness auto
termination
  by (relation "measure length") auto

declare parse_str.simps [simp del]

fun skip_ws :: "string \<Rightarrow> string" where
  "skip_ws [] = []"
| "skip_ws (c # s) = (if ord c \<in> {0x20, 0x09, 0x0A, 0x0D} then skip_ws s else c # s)"

abbreviation digit :: "char \<Rightarrow> bool" where
  "digit c \<equiv> 48 \<le> ord c \<and> ord c \<le> 57"

text \<open>Digits at the head of a text, and the rest.\<close>

definition span_digits :: "string \<Rightarrow> string \<times> string" where
  "span_digits s = (takeWhile (\<lambda>c. digit c) s, dropWhile (\<lambda>c. digit c) s)"

text \<open>The three parts of a number: each is given as it stands, with the rest of the text.\<close>

definition num_int :: "string \<Rightarrow> (string \<times> string) option" where
  "num_int s =
     (case s of
        [] \<Rightarrow> None
      | c # t \<Rightarrow> if c = CHR ''0'' then Some ([c], t)
                 else if digit c then Some (span_digits s) else None)"

definition num_frac :: "string \<Rightarrow> (string \<times> string) option" where
  "num_frac s =
     (case s of
        [] \<Rightarrow> Some ([], s)
      | c # t \<Rightarrow>
          if c = CHR ''.'' then
            (let (ds, r) = span_digits t in if ds = [] then None else Some (CHR ''.'' # ds, r))
          else Some ([], s))"

definition num_exp :: "string \<Rightarrow> (string \<times> string) option" where
  "num_exp s =
     (case s of
        [] \<Rightarrow> Some ([], s)
      | e # t \<Rightarrow>
          if e = CHR ''e'' \<or> e = CHR ''E'' then
            (let (sg, t') = (case t of
                 [] \<Rightarrow> ([], t)
               | x # t2 \<Rightarrow> if x = CHR ''+'' \<or> x = CHR ''-'' then ([x], t2) else ([], t));
                 (ds, r) = span_digits t'
             in if ds = [] then None else Some (e # sg @ ds, r))
          else Some ([], s))"

definition parse_num :: "string \<Rightarrow> (string \<times> string) option" where
  "parse_num s0 =
     (let (sign, s1) = (if HasPrefix s0 ''-'' then (''-'', drop 1 s0) else ([], s0))
      in case num_int s1 of
           None \<Rightarrow> None
         | Some (ip, s2) \<Rightarrow>
             (case num_frac s2 of
                None \<Rightarrow> None
              | Some (fp, s3) \<Rightarrow> map_option (\<lambda>(ep, s4). (sign @ ip @ fp @ ep, s4)) (num_exp s3)))"

definition parse_literal :: "string \<Rightarrow> json \<Rightarrow> string \<Rightarrow> (json \<times> string) option" where
  "parse_literal w v s = (if HasPrefix s w then Some (v, drop (length w) s) else None)"

text \<open>
  One value, with \<open>depth\<close> levels of nesting open and fuel for the recursion. Every recursive call
  follows the consumption of a character or comes right before one, so twice the length of the text
  is more fuel than a run uses. The nesting limit is that of \<^verbatim>\<open>encoding/json\<close>.
\<close>

definition maxNestingDepth :: nat where
  "maxNestingDepth = 10000"

fun parse_value :: "nat \<Rightarrow> nat \<Rightarrow> string \<Rightarrow> (json \<times> string) option"
  and parse_elems :: "nat \<Rightarrow> nat \<Rightarrow> json list \<Rightarrow> string \<Rightarrow> (json \<times> string) option"
  and parse_members :: "nat \<Rightarrow> nat \<Rightarrow> (string \<times> json) list \<Rightarrow> string \<Rightarrow> (json \<times> string) option"
where
  "parse_value 0 depth s = None"
| "parse_value (Suc f) depth s =
     (case skip_ws s of
        [] \<Rightarrow> None
      | c # t \<Rightarrow>
          if c = CHR 0x22 then map_option (\<lambda>(x, r). (JStr x, r)) (parse_str t)
          else if c = CHR ''['' then
            (if maxNestingDepth \<le> depth then None
             else case skip_ws t of
                    [] \<Rightarrow> None
                  | d # u \<Rightarrow> if d = CHR '']'' then Some (JArr [], u) else parse_elems f (depth + 1) [] t)
          else if c = CHR ''{'' then
            (if maxNestingDepth \<le> depth then None
             else case skip_ws t of
                    [] \<Rightarrow> None
                  | d # u \<Rightarrow> if d = CHR ''}'' then Some (JObj [], u) else parse_members f (depth + 1) [] t)
          else if c = CHR ''n'' then parse_literal ''null'' JNull (c # t)
          else if c = CHR ''t'' then parse_literal ''true'' (JBool True) (c # t)
          else if c = CHR ''f'' then parse_literal ''false'' (JBool False) (c # t)
          else map_option (\<lambda>(x, r). (JNum x, r)) (parse_num (c # t)))"
| "parse_elems 0 depth acc s = None"
| "parse_elems (Suc f) depth acc s =
     (case parse_value f depth s of
        None \<Rightarrow> None
      | Some (v, r) \<Rightarrow>
          (case skip_ws r of
             [] \<Rightarrow> None
           | c # t \<Rightarrow>
               if c = CHR '','' then parse_elems f depth (acc @ [v]) t
               else if c = CHR '']'' then Some (JArr (acc @ [v]), t)
               else None))"
| "parse_members 0 depth acc s = None"
| "parse_members (Suc f) depth acc s =
     (case skip_ws s of
        [] \<Rightarrow> None
      | q # t \<Rightarrow>
          if q \<noteq> CHR 0x22 then None
          else
            (case parse_str t of
               None \<Rightarrow> None
             | Some (k, r) \<Rightarrow>
                 (case skip_ws r of
                    [] \<Rightarrow> None
                  | c # u \<Rightarrow>
                      if c \<noteq> CHR '':'' then None
                      else
                        (case parse_value f depth u of
                           None \<Rightarrow> None
                         | Some (v, w) \<Rightarrow>
                             (case skip_ws w of
                                [] \<Rightarrow> None
                              | d # x \<Rightarrow>
                                  if d = CHR '','' then parse_members f depth (acc @ [(k, v)]) x
                                  else if d = CHR ''}'' then Some (JObj (acc @ [(k, v)]), x)
                                  else None)))))"

definition parse_json :: "string \<Rightarrow> (json \<times> string) option" where
  "parse_json s = parse_value (2 * length s + 2) 0 s"

text \<open>\<^verbatim>\<open>json.Unmarshal\<close> into a fresh \<^verbatim>\<open>[]string\<close>: \<open>None\<close> for an error, the empty list for a nil slice.\<close>

fun string_elems :: "json list \<Rightarrow> string list option" where
  "string_elems [] = Some []"
| "string_elems (JStr x # js) = map_option ((#) x) (string_elems js)"
| "string_elems (JNull # js) = map_option ((#) []) (string_elems js)"
| "string_elems (_ # js) = None"

definition unmarshal_strings :: "string \<Rightarrow> string list option" where
  "unmarshal_strings s =
     (case parse_json s of
        None \<Rightarrow> None
      | Some (v, r) \<Rightarrow>
          if skip_ws r \<noteq> [] then None
          else (case v of JArr js \<Rightarrow> string_elems js | JNull \<Rightarrow> Some [] | _ \<Rightarrow> None))"

text \<open>
  \<^verbatim>\<open>Decode\<close> of the first value of a request body of which at most \<open>limit\<close> bytes are read
  (\<^verbatim>\<open>http.MaxBytesReader\<close>): a bare literal that ends exactly where reading stops is an error, because
  the decoder needs the next byte to see its end.
\<close>

definition decode_body :: "nat \<Rightarrow> string \<Rightarrow> json option" where
  "decode_body limit body =
     (case parse_json (take limit body) of
        None \<Rightarrow> None
      | Some (v, r) \<Rightarrow>
          (case v of
             JObj _ \<Rightarrow> Some v
           | JArr _ \<Rightarrow> Some v
           | _ \<Rightarrow> if r = [] \<and> limit < length body then None else Some v))"

text \<open>
  Field names match case-insensitively. Beyond ASCII letters, U+017F folds to \<open>S\<close> and U+212A to
  \<open>K\<close>; no other character folds to an ASCII letter.
\<close>

fun foldName :: "string \<Rightarrow> string" where
  "foldName [] = []"
| "foldName (a # s) =
     (if 97 \<le> ord a \<and> ord a \<le> 122 then char_of (ord a - 32) # foldName s
      else (case s of
          b # c # t \<Rightarrow>
            if a = CHR 0xE2 \<and> b = CHR 0x84 \<and> c = CHR 0xAA then CHR ''K'' # foldName t
            else if a = CHR 0xC5 \<and> b = CHR 0xBF then CHR ''S'' # foldName (c # t)
            else a # foldName s
        | b # [] \<Rightarrow>
            if a = CHR 0xC5 \<and> b = CHR 0xBF then CHR ''S'' # [] else a # foldName s
        | [] \<Rightarrow> [a]))"

text \<open>
  Reading one string field out of the members of an object: the last matching member wins, \<^verbatim>\<open>null\<close>
  leaves the field as it was, any other kind of value is a type error (\<open>None\<close>).
\<close>

fun string_field :: "string \<Rightarrow> (string \<times> json) list \<Rightarrow> string \<Rightarrow> string option" where
  "string_field name [] cur = Some cur"
| "string_field name ((k, v) # ms) cur =
     (if foldName k = foldName name then
        (case v of
           JStr x \<Rightarrow> string_field name ms x
         | JNull \<Rightarrow> string_field name ms cur
         | _ \<Rightarrow> None)
      else string_field name ms cur)"

section \<open>Round trip of string lists\<close>

lemma emit_Some [simp]: "emit p (Some (a, r)) = Some (p @ a, r)"
  by (simp add: emit_def)

lemma rune_len_le: "rune_len s \<le> length s"
  by (cases s) (auto split: list.splits)

lemma rune_len_pos_cases:
  assumes "rune_len s \<noteq> 0"
  shows "rune_len (take (rune_len s) s @ x) = rune_len s"
proof (cases s)
  case (Cons a t)
  show ?thesis
    using assms unfolding Cons by (auto split: if_splits list.splits)
qed (use assms in simp)

lemma parse_str_simple:
  "simple_escape e = Some x \<Longrightarrow> parse_str (CHR 0x5C # e # u) = emit [x] (parse_str u)"
  by (subst parse_str.simps) simp

lemma parse_str_u:
  assumes "getu4 u = Some r" "r < 0xD800"
  shows "parse_str (CHR 0x5C # CHR ''u'' # u) = emit (EncodeRune r) (parse_str (drop 4 u))"
proof -
  have "simple_escape (CHR ''u'') = None" by code_simp
  then show ?thesis using assms by (subst parse_str.simps) (simp add: Let_def)
qed

lemma parse_str_plain:
  assumes "\<not> ord c < 0x20" "ord c < 0x80" "c \<noteq> CHR 0x22" "c \<noteq> CHR 0x5C"
  shows "parse_str (c # u) = emit [c] (parse_str u)"
  using assms by (subst parse_str.simps) simp

lemma escape_ascii_cases:
  fixes c
  obtains (plain) "\<not> ord c < 0x20" "ord c < 0x80" "c \<noteq> CHR 0x22" "c \<noteq> CHR 0x5C" "escape_ascii c = [c]"
    | (simple) e where "escape_ascii c = [CHR 0x5C, e]" "simple_escape e = Some c"
    | (hex) "escape_ascii c = [CHR 0x5C, CHR ''u'', CHR ''0'', CHR ''0'',
        hextable ! (ord c div 16), hextable ! (ord c mod 16)]"
proof -
  have "\<forall>n\<in>set [0x5C, 0x22, 8, 12, 10, 13, 9 :: nat].
      \<not> html_safe n \<and> simple_escape (escape_ascii (char_of n) ! 1) = Some (char_of n)
      \<and> escape_ascii (char_of n) = [CHR 0x5C, escape_ascii (char_of n) ! 1]"
    by code_simp
  then have s: "\<exists>e. escape_ascii c = [CHR 0x5C, e] \<and> simple_escape e = Some c"
    if "ord c \<in> {0x5C, 0x22, 8, 12, 10, 13, 9}"
    using that by (metis char_of_char list.set(1) list.simps(15))
  consider "html_safe (ord c)" | "ord c \<in> {0x5C, 0x22, 8, 12, 10, 13, 9}"
    | "\<not> html_safe (ord c)" "ord c \<notin> {0x5C, 0x22, 8, 12, 10, 13, 9}"
    by blast
  then show thesis
  proof cases
    case 1
    then show ?thesis by (intro plain) (auto simp: html_safe_def escape_ascii_def)
  next
    case 2
    then show ?thesis using s simple by blast
  next
    case 3
    then show ?thesis by (intro hex) (simp add: escape_ascii_def)
  qed
qed

lemma parse_str_escape_ascii:
  assumes "ord c < 0x80"
  shows "parse_str (escape_ascii c @ x) = emit [c] (parse_str x)"
proof (cases c rule: escape_ascii_cases)
  case plain
  then show ?thesis by (simp add: parse_str_plain)
next
  case (simple e)
  then show ?thesis by (simp add: parse_str_simple)
next
  case hex
  let ?h = "CHR ''0'' # CHR ''0'' # hextable ! (ord c div 16) # hextable ! (ord c mod 16) # x"
  have h: "from_hex_char (CHR ''0'') = Some 0" by code_simp
  have q: "ord c div 16 < 16" "ord c mod 16 < 16" using assms by simp_all
  have "getu4 ?h = Some (ord c)"
    using hextable_from_hex [OF q(1)] hextable_from_hex [OF q(2)] h by (simp add: getu4_def)
  from parse_str_u [OF this] show ?thesis using assms hex by (simp add: EncodeRune_def)
qed

lemma parse_str_u2028:
  "parse_str (CHR 0x5C # ''u2028'' @ x) = emit [CHR 0xE2, CHR 0x80, CHR 0xA8] (parse_str x)"
  "parse_str (CHR 0x5C # ''u2029'' @ x) = emit [CHR 0xE2, CHR 0x80, CHR 0xA9] (parse_str x)"
proof -
  have g: "getu4 (''2028'' @ x) = Some 0x2028" "getu4 (''2029'' @ x) = Some 0x2029"
    by (simp_all add: getu4_def from_hex_char_def)
  have e: "EncodeRune 0x2028 = [CHR 0xE2, CHR 0x80, CHR 0xA8]"
    "EncodeRune 0x2029 = [CHR 0xE2, CHR 0x80, CHR 0xA9]"
    by (simp_all add: EncodeRune_def char_of_eq_iff)
  show "parse_str (CHR 0x5C # ''u2028'' @ x) = emit [CHR 0xE2, CHR 0x80, CHR 0xA8] (parse_str x)"
    using parse_str_u [OF g(1)] e(1) by simp
  show "parse_str (CHR 0x5C # ''u2029'' @ x) = emit [CHR 0xE2, CHR 0x80, CHR 0xA9] (parse_str x)"
    using parse_str_u [OF g(2)] e(2) by simp
qed

lemma rune_len_u2028:
  "rune_len ([CHR 0xE2, CHR 0x80, CHR 0xA8] @ x) = 3"
  "rune_len ([CHR 0xE2, CHR 0x80, CHR 0xA9] @ x) = 3"
  by simp_all

lemma parse_str_rune:
  assumes "rune_len (c # t) \<noteq> 0" "0x80 \<le> ord c"
  shows "parse_str (take (rune_len (c # t)) (c # t) @ x)
    = emit (take (rune_len (c # t)) (c # t)) (parse_str x)"
proof -
  let ?n = "rune_len (c # t)"
  let ?u = "take ?n (c # t)"
  have len: "length ?u = ?n" using rune_len_le [of "c # t"] by simp
  obtain u where u: "?u @ x = c # u" using assms(1) by (cases ?n) auto
  have c: "c \<noteq> CHR 0x22" "c \<noteq> CHR 0x5C" "\<not> ord c < 0x20" using assms(2) by auto
  have r: "rune_len (c # u) = ?n" using rune_len_pos_cases [OF assms(1), of x] unfolding u .
  have td: "take ?n (c # u) = ?u" "drop ?n (c # u) = x"
    unfolding u [symmetric] using len by simp_all
  have "parse_str (c # u) = emit (take ?n (c # u)) (parse_str (drop ?n (c # u)))"
    using c assms(1) by (subst parse_str.simps) (simp add: r del: rune_len.simps take_Cons drop_Cons)
  then show ?thesis unfolding td u .
qed

lemma parse_str_escape:
  "utf8_valid s \<Longrightarrow> parse_str (escape_text s @ CHR 0x22 # rest) = Some (s, rest)"
proof (induction s rule: escape_text.induct)
  case (1 s)
  let ?x = "\<lambda>t. escape_text t @ CHR 0x22 # rest"
  show ?case
  proof (cases s)
    case Nil
    then show ?thesis by (subst escape_text.simps) (simp, subst parse_str.simps, simp)
  next
    case (Cons c t)
    have n0: "rune_len s \<noteq> 0" and val: "utf8_valid (drop (rune_len s) s)"
      using "1.prems" Cons by (subst (asm) utf8_valid.simps, simp split: if_splits)+
    consider (ascii) "ord c < 0x80"
      | (u2028) "\<not> ord c < 0x80" "take 3 s = [CHR 0xE2, CHR 0x80, CHR 0xA8]"
      | (u2029) "\<not> ord c < 0x80" "take 3 s = [CHR 0xE2, CHR 0x80, CHR 0xA9]"
      | (rune) "\<not> ord c < 0x80" "take 3 s \<noteq> [CHR 0xE2, CHR 0x80, CHR 0xA8]"
          "take 3 s \<noteq> [CHR 0xE2, CHR 0x80, CHR 0xA9]"
      by blast
    then show ?thesis
    proof cases
      case ascii
      then have "utf8_valid t" using val Cons by simp
      then have "parse_str (?x t) = Some (t, rest)" using "1.IH"(1) [OF Cons ascii] by simp
      then show ?thesis
        using ascii Cons parse_str_escape_ascii [OF ascii, of "?x t"]
        by (subst escape_text.simps) simp
    next
      case u2028
      have s: "s = [CHR 0xE2, CHR 0x80, CHR 0xA8] @ drop 3 s"
        using u2028(2) append_take_drop_id [of 3 s] by simp
      have n3: "rune_len s = 3" using rune_len_u2028(1) [of "drop 3 s"] unfolding s [symmetric] .
      then have "parse_str (?x (drop 3 s)) = Some (drop 3 s, rest)"
        using "1.IH"(3) [OF Cons u2028(1) n0 u2028(2)] val by simp
      moreover have "?x s = CHR 0x5C # ''u2028'' @ ?x (drop 3 s)"
        using u2028 Cons n0 by (subst escape_text.simps) simp
      ultimately show ?thesis using parse_str_u2028(1) [of "?x (drop 3 s)"] s by simp
    next
      case u2029
      have s: "s = [CHR 0xE2, CHR 0x80, CHR 0xA9] @ drop 3 s"
        using u2029(2) append_take_drop_id [of 3 s] by simp
      have n3: "rune_len s = 3" using rune_len_u2028(2) [of "drop 3 s"] unfolding s [symmetric] .
      then have "parse_str (?x (drop 3 s)) = Some (drop 3 s, rest)"
        using "1.IH"(4) [OF Cons u2029(1) n0 _ u2029(2)] u2029(2) val by simp
      moreover have "?x s = CHR 0x5C # ''u2029'' @ ?x (drop 3 s)"
        using u2029 Cons n0 by (subst escape_text.simps) simp
      ultimately show ?thesis using parse_str_u2028(2) [of "?x (drop 3 s)"] s by simp
    next
      case rune
      have IH: "parse_str (?x (drop (rune_len s) s)) = Some (drop (rune_len s) s, rest)"
        using "1.IH"(5) [OF Cons rune(1) n0 rune(2,3)] val by simp
      have "?x s = take (rune_len s) s @ ?x (drop (rune_len s) s)"
        using rune Cons n0
        by (subst escape_text.simps) (simp del: rune_len.simps take_Cons_numeral)
      moreover have "parse_str (take (rune_len s) s @ ?x (drop (rune_len s) s))
          = emit (take (rune_len s) s) (parse_str (?x (drop (rune_len s) s)))"
        using rune(1) n0 unfolding Cons by (intro parse_str_rune) (simp_all del: rune_len.simps)
      ultimately show ?thesis using IH by (simp only: emit_Some append_take_drop_id)
    qed
  qed
qed

lemma parse_value_string:
  "utf8_valid x \<Longrightarrow> parse_value (Suc f) d (marshal_string x @ r) = Some (JStr x, r)"
  by (simp add: marshal_string_def parse_str_escape)

lemma length_marshal_rest: "length xs < length (marshal_rest xs)"
  by (induction xs) (auto simp: marshal_string_def)

lemma parse_elems_strings:
  "\<forall>y\<in>set (x # xs). utf8_valid y \<Longrightarrow> length xs + 2 \<le> f \<Longrightarrow>
   parse_elems f d acc (marshal_string x @ marshal_rest xs)
     = Some (JArr (acc @ map JStr (x # xs)), [])"
proof (induction xs arbitrary: x f acc)
  case Nil
  then obtain g where "f = Suc (Suc g)" by (cases f; cases "f - 1") auto
  with Nil show ?case by (simp add: parse_value_string del: parse_value.simps)
next
  case (Cons y ys)
  then obtain g where f: "f = Suc (Suc g)" "length ys + 2 \<le> Suc g" by (cases f; cases "f - 1") auto
  have "parse_elems (Suc g) d (acc @ [JStr x]) (marshal_string y @ marshal_rest ys)
      = Some (JArr (acc @ map JStr (x # y # ys)), [])"
    using Cons.IH [of y "Suc g" "acc @ [JStr x]"] Cons.prems(1) f(2)
    by (simp del: parse_elems.simps)
  moreover have "parse_value (Suc g) d (marshal_string x @ marshal_rest (y # ys))
      = Some (JStr x, marshal_rest (y # ys))"
    using Cons.prems(1) by (intro parse_value_string) simp
  ultimately show ?case
    unfolding f(1) by (subst parse_elems.simps) (simp del: parse_value.simps parse_elems.simps)
qed

lemma unmarshal_marshal:
  assumes "\<forall>x\<in>set xs. utf8_valid x"
  shows "unmarshal_strings (marshal_strings xs) = Some xs"
proof (cases xs)
  case Nil
  have "\<not> maxNestingDepth \<le> 0" by (simp add: maxNestingDepth_def)
  then have "parse_value (Suc 5) 0 ''[]'' = Some (JArr [], [])"
    by (subst parse_value.simps) simp
  then show ?thesis unfolding Nil by (simp add: unmarshal_strings_def parse_json_def)
next
  case (Cons x ys)
  let ?t = "marshal_string x @ marshal_rest ys"
  obtain t' where t': "?t = CHR 0x22 # t'" by (simp add: marshal_string_def)
  have fuel: "length ys + 2 \<le> 2 * length (marshal_strings xs) + 1"
    using length_marshal_rest [of ys] Cons by simp
  have e: "parse_elems (2 * length (marshal_strings xs) + 1) 1 [] ?t
      = Some (JArr (map JStr (x # ys)), [])"
    using parse_elems_strings [OF _ fuel, of x 1 "[]"] assms Cons by simp
  have "parse_json (marshal_strings xs) = Some (JArr (map JStr xs), [])"
    using e unfolding parse_json_def Cons
    by (simp add: t' maxNestingDepth_def del: parse_elems.simps)
  moreover have "string_elems (map JStr zs) = Some zs" for zs by (induction zs) auto
  ultimately show ?thesis by (simp add: unmarshal_strings_def)
qed

lemma marshal_strings_empty: "marshal_strings xs = ''[]'' \<longleftrightarrow> xs = []"
  by (cases xs) (auto simp: marshal_string_def)

end
