(* ===== verification/Store_Sqlite.thy ===== *)
theory Store_Sqlite
  imports Store_Mem Json
begin

text \<open>
  File \<^verbatim>\<open>cmd/relay/store_sqlite.go\<close>: the SQLite store. The tables are lists of rows with the columns of
  the schema (the two timestamp columns, which no statement of the relay reads, are left out), and
  each SQL statement of the file is a function on them, with the constraints the schema declares:
  \<^verbatim>\<open>id\<close> and \<^verbatim>\<open>account\<close> are primary keys, \<^verbatim>\<open>key_hash\<close> is unique, and no column may be NULL. Only a nil
  \<^verbatim>\<open>[]byte\<close> is bound as NULL; a Go string or integer never is. The engine and its driver can fail
  on any statement (an I/O error, an expired context): \<open>db_faults\<close> says, for each use of the database in
  turn, whether it fails, with which text, and for a row iteration after how many rows. The texts of a
  violated UNIQUE and a violated NOT NULL constraint are the driver's, \<open>db_unique_msg\<close> and
  \<open>db_notnull_msg\<close>. The theory interprets \<open>store_contract\<close>.
\<close>

section \<open>The code\<close>

record api_row =
  ar_id :: string
  ar_owner_account :: string
  ar_key_hash :: string
  ar_allowed_origins :: string

record policy_row =
  pr_account :: string
  pr_version :: int
  pr_blob :: "byte list"

type_synonym fault = "(string \<times> nat) option"

record sqliteStore =
  db_api_keys :: "api_row list"
  db_policy_blobs :: "policy_row list"
  db_faults :: "fault stream"
  db_unique_msg :: string
  db_notnull_msg :: string

text \<open>One use of the database: the driver's error, or the effect of the statement.\<close>

definition exec_db :: "sqliteStore \<Rightarrow> (sqliteStore \<Rightarrow> (go_error + 'a) \<times> sqliteStore) \<Rightarrow>
    (go_error + 'a) \<times> sqliteStore" where
  "exec_db s stmt =
     (let s' = s\<lparr>db_faults := stl (db_faults s)\<rparr> in
      case shd (db_faults s) of
        Some (e, _) \<Rightarrow> (Inl (GoErr e), s')
      | None \<Rightarrow> stmt s')"

fun exec_all :: "sqliteStore \<Rightarrow> (string \<times> string) list \<Rightarrow> go_error option \<times> sqliteStore" where
  "exec_all s [] = (None, s)"
| "exec_all s ((stmt, what) # rest) =
     (case exec_db s (\<lambda>s'. (Inr (), s')) of
        (Inl e, s') \<Rightarrow> (Some (GoErr (what @ error_text e)), s')
      | (Inr _, s') \<Rightarrow> exec_all s' rest)"

text \<open>
  \<^verbatim>\<open>newSQLiteStore\<close>: the database file holds what it held (\<^verbatim>\<open>CREATE TABLE IF NOT EXISTS\<close> keeps
  existing tables); \<open>open_err\<close> is the error of \<^verbatim>\<open>sql.Open\<close>, if any.
\<close>

definition sqlite_boot :: "(string \<times> string) list" where
  "sqlite_boot =
     [(''PRAGMA journal_mode=WAL'', ''relay: sqlite pragma \"PRAGMA journal_mode=WAL\": ''),
      (''PRAGMA busy_timeout=5000'', ''relay: sqlite pragma \"PRAGMA busy_timeout=5000\": ''),
      (''PRAGMA foreign_keys=ON'', ''relay: sqlite pragma \"PRAGMA foreign_keys=ON\": ''),
      (''schema'', ''relay: applying sqlite schema: '')]"

definition newSQLiteStore :: "string option \<Rightarrow> sqliteStore \<Rightarrow> go_error + sqliteStore" where
  "newSQLiteStore open_err file =
     (case open_err of
        Some e \<Rightarrow> Inl (GoErr (''relay: opening sqlite: '' @ e))
      | None \<Rightarrow>
          (case exec_all file sqlite_boot of
             (Some e, _) \<Rightarrow> Inl e
           | (None, s) \<Rightarrow> Inr s))"

definition decodeOrigins :: "string \<Rightarrow> string list" where
  "decodeOrigins s =
     (if s = [] \<or> s = ''[]'' then []
      else case unmarshal_strings s of None \<Rightarrow> [] | Some out \<Rightarrow> out)"

text \<open>
  \<^verbatim>\<open>INSERT ... ON CONFLICT(id) DO UPDATE\<close>: another row with the same hash violates the UNIQUE
  constraint and nothing is written; an existing row with the id is updated; otherwise a row with the
  default \<^verbatim>\<open>'[]'\<close> is added.
\<close>

definition upsert_key :: "string \<Rightarrow> string \<Rightarrow> string \<Rightarrow> api_row list \<Rightarrow> api_row list option" where
  "upsert_key kid owner hash rows =
     (if \<exists>r\<in>set rows. ar_key_hash r = hash \<and> ar_id r \<noteq> kid then None
      else if \<exists>r\<in>set rows. ar_id r = kid then
        Some (map (\<lambda>r. if ar_id r = kid
                        then r\<lparr>ar_owner_account := owner, ar_key_hash := hash\<rparr> else r) rows)
      else Some (rows @ [\<lparr>ar_id = kid, ar_owner_account = owner, ar_key_hash = hash,
                          ar_allowed_origins = ''[]''\<rparr>]))"

definition sql_RegisterAPIKey ::
  "sqliteStore \<Rightarrow> string \<Rightarrow> string \<Rightarrow> string \<Rightarrow> go_error option \<times> sqliteStore" where
  "sql_RegisterAPIKey s keyID ownerAccount hash =
     (case exec_db s (\<lambda>s'.
        case upsert_key keyID ownerAccount hash (db_api_keys s') of
          None \<Rightarrow> (Inl (GoErr (db_unique_msg s')), s')
        | Some rows \<Rightarrow> (Inr (), s'\<lparr>db_api_keys := rows\<rparr>)) of
        (Inl e, s') \<Rightarrow> (Some e, s')
      | (Inr _, s') \<Rightarrow> (None, s'))"

text \<open>\<^verbatim>\<open>UPDATE ... WHERE\<close> and \<^verbatim>\<open>DELETE ... WHERE\<close>, with the number of rows affected.\<close>

definition update_rows :: "(api_row \<Rightarrow> bool) \<Rightarrow> (api_row \<Rightarrow> api_row) \<Rightarrow> sqliteStore \<Rightarrow>
    (go_error + nat) \<times> sqliteStore" where
  "update_rows P f s =
     (Inr (length (filter P (db_api_keys s))),
      s\<lparr>db_api_keys := map (\<lambda>r. if P r then f r else r) (db_api_keys s)\<rparr>)"

definition delete_rows :: "(api_row \<Rightarrow> bool) \<Rightarrow> sqliteStore \<Rightarrow> (go_error + nat) \<times> sqliteStore" where
  "delete_rows P s =
     (Inr (length (filter P (db_api_keys s))),
      s\<lparr>db_api_keys := filter (\<lambda>r. \<not> P r) (db_api_keys s)\<rparr>)"

definition found_or_err :: "(go_error + nat) \<times> sqliteStore \<Rightarrow> go_error option \<times> sqliteStore" where
  "found_or_err res =
     (case res of
        (Inl e, s) \<Rightarrow> (Some e, s)
      | (Inr n, s) \<Rightarrow> if n = 0 then (Some ErrNotFound, s) else (None, s))"

definition sql_RebindAPIKey ::
  "sqliteStore \<Rightarrow> string \<Rightarrow> string \<Rightarrow> string \<Rightarrow> go_error option \<times> sqliteStore" where
  "sql_RebindAPIKey s keyID oldAccount newAccount =
     found_or_err (exec_db s (update_rows
       (\<lambda>r. ar_id r = keyID \<and> ar_owner_account r = oldAccount)
       (\<lambda>r. r\<lparr>ar_owner_account := newAccount\<rparr>)))"

definition sql_RevokeAPIKey :: "sqliteStore \<Rightarrow> string \<Rightarrow> string \<Rightarrow> go_error option \<times> sqliteStore" where
  "sql_RevokeAPIKey s ownerAccount kid =
     found_or_err (exec_db s (delete_rows
       (\<lambda>r. ar_id r = kid \<and> ar_owner_account r = ownerAccount)))"

definition sql_ResolveAPIKey :: "sqliteStore \<Rightarrow> string \<Rightarrow> (go_error + APIKey) \<times> sqliteStore" where
  "sql_ResolveAPIKey s plaintext =
     exec_db s (\<lambda>s'.
       (case find (\<lambda>r. ar_key_hash r = hashSecret plaintext) (db_api_keys s') of
          None \<Rightarrow> Inl ErrNotFound
        | Some r \<Rightarrow>
            Inr \<lparr>k_ID = ar_id r, k_OwnerAccount = ar_owner_account r,
                 k_AllowedOrigins = decodeOrigins (ar_allowed_origins r)\<rparr>,
        s'))"

definition sql_UpdateKeyOrigins ::
  "sqliteStore \<Rightarrow> string \<Rightarrow> string \<Rightarrow> string list \<Rightarrow> go_error option \<times> sqliteStore" where
  "sql_UpdateKeyOrigins s keyID ownerAccount origins =
     (let blob = marshal_strings origins in
      found_or_err (exec_db s (update_rows
        (\<lambda>r. ar_id r = keyID \<and> ar_owner_account r = ownerAccount)
        (\<lambda>r. r\<lparr>ar_allowed_origins := blob\<rparr>))))"

fun origin_in_texts :: "string \<Rightarrow> string list \<Rightarrow> bool" where
  "origin_in_texts origin [] = False"
| "origin_in_texts origin (t # ts) =
     (if \<exists>o'\<in>set (decodeOrigins t). o' = origin then True else origin_in_texts origin ts)"

definition sql_OriginAllowed :: "sqliteStore \<Rightarrow> string \<Rightarrow> (bool \<times> go_error option) \<times> sqliteStore" where
  "sql_OriginAllowed s origin =
     (case exec_db s (\<lambda>s'.
        (Inr (filter (\<lambda>t. t \<noteq> ''[]'') (map ar_allowed_origins (db_api_keys s'))), s')) of
        (Inl e, s') \<Rightarrow> ((False, Some e), s')
      | (Inr texts, s') \<Rightarrow>
          let f = shd (db_faults s');
              s'' = s'\<lparr>db_faults := stl (db_faults s')\<rparr>;
              seen = (case f of None \<Rightarrow> texts | Some (_, n) \<Rightarrow> take n texts)
          in if origin_in_texts origin seen then ((True, None), s'')
             else ((False, map_option (\<lambda>(e, _). GoErr e) f), s''))"

text \<open>
  \<^verbatim>\<open>INSERT ... ON CONFLICT(account) DO UPDATE ... WHERE excluded.version > policy_blobs.version\<close>: a NULL
  blob violates \<^verbatim>\<open>blob BLOB NOT NULL\<close>, whatever rows are there (the conflict clause is for the
  primary key only), and nothing is written.
\<close>

definition upsert_policy :: "string \<Rightarrow> int \<Rightarrow> blob \<Rightarrow> policy_row list \<Rightarrow> policy_row list option" where
  "upsert_policy account version blob rows =
     (case blob of
        None \<Rightarrow> None
      | Some b \<Rightarrow> Some
          (if \<exists>r\<in>set rows. pr_account r = account then
             map (\<lambda>r. if pr_account r = account \<and> pr_version r < version
                      then r\<lparr>pr_version := version, pr_blob := b\<rparr> else r) rows
           else rows @ [\<lparr>pr_account = account, pr_version = version, pr_blob = b\<rparr>]))"

definition sql_PutPolicy ::
  "sqliteStore \<Rightarrow> string \<Rightarrow> int \<Rightarrow> blob \<Rightarrow> go_error option \<times> sqliteStore" where
  "sql_PutPolicy s account version blob =
     (case exec_db s (\<lambda>s'.
        case upsert_policy account version blob (db_policy_blobs s') of
          None \<Rightarrow> (Inl (GoErr (db_notnull_msg s')), s')
        | Some rows \<Rightarrow> (Inr (), s'\<lparr>db_policy_blobs := rows\<rparr>)) of
        (Inl e, s') \<Rightarrow> (Some e, s')
      | (Inr _, s') \<Rightarrow> (None, s'))"

text \<open>
  Whether the driver gives an empty column as a nil or as an empty slice is not seen: the only
  reader of the result puts it in a frame, which leaves either out.
\<close>

definition sql_GetPolicy ::
  "sqliteStore \<Rightarrow> string \<Rightarrow> (int \<times> blob \<times> bool \<times> go_error option) \<times> sqliteStore" where
  "sql_GetPolicy s account =
     (case exec_db s (\<lambda>s'.
        (Inr (find (\<lambda>r. pr_account r = account) (db_policy_blobs s')), s')) of
        (Inl e, s') \<Rightarrow> ((0, None, False, Some e), s')
      | (Inr None, s') \<Rightarrow> ((0, None, False, None), s')
      | (Inr (Some r), s') \<Rightarrow> ((pr_version r, Some (pr_blob r), True, None), s'))"

definition sqlite_store :: "sqliteStore Store" where
  "sqlite_store =
     \<lparr>RegisterAPIKey = sql_RegisterAPIKey, RevokeAPIKey = sql_RevokeAPIKey,
      ResolveAPIKey = sql_ResolveAPIKey, RebindAPIKey = sql_RebindAPIKey,
      UpdateKeyOrigins = sql_UpdateKeyOrigins, OriginAllowed = sql_OriginAllowed,
      PutPolicy = sql_PutPolicy, GetPolicy = sql_GetPolicy\<rparr>"

section \<open>Abstraction and invariant\<close>

definition row_key :: "api_row \<Rightarrow> APIKey" where
  "row_key r = \<lparr>k_ID = ar_id r, k_OwnerAccount = ar_owner_account r,
     k_AllowedOrigins = decodeOrigins (ar_allowed_origins r)\<rparr>"

definition sql_view :: "sqliteStore \<Rightarrow> abs_store" where
  "sql_view s =
     \<lparr>a_keys = (\<lambda>kid. map_option row_key (find (\<lambda>r. ar_id r = kid) (db_api_keys s))),
      a_hash = (\<lambda>h. map_option ar_id (find (\<lambda>r. ar_key_hash r = h) (db_api_keys s))),
      a_policy = (\<lambda>acc. map_option (\<lambda>r. (pr_version r, Some (pr_blob r)))
        (find (\<lambda>r. pr_account r = acc) (db_policy_blobs s)))\<rparr>"

text \<open>The invariant is what the schema enforces.\<close>

definition sql_inv :: "sqliteStore \<Rightarrow> bool" where
  "sql_inv s \<longleftrightarrow> distinct (map ar_id (db_api_keys s)) \<and> distinct (map ar_key_hash (db_api_keys s))
     \<and> distinct (map pr_account (db_policy_blobs s))"

definition sql_nil_err :: "sqliteStore \<Rightarrow> go_error option" where
  "sql_nil_err s = Some (GoErr (db_notnull_msg s))"

definition sql_dup_err :: "sqliteStore \<Rightarrow> go_error option" where
  "sql_dup_err s = Some (GoErr (db_unique_msg s))"

definition sql_up :: "sqliteStore \<Rightarrow> bool" where
  "sql_up s \<longleftrightarrow> sset (db_faults s) \<subseteq> {None}"

subsection \<open>Rows found by a unique column\<close>

lemma find_key_Some:
  "distinct (map g rows) \<Longrightarrow> find (\<lambda>r. g r = k) rows = Some r \<longleftrightarrow> r \<in> set rows \<and> g r = k"
proof (induction rows)
  case (Cons x xs)
  then show ?case by (auto simp: image_iff)
qed simp

lemma find_key_None: "find (\<lambda>r. g r = k) rows = None \<longleftrightarrow> (\<forall>r\<in>set rows. g r \<noteq> k)"
  by (auto simp: find_None_iff)

lemma find_map_key:
  "(\<And>r. g (u r) = g r) \<Longrightarrow> find (\<lambda>r. g r = k) (map u rows) = map_option u (find (\<lambda>r. g r = k) rows)"
  by (induction rows) auto

lemma option_eqI: "(\<And>x. a = Some x \<longleftrightarrow> b = Some x) \<Longrightarrow> a = b"
  by (metis not_Some_eq)

subsection \<open>Each statement against the specification\<close>

lemma exec_db_cases:
  assumes "exec_db s stmt = (q, s')"
  obtains (fault) e n where "shd (db_faults s) = Some (e, n)" "q = Inl (GoErr e)"
      "s' = s\<lparr>db_faults := stl (db_faults s)\<rparr>"
    | (run) "shd (db_faults s) = None" "stmt (s\<lparr>db_faults := stl (db_faults s)\<rparr>) = (q, s')"
  using assms unfolding exec_db_def Let_def by (cases "shd (db_faults s)") auto

lemma sql_up_step:
  assumes "sql_up s"
  shows "shd (db_faults s) = None" "sset (stl (db_faults s)) \<subseteq> {None}"
proof -
  have "shd (db_faults s) \<in> sset (db_faults s)" "sset (stl (db_faults s)) \<subseteq> sset (db_faults s)"
    by (auto simp: shd_sset stl_sset)
  then show "shd (db_faults s) = None" "sset (stl (db_faults s)) \<subseteq> {None}"
    using assms by (auto simp: sql_up_def)
qed

lemma faults_frame [simp]:
  "sql_view (s\<lparr>db_faults := f\<rparr>) = sql_view s" "sql_inv (s\<lparr>db_faults := f\<rparr>) = sql_inv s"
  by (simp_all add: sql_view_def sql_inv_def)

lemma sql_view_keys:
  "a_keys (sql_view s) kid = map_option row_key (find (\<lambda>r. ar_id r = kid) (db_api_keys s))"
  "a_hash (sql_view s) h = map_option ar_id (find (\<lambda>r. ar_key_hash r = h) (db_api_keys s))"
  by (simp_all add: sql_view_def)

lemma sql_key_Some:
  "sql_inv s \<Longrightarrow> a_keys (sql_view s) kid = Some k
     \<longleftrightarrow> (\<exists>r\<in>set (db_api_keys s). ar_id r = kid \<and> k = row_key r)"
  "sql_inv s \<Longrightarrow> a_hash (sql_view s) h = Some kid
     \<longleftrightarrow> (\<exists>r\<in>set (db_api_keys s). ar_key_hash r = h \<and> ar_id r = kid)"
  by (auto simp: sql_view_keys sql_inv_def find_key_Some)

lemma distinct_map_unique:
  "distinct (map g rows) \<Longrightarrow> r \<in> set rows \<Longrightarrow> r' \<in> set rows \<Longrightarrow> g r = g r' \<Longrightarrow> r = r'"
  by (metis find_key_Some option.inject)

lemma sql_view_inv: "sql_inv s \<Longrightarrow> abs_inv (sql_view s)"
  unfolding abs_inv_def
proof (intro conjI allI impI)
  assume inv: "sql_inv s"
  show "k_ID k = kid" if "a_keys (sql_view s) kid = Some k" for kid k
    using that by (auto simp: sql_key_Some [OF inv] row_key_def)
  show "\<exists>k. a_keys (sql_view s) kid = Some k" if "a_hash (sql_view s) h = Some kid" for h kid
    using that by (auto simp: sql_key_Some [OF inv])
  show "h = h'" if "a_hash (sql_view s) h = Some kid" "a_hash (sql_view s) h' = Some kid" for h h' kid
    using that inv by (auto simp: sql_key_Some [OF inv] sql_inv_def dest: distinct_map_unique)
qed

lemma owned_row:
  "sql_inv s \<Longrightarrow> owned (sql_view s) kid acc
     \<longleftrightarrow> (\<exists>r\<in>set (db_api_keys s). ar_id r = kid \<and> ar_owner_account r = acc)"
  by (auto simp: owned_def sql_key_Some row_key_def)

text \<open>A row update that keeps id and hash, on the row with a given id and owner.\<close>

lemma update_rows_view:
  assumes inv: "sql_inv s" and own: "owned (sql_view s) kid acc"
    and keep: "\<And>r. ar_id (f r) = ar_id r" "\<And>r. ar_key_hash (f r) = ar_key_hash r"
    and key: "\<And>r. ar_id r = kid \<Longrightarrow> row_key (f r) = g (row_key r)"
    and s': "s' = s\<lparr>db_api_keys := map (\<lambda>r. if ar_id r = kid \<and> ar_owner_account r = acc then f r else r)
      (db_api_keys s)\<rparr>"
  shows "sql_inv s' \<and> sql_view s' = (sql_view s)
    \<lparr>a_keys := (a_keys (sql_view s))(kid := map_option g (a_keys (sql_view s) kid))\<rparr>"
proof -
  let ?u = "\<lambda>r. if ar_id r = kid \<and> ar_owner_account r = acc then f r else r"
  have u: "ar_id (?u r) = ar_id r" "ar_key_hash (?u r) = ar_key_hash r" for r by (simp_all add: keep)
  have "sql_inv s'" using inv unfolding sql_inv_def s' by (simp add: u comp_def)
  moreover have "a_keys (sql_view s') k
      = ((a_keys (sql_view s))(kid := map_option g (a_keys (sql_view s) kid))) k" for k
  proof -
    have "a_keys (sql_view s') k = map_option (row_key \<circ> ?u) (find (\<lambda>r. ar_id r = k) (db_api_keys s))"
      by (simp add: sql_view_keys s' find_map_key [where g = ar_id and u = ?u, OF u(1)] option.map_comp)
    moreover have "row_key (?u r) = (if k = kid then g (row_key r) else row_key r)"
      if "find (\<lambda>r. ar_id r = k) (db_api_keys s) = Some r" for r
    proof -
      have r: "r \<in> set (db_api_keys s)" "ar_id r = k"
        using that inv by (simp_all add: sql_inv_def find_key_Some)
      obtain r' where "r' \<in> set (db_api_keys s)" "ar_id r' = kid" "ar_owner_account r' = acc"
        using own owned_row [OF inv] by blast
      then have "k = kid \<Longrightarrow> ar_owner_account r = acc"
        using r inv distinct_map_unique by (metis sql_inv_def)
      then show ?thesis using r(2) key by auto
    qed
    ultimately show ?thesis
      by (cases "k = kid"; cases "find (\<lambda>r. ar_id r = k) (db_api_keys s)")
         (auto simp: sql_view_keys)
  qed
  moreover have "a_hash (sql_view s') h = a_hash (sql_view s) h" for h
    by (simp add: sql_view_keys s' find_map_key [where g = ar_key_hash and u = ?u, OF u(2)] option.map_comp comp_def u)
  moreover have "a_policy (sql_view s') = a_policy (sql_view s)" by (simp add: sql_view_def s')
  ultimately show ?thesis by (auto simp: fun_eq_iff)
qed

lemma update_none:
  "\<not> (\<exists>r\<in>set rows. P r) \<Longrightarrow> map (\<lambda>r. if P r then f r else r) rows = rows"
  by (rule map_idI) auto

lemma sql_update_contract:
  assumes inv: "sql_inv s"
    and run: "found_or_err (exec_db s (update_rows
       (\<lambda>r. ar_id r = kid \<and> ar_owner_account r = acc) f)) = (r, s')"
    and keep: "\<And>r. ar_id (f r) = ar_id r" "\<And>r. ar_key_hash (f r) = ar_key_hash r"
    and key: "\<And>r. ar_id r = kid \<Longrightarrow> row_key (f r) = g (row_key r)"
  shows "sql_inv s' \<and> (sql_up s \<longrightarrow> sql_up s')
    \<and> sql_view s' = (if r = None then (sql_view s)
        \<lparr>a_keys := (a_keys (sql_view s))(kid := map_option g (a_keys (sql_view s) kid))\<rparr>
        else sql_view s)
    \<and> (r = None \<longrightarrow> owned (sql_view s) kid acc)
    \<and> (sql_up s \<longrightarrow> r = (if owned (sql_view s) kid acc then None else Some ErrNotFound))"
proof -
  let ?P = "\<lambda>r. ar_id r = kid \<and> ar_owner_account r = acc"
  let ?s = "s\<lparr>db_faults := stl (db_faults s)\<rparr>"
  obtain q t where q: "exec_db s (update_rows ?P f) = (q, t)" by fastforce
  have up: "sql_up s \<Longrightarrow> sql_up (?s\<lparr>db_api_keys := x\<rparr>)" for x
    using sql_up_step [of s] by (simp add: sql_up_def)
  have up0: "sql_up s \<Longrightarrow> sql_up ?s" using sql_up_step [of s] by (simp add: sql_up_def)
  from q show ?thesis
  proof (cases rule: exec_db_cases)
    case (fault e n)
    then show ?thesis using run q inv sql_up_step [of s] by (auto simp: found_or_err_def)
  next
    case run': run
    let ?s2 = "?s\<lparr>db_api_keys := map (\<lambda>r. if ?P r then f r else r) (db_api_keys ?s)\<rparr>"
    have t: "t = ?s2" "q = Inr (length (filter ?P (db_api_keys s)))"
      using run'(2) by (auto simp: update_rows_def)
    have own: "owned (sql_view s) kid acc \<longleftrightarrow> filter ?P (db_api_keys s) \<noteq> []"
      using owned_row [OF inv] by (auto simp: filter_empty_conv)
    show ?thesis
    proof (cases "owned (sql_view s) kid acc")
      case True
      then have "r = None" "s' = ?s2" using run q t own by (auto simp: found_or_err_def)
      moreover have "sql_inv ?s" "owned (sql_view ?s) kid acc" using inv True by simp_all
      note update_rows_view [OF this keep key refl]
      ultimately show ?thesis using True up by auto
    next
      case False
      then have "map (\<lambda>r. if ?P r then f r else r) (db_api_keys s) = db_api_keys s"
        using owned_row [OF inv] by (intro update_none) blast
      then have "r = Some ErrNotFound" "s' = ?s"
        using run q t own False by (auto simp: found_or_err_def)
      then show ?thesis using False inv up0 by simp
    qed
  qed
qed

lemma upsert_key_set:
  assumes "upsert_key kid owner h rows = Some rows'"
  shows "r' \<in> set rows' \<longleftrightarrow>
    (r' \<in> set rows \<and> ar_id r' \<noteq> kid)
    \<or> (\<exists>r\<in>set rows. ar_id r = kid \<and> r' = r\<lparr>ar_owner_account := owner, ar_key_hash := h\<rparr>)
    \<or> (\<forall>r\<in>set rows. ar_id r \<noteq> kid) \<and> r' = \<lparr>ar_id = kid, ar_owner_account = owner, ar_key_hash = h,
        ar_allowed_origins = ''[]''\<rparr>"
  using assms by (auto simp: upsert_key_def split: if_splits)

lemma upsert_key_present:
  assumes "upsert_key kid owner h rows = Some rows'"
  shows "\<exists>r\<in>set rows'. ar_key_hash r = h \<and> ar_id r = kid"
proof (cases "\<exists>r\<in>set rows. ar_id r = kid")
  case True
  then obtain r where "r \<in> set rows" "ar_id r = kid" by blast
  then have "r\<lparr>ar_owner_account := owner, ar_key_hash := h\<rparr> \<in> set rows'"
    unfolding upsert_key_set [OF assms] by blast
  then show ?thesis using \<open>ar_id r = kid\<close> by (intro bexI) simp_all
next
  case False
  then show ?thesis using assms by (auto simp: upsert_key_def split: if_splits)
qed

lemma distinct_map_upd:
  assumes "distinct (map g rows)" "\<And>r r'. r \<in> set rows \<Longrightarrow> r' \<in> set rows \<Longrightarrow> g (u r) = g (u r') \<Longrightarrow> g r = g r'"
  shows "distinct (map g (map u rows))"
proof -
  have d: "distinct rows" and i: "inj_on g (set rows)" using assms(1) by (auto simp: distinct_map)
  have "inj_on (g \<circ> u) (set rows)"
    by (rule inj_onI) (metis assms(2) i inj_onD comp_apply)
  then show ?thesis using d by (simp add: distinct_map comp_inj_on_iff)
qed

lemma upsert_key_distinct:
  assumes up: "upsert_key kid owner h rows = Some rows'"
    and ids: "distinct (map ar_id rows)" and hs: "distinct (map ar_key_hash rows)"
  shows "distinct (map ar_id rows') \<and> distinct (map ar_key_hash rows')"
proof (cases "\<exists>r\<in>set rows. ar_id r = kid")
  case True
  let ?u = "\<lambda>r. if ar_id r = kid then r\<lparr>ar_owner_account := owner, ar_key_hash := h\<rparr> else r"
  have free: "\<forall>r\<in>set rows. ar_key_hash r = h \<longrightarrow> ar_id r = kid" and rows': "rows' = map ?u rows"
    using up True by (auto simp: upsert_key_def split: if_splits)
  have "distinct (map ar_id (map ?u rows))"
    by (rule distinct_map_upd [OF ids]) (auto split: if_splits)
  moreover have "distinct (map ar_key_hash (map ?u rows))"
    using free ids by (intro distinct_map_upd [OF hs])
      (auto split: if_splits dest: distinct_map_unique [OF ids])
  ultimately show ?thesis unfolding rows' by blast
next
  case False
  then show ?thesis using up ids hs by (auto simp: upsert_key_def split: if_splits)
qed

lemma upsert_key_inv:
  "sql_inv s \<Longrightarrow> upsert_key kid owner h (db_api_keys s) = Some rows \<Longrightarrow> sql_inv (s\<lparr>db_api_keys := rows\<rparr>)"
  using upsert_key_distinct by (simp add: sql_inv_def)

text \<open>The keys of the new rows: the key \<open>kid\<close> with its old origins, and the other keys as they were.\<close>

lemma upsert_key_rows:
  assumes inv: "sql_inv s" and up: "upsert_key kid owner h (db_api_keys s) = Some rows"
  shows "(\<exists>r\<in>set rows. ar_id r = k \<and> x = row_key r) \<longleftrightarrow>
    (if k = kid then x = \<lparr>k_ID = kid, k_OwnerAccount = owner, k_AllowedOrigins = origins_of (sql_view s) kid\<rparr>
     else \<exists>r\<in>set (db_api_keys s). ar_id r = k \<and> x = row_key r)"
proof (cases "\<exists>r\<in>set (db_api_keys s). ar_id r = kid")
  case True
  then obtain r0 where r0: "r0 \<in> set (db_api_keys s)" "ar_id r0 = kid" by blast
  have un: "r = r0" if "r \<in> set (db_api_keys s)" "ar_id r = kid" for r
    using that r0 distinct_map_unique [of ar_id "db_api_keys s"] inv by (metis sql_inv_def)
  let ?r1 = "r0\<lparr>ar_owner_account := owner, ar_key_hash := h\<rparr>"
  have one: "r' \<in> set rows \<and> ar_id r' = kid \<longleftrightarrow> r' = ?r1" for r'
    unfolding upsert_key_set [OF up] using r0 by (auto dest: un)
  have rest: "r' \<in> set rows \<and> ar_id r' = k \<longleftrightarrow> r' \<in> set (db_api_keys s) \<and> ar_id r' = k" if "k \<noteq> kid" for r'
    unfolding upsert_key_set [OF up] using that by auto
  have "a_keys (sql_view s) kid = Some (row_key r0)" using r0 sql_key_Some(1) [OF inv] by blast
  then have "row_key ?r1 = \<lparr>k_ID = kid, k_OwnerAccount = owner, k_AllowedOrigins = origins_of (sql_view s) kid\<rparr>"
    using r0 by (simp add: origins_of_def row_key_def)
  then have "k = kid \<Longrightarrow> ?thesis" using one by (simp only: if_True) metis
  moreover have "k \<noteq> kid \<Longrightarrow> ?thesis" using rest by (simp only: if_False) metis
  ultimately show ?thesis by blast
next
  case False
  then have rows: "rows = db_api_keys s @ [\<lparr>ar_id = kid, ar_owner_account = owner, ar_key_hash = h,
      ar_allowed_origins = ''[]''\<rparr>]"
    using up by (auto simp: upsert_key_def split: if_splits)
  have "origins_of (sql_view s) kid = []"
    using False find_key_None [of ar_id kid "db_api_keys s"] by (simp add: origins_of_def sql_view_keys)
  then show ?thesis using False by (cases "k = kid") (auto simp: rows row_key_def decodeOrigins_def)
qed

lemma upsert_hash_rows:
  assumes up: "upsert_key kid owner h (db_api_keys s) = Some rows"
  shows "(\<exists>r\<in>set rows. ar_key_hash r = x \<and> ar_id r = y) \<longleftrightarrow>
    (if x = h then y = kid else y \<noteq> kid \<and> (\<exists>r\<in>set (db_api_keys s). ar_key_hash r = x \<and> ar_id r = y))"
proof (cases "x = h")
  case True
  have free: "ar_id r = kid" if "r \<in> set (db_api_keys s)" "ar_key_hash r = h" for r
    using up that by (auto simp: upsert_key_def split: if_splits)
  have "ar_key_hash r = h \<Longrightarrow> ar_id r = kid" if m: "r \<in> set rows" for r
  proof (rule ccontr)
    assume n: "ar_key_hash r = h" "ar_id r \<noteq> kid"
    then have "r \<notin> set (db_api_keys s)" using free by blast
    moreover have "r \<noteq> r'\<lparr>ar_owner_account := owner, ar_key_hash := h\<rparr>" if "ar_id r' = kid" for r'
      using n(2) that by (metis api_row.select_convs(1) api_row.surjective api_row.update_convs(2,3))
    moreover have "r \<noteq> \<lparr>ar_id = kid, ar_owner_account = owner, ar_key_hash = h,
        ar_allowed_origins = ''[]''\<rparr>" using n(2) by (metis api_row.select_convs(1))
    ultimately show False using m unfolding upsert_key_set [OF up] by blast
  qed
  moreover have "\<exists>r\<in>set rows. ar_key_hash r = h \<and> ar_id r = kid" by (rule upsert_key_present [OF up])
  ultimately show ?thesis using True by auto
next
  case False
  then have "r \<in> set rows \<and> ar_key_hash r = x \<longleftrightarrow> r \<in> set (db_api_keys s) \<and> ar_key_hash r = x \<and> ar_id r \<noteq> kid" for r
    unfolding upsert_key_set [OF up] by auto
  then show ?thesis using False by (simp only: if_False) metis
qed

lemma upsert_key_view:
  assumes inv: "sql_inv s" and up: "upsert_key kid owner h (db_api_keys s) = Some rows"
  shows "sql_inv (s\<lparr>db_api_keys := rows\<rparr>)
    \<and> sql_view (s\<lparr>db_api_keys := rows\<rparr>) = abs_register (sql_view s) kid owner h"
proof -
  let ?s = "s\<lparr>db_api_keys := rows\<rparr>"
  note inv' = upsert_key_inv [OF inv up]
  have "a_keys (sql_view ?s) k = a_keys (abs_register (sql_view s) kid owner h) k" for k
  proof (rule option_eqI)
    fix x
    have "a_keys (sql_view ?s) k = Some x \<longleftrightarrow> (\<exists>r\<in>set rows. ar_id r = k \<and> x = row_key r)"
      by (simp add: sql_key_Some(1) [OF inv'])
    also note upsert_key_rows [OF inv up]
    also have "(if k = kid then x = \<lparr>k_ID = kid, k_OwnerAccount = owner, k_AllowedOrigins = origins_of (sql_view s) kid\<rparr>
        else \<exists>r\<in>set (db_api_keys s). ar_id r = k \<and> x = row_key r)
      \<longleftrightarrow> a_keys (abs_register (sql_view s) kid owner h) k = Some x"
      using sql_key_Some(1) [OF inv, of k x] by (auto simp: abs_register_def)
    finally show "a_keys (sql_view ?s) k = Some x \<longleftrightarrow> a_keys (abs_register (sql_view s) kid owner h) k = Some x" .
  qed
  moreover have "a_hash (sql_view ?s) x = a_hash (abs_register (sql_view s) kid owner h) x" for x
  proof (rule option_eqI)
    fix y
    have "a_hash (sql_view ?s) x = Some y \<longleftrightarrow> (\<exists>r\<in>set rows. ar_key_hash r = x \<and> ar_id r = y)"
      by (simp add: sql_key_Some(2) [OF inv'])
    also note upsert_hash_rows [OF up]
    also have "(if x = h then y = kid else y \<noteq> kid \<and> (\<exists>r\<in>set (db_api_keys s). ar_key_hash r = x \<and> ar_id r = y))
      \<longleftrightarrow> a_hash (abs_register (sql_view s) kid owner h) x = Some y"
      unfolding sql_key_Some(2) [OF inv, symmetric] by (auto simp: abs_register_def)
    finally show "a_hash (sql_view ?s) x = Some y \<longleftrightarrow> a_hash (abs_register (sql_view s) kid owner h) x = Some y" .
  qed
  moreover have "a_policy (sql_view ?s) = a_policy (sql_view s)" by (simp add: sql_view_def)
  ultimately show ?thesis using inv' by (intro conjI abs_store.equality) (auto simp: fun_eq_iff)
qed

lemma delete_row_view:
  assumes inv: "sql_inv s" and own: "owned (sql_view s) kid acc"
    and s': "s' = s\<lparr>db_api_keys := filter (\<lambda>r. \<not> (ar_id r = kid \<and> ar_owner_account r = acc))
      (db_api_keys s)\<rparr>"
  shows "sql_inv s' \<and> sql_view s' = abs_revoke (sql_view s) kid"
proof -
  obtain r0 where r0: "r0 \<in> set (db_api_keys s)" "ar_id r0 = kid" "ar_owner_account r0 = acc"
    using own owned_row [OF inv] by blast
  have un: "r = r0" if "r \<in> set (db_api_keys s)" "ar_id r = kid" for r
    using that r0 inv distinct_map_unique [of ar_id "db_api_keys s" r r0] by (simp add: sql_inv_def)
  have "ar_owner_account r = acc" if "r \<in> set (db_api_keys s)" "ar_id r = kid" for r
    using un [OF that] r0(3) by simp
  then have mem: "r \<in> set (db_api_keys s') \<longleftrightarrow> r \<in> set (db_api_keys s) \<and> ar_id r \<noteq> kid" for r
    by (auto simp: s')
  have inv': "sql_inv s'" using inv by (simp add: sql_inv_def s' distinct_map_filter)
  have "a_keys (sql_view s') k = a_keys (abs_revoke (sql_view s) kid) k" for k
    by (rule option_eqI)
       (auto simp: sql_key_Some [OF inv'] sql_key_Some [OF inv] mem abs_revoke_def)
  moreover have "a_hash (sql_view s') h = a_hash (abs_revoke (sql_view s) kid) h" for h
  proof (rule option_eqI)
    fix y
    have "a_hash (sql_view s') h = Some y \<longleftrightarrow> a_hash (sql_view s) h = Some y \<and> y \<noteq> kid"
      unfolding sql_key_Some(2) [OF inv'] sql_key_Some(2) [OF inv] using mem by blast
    then show "a_hash (sql_view s') h = Some y \<longleftrightarrow> a_hash (abs_revoke (sql_view s) kid) h = Some y"
      by (auto simp: abs_revoke_def)
  qed
  moreover have "a_policy (sql_view s') = a_policy (sql_view s)" by (simp add: sql_view_def s')
  ultimately show ?thesis
    using inv' by (intro conjI abs_store.equality) (auto simp: fun_eq_iff)
qed

lemma find_snoc: "find P (xs @ [x]) = (case find P xs of None \<Rightarrow> if P x then Some x else None | Some y \<Rightarrow> Some y)"
  by (induction xs) auto

lemma upsert_policy_view:
  assumes inv: "sql_inv s"
    and up: "upsert_policy acc ver (Some blob) (db_policy_blobs s) = Some rows"
    and s': "s' = s\<lparr>db_policy_blobs := rows\<rparr>"
  shows "sql_inv s' \<and> sql_view s' = abs_put_policy (sql_view s) acc ver (Some blob)"
proof -
  let ?u = "\<lambda>r. if pr_account r = acc \<and> pr_version r < ver
    then r\<lparr>pr_version := ver, pr_blob := blob\<rparr> else r"
  have u: "pr_account (?u r) = pr_account r" for r by simp
  note fm = find_map_key [where g = pr_account and u = ?u, OF u]
  have dist: "distinct (map pr_account (db_policy_blobs s))" using inv by (simp add: sql_inv_def)
  have "map pr_account (map ?u (db_policy_blobs s)) = map pr_account (db_policy_blobs s)" by simp
  then have "distinct (map pr_account rows)"
    using dist up by (fastforce simp: upsert_policy_def simp del: map_map split: if_splits)
  then have inv': "sql_inv s'" using inv by (simp add: sql_inv_def s')
  have pol: "a_policy (sql_view s) a = map_option (\<lambda>r. (pr_version r, Some (pr_blob r)))
      (find (\<lambda>r. pr_account r = a) (db_policy_blobs s))" for a by (simp add: sql_view_def)
  have "a_policy (sql_view s') a = a_policy (abs_put_policy (sql_view s) acc ver (Some blob)) a" for a
  proof (cases "find (\<lambda>r. pr_account r = acc) (db_policy_blobs s)")
    case None
    then have "rows = db_policy_blobs s @ [\<lparr>pr_account = acc, pr_version = ver, pr_blob = blob\<rparr>]"
      using up by (auto simp: upsert_policy_def find_key_None split: if_splits)
    then show ?thesis
      using None by (cases "find (\<lambda>r. pr_account r = a) (db_policy_blobs s)")
        (auto simp: s' sql_view_def abs_put_policy_def find_snoc)
  next
    case (Some r0)
    then have "\<exists>r\<in>set (db_policy_blobs s). pr_account r = acc"
      using dist by (auto simp: find_key_Some)
    then have m: "rows = map ?u (db_policy_blobs s)"
      using up by (simp add: upsert_policy_def)
    have "a_policy (sql_view s') a = map_option (\<lambda>r. (pr_version (?u r), Some (pr_blob (?u r))))
        (find (\<lambda>r. pr_account r = a) (db_policy_blobs s))"
      by (simp add: s' sql_view_def m fm option.map_comp comp_def)
    moreover have "\<dots> = (if a = acc then Some (if pr_version r0 < ver then (ver, Some blob)
        else (pr_version r0, Some (pr_blob r0))) else a_policy (sql_view s) a)"
    proof (cases "a = acc")
      case True
      have "pr_account r0 = acc" using Some dist by (simp add: find_key_Some)
      then show ?thesis using Some True by simp
    next
      case False
      have "pr_account r \<noteq> acc" if "find (\<lambda>r. pr_account r = a) (db_policy_blobs s) = Some r" for r
        using that dist False by (simp add: find_key_Some)
      then show ?thesis using False
        by (cases "find (\<lambda>r. pr_account r = a) (db_policy_blobs s)") (simp_all add: pol)
    qed
    ultimately show ?thesis using Some by (simp add: abs_put_policy_def pol)
  qed
  moreover have "a_keys (sql_view s') = a_keys (sql_view s)" "a_hash (sql_view s') = a_hash (sql_view s)"
    by (simp_all add: sql_view_def s')
  ultimately show ?thesis
    using inv' by (intro conjI abs_store.equality) (auto simp: fun_eq_iff)
qed

lemma origin_in_texts_iff:
  "origin_in_texts org ts \<longleftrightarrow> (\<exists>t\<in>set ts. org \<in> set (decodeOrigins t))"
  by (induction org ts rule: origin_in_texts.induct) auto

lemma sql_allowed_iff:
  "sql_inv s \<Longrightarrow> abs_allowed (sql_view s) org
     \<longleftrightarrow> origin_in_texts org (filter (\<lambda>t. t \<noteq> ''[]'') (map ar_allowed_origins (db_api_keys s)))"
proof -
  assume inv: "sql_inv s"
  have "abs_allowed (sql_view s) org
      \<longleftrightarrow> (\<exists>r\<in>set (db_api_keys s). org \<in> set (decodeOrigins (ar_allowed_origins r)))"
  proof
    assume "abs_allowed (sql_view s) org"
    then obtain kid k where "a_keys (sql_view s) kid = Some k" "org \<in> set (k_AllowedOrigins k)"
      by (auto simp: abs_allowed_def)
    then show "\<exists>r\<in>set (db_api_keys s). org \<in> set (decodeOrigins (ar_allowed_origins r))"
      using sql_key_Some(1) [OF inv] by (auto simp: row_key_def)
  next
    assume "\<exists>r\<in>set (db_api_keys s). org \<in> set (decodeOrigins (ar_allowed_origins r))"
    then obtain r where r: "r \<in> set (db_api_keys s)" "org \<in> set (k_AllowedOrigins (row_key r))"
      by (auto simp: row_key_def)
    then have "a_keys (sql_view s) (ar_id r) = Some (row_key r)"
      using sql_key_Some(1) [OF inv] by blast
    then show "abs_allowed (sql_view s) org" using r(2) unfolding abs_allowed_def by blast
  qed
  moreover have "decodeOrigins ''[]'' = []" by (simp add: decodeOrigins_def)
  ultimately show ?thesis
    unfolding origin_in_texts_iff by (simp add: Bex_def image_iff) (metis empty_iff list.set(1))
qed

lemma decode_marshal:
  assumes "list_all utf8_valid os"
  shows "decodeOrigins (marshal_strings os) = os"
proof (cases "os = []")
  case False
  then have "marshal_strings os \<noteq> ''[]''" "marshal_strings os \<noteq> []"
    by (cases os; simp add: marshal_string_def)+
  then show ?thesis
    using unmarshal_marshal [of os] assms by (simp add: decodeOrigins_def list_all_iff)
qed (simp add: decodeOrigins_def)

subsection \<open>The contract\<close>

lemma sql_up_tail: "sql_up s \<Longrightarrow> sql_up (s\<lparr>db_faults := stl (db_faults s)\<rparr>)"
  using sql_up_step [of s] by (simp add: sql_up_def)

lemma sql_up_frame [simp]:
  "sql_up (s\<lparr>db_api_keys := x\<rparr>) = sql_up s" "sql_up (s\<lparr>db_policy_blobs := y\<rparr>) = sql_up s"
  by (simp_all add: sql_up_def)

lemma sql_register_contract:
  assumes inv: "sql_inv s" and run: "sql_RegisterAPIKey s kid acc h = (r, s')"
  shows "sql_inv s' \<and> (sql_up s \<longrightarrow> sql_up s')
    \<and> (sql_view s' = (if r = None then abs_register (sql_view s) kid acc h else sql_view s))
    \<and> (sql_up s \<longrightarrow> r = (if taken (sql_view s) kid h then sql_dup_err s else None))"
proof -
  let ?s = "s\<lparr>db_faults := stl (db_faults s)\<rparr>"
  have up: "sql_up s \<Longrightarrow> sql_up ?s" "sql_up s \<Longrightarrow> shd (db_faults s) = None"
    using sql_up_tail sql_up_step(1) by blast+
  have inv': "sql_inv ?s" using inv by simp
  show ?thesis
  proof (cases "shd (db_faults s)")
    case (Some f)
    then show ?thesis using run inv up
      by (cases f) (auto simp: sql_RegisterAPIKey_def exec_db_def)
  next
    case None
    show ?thesis
    proof (cases "upsert_key kid acc h (db_api_keys s)")
      case none: None
      then obtain row where "row \<in> set (db_api_keys s)" "ar_key_hash row = h" "ar_id row \<noteq> kid"
        by (auto simp: upsert_key_def split: if_splits)
      then have "taken (sql_view s) kid h"
        using sql_key_Some(2) [OF inv] unfolding taken_iff by blast
      then show ?thesis using none None run inv up by (auto simp: sql_RegisterAPIKey_def exec_db_def sql_dup_err_def)
    next
      case (Some rows)
      then have res: "r = None" "s' = ?s\<lparr>db_api_keys := rows\<rparr>"
        using None run by (auto simp: sql_RegisterAPIKey_def exec_db_def)
      have "upsert_key kid acc h (db_api_keys ?s) = Some rows" using Some by simp
      moreover have "\<not> taken (sql_view s) kid h"
        using Some sql_key_Some(2) [OF inv] by (auto simp: upsert_key_def taken_iff split: if_splits)
      ultimately show ?thesis using upsert_key_view [OF inv', of kid acc h rows] res up by simp
    qed
  qed
qed

lemma sql_revoke_contract:
  assumes inv: "sql_inv s" and run: "sql_RevokeAPIKey s acc kid = (r, s')"
  shows "sql_inv s' \<and> (sql_up s \<longrightarrow> sql_up s')
    \<and> (sql_view s' = (if r = None then abs_revoke (sql_view s) kid else sql_view s))
    \<and> (r = None \<longrightarrow> owned (sql_view s) kid acc)
    \<and> (sql_up s \<longrightarrow> r = (if owned (sql_view s) kid acc then None else Some ErrNotFound))"
proof -
  let ?P = "\<lambda>r. ar_id r = kid \<and> ar_owner_account r = acc"
  let ?s = "s\<lparr>db_faults := stl (db_faults s)\<rparr>"
  let ?t = "?s\<lparr>db_api_keys := filter (\<lambda>r. \<not> ?P r) (db_api_keys ?s)\<rparr>"
  have up: "sql_up s \<Longrightarrow> sql_up ?s" "sql_up s \<Longrightarrow> shd (db_faults s) = None"
    using sql_up_tail sql_up_step(1) by blast+
  have own: "owned (sql_view s) kid acc \<longleftrightarrow> filter ?P (db_api_keys s) \<noteq> []"
    using owned_row [OF inv] by (auto simp: filter_empty_conv)
  show ?thesis
  proof (cases "shd (db_faults s)")
    case (Some f)
    then show ?thesis using run inv up
      by (cases f) (auto simp: sql_RevokeAPIKey_def exec_db_def found_or_err_def)
  next
    case None
    show ?thesis
    proof (cases "owned (sql_view s) kid acc")
      case True
      then have res: "r = None" "s' = ?t" using None run own
        by (auto simp: sql_RevokeAPIKey_def exec_db_def found_or_err_def delete_rows_def)
      have "sql_inv ?s" "owned (sql_view ?s) kid acc" using inv True by simp_all
      from delete_row_view [OF this refl] show ?thesis using res True up by simp
    next
      case False
      then have e: "filter ?P (db_api_keys s) = []" using own by blast
      then have "filter (\<lambda>r. \<not> ?P r) (db_api_keys s) = db_api_keys s"
        by (auto simp: filter_empty_conv intro: filter_True)
      then have "r = Some ErrNotFound" "s' = ?s" using e None run
        by (auto simp: sql_RevokeAPIKey_def exec_db_def found_or_err_def delete_rows_def)
      then show ?thesis using False inv up by simp
    qed
  qed
qed

lemma sql_resolve_abs:
  "sql_inv s \<Longrightarrow> abs_resolve (sql_view s) h
     = map_option row_key (find (\<lambda>r. ar_key_hash r = h) (db_api_keys s))"
proof -
  assume inv: "sql_inv s"
  show ?thesis
  proof (cases "find (\<lambda>r. ar_key_hash r = h) (db_api_keys s)")
    case (Some r)
    then have "r \<in> set (db_api_keys s)" using inv by (simp add: sql_inv_def find_key_Some)
    then have "a_keys (sql_view s) (ar_id r) = Some (row_key r)" using sql_key_Some(1) [OF inv] by blast
    then show ?thesis using Some by (simp add: abs_resolve_def sql_view_keys)
  qed (simp add: abs_resolve_def sql_view_keys)
qed

lemma sql_resolve_contract:
  assumes inv: "sql_inv s" and run: "sql_ResolveAPIKey s p = (q, s')"
  shows "sql_inv s' \<and> (sql_up s \<longrightarrow> sql_up s') \<and> sql_view s' = sql_view s
    \<and> (\<forall>k. q = Inr k \<longrightarrow> abs_resolve (sql_view s) (hashSecret p) = Some k)
    \<and> (sql_up s \<longrightarrow> q = (case abs_resolve (sql_view s) (hashSecret p) of
          None \<Rightarrow> Inl ErrNotFound | Some k \<Rightarrow> Inr k))"
proof (cases "shd (db_faults s)")
  case (Some f)
  then show ?thesis using run inv sql_up_step(1) [of s]
    by (cases f) (auto simp: sql_ResolveAPIKey_def exec_db_def)
next
  case None
  then show ?thesis using run inv sql_up_tail [of s] unfolding sql_resolve_abs [OF inv]
    by (cases "find (\<lambda>r. ar_key_hash r = hashSecret p) (db_api_keys s)")
       (auto simp: sql_ResolveAPIKey_def exec_db_def row_key_def)
qed

lemma sql_allowed_contract:
  assumes inv: "sql_inv s" and run: "sql_OriginAllowed s org = ((b, e), s')"
  shows "sql_inv s' \<and> (sql_up s \<longrightarrow> sql_up s') \<and> sql_view s' = sql_view s
    \<and> (b \<longrightarrow> abs_allowed (sql_view s) org)
    \<and> (sql_up s \<longrightarrow> e = None \<and> b = abs_allowed (sql_view s) org)"
proof -
  let ?s = "s\<lparr>db_faults := stl (db_faults s)\<rparr>"
  let ?ts = "filter (\<lambda>t. t \<noteq> ''[]'') (map ar_allowed_origins (db_api_keys s))"
  have up: "sql_up s \<Longrightarrow> shd (db_faults s) = None" "sql_up s \<Longrightarrow> shd (stl (db_faults s)) = None"
    "sql_up s \<Longrightarrow> sql_up ?s" "sql_up s \<Longrightarrow> sql_up (s\<lparr>db_faults := stl (stl (db_faults s))\<rparr>)"
    using sql_up_step(1) [of s] sql_up_tail [of s] sql_up_step(1) [of ?s] sql_up_tail [of ?s] by auto
  have prefix: "origin_in_texts org (take n ?ts) \<Longrightarrow> origin_in_texts org ?ts" for n
    unfolding origin_in_texts_iff by (meson in_set_takeD)
  show ?thesis
  proof (cases "shd (db_faults s)")
    case (Some f)
    then show ?thesis using run inv up
      by (cases f) (auto simp: sql_OriginAllowed_def exec_db_def)
  next
    case None
    then show ?thesis
      using run inv up prefix unfolding sql_allowed_iff [OF inv]
      by (auto simp: sql_OriginAllowed_def exec_db_def Let_def split: if_splits option.splits)
  qed
qed

lemma sql_put_policy_contract:
  assumes inv: "sql_inv s" and run: "sql_PutPolicy s acc ver blob = (r, s')"
  shows "sql_inv s' \<and> (sql_up s \<longrightarrow> sql_up s' \<and> r = (if blob = None then sql_nil_err s else None))
    \<and> (sql_view s' = (if r = None then abs_put_policy (sql_view s) acc ver blob else sql_view s))"
proof (cases "shd (db_faults s)")
  case (Some f)
  then show ?thesis using run inv sql_up_step(1) [of s]
    by (cases f) (auto simp: sql_PutPolicy_def exec_db_def)
next
  case None
  let ?s = "s\<lparr>db_faults := stl (db_faults s)\<rparr>"
  show ?thesis
  proof (cases blob)
    case nil: None
    then have "r = sql_nil_err s" "s' = ?s"
      using None run by (auto simp: sql_PutPolicy_def exec_db_def upsert_policy_def sql_nil_err_def)
    then show ?thesis using nil inv sql_up_tail [of s] by (simp add: sql_nil_err_def)
  next
    case (Some b)
    then obtain rows where up: "upsert_policy acc ver (Some b) (db_policy_blobs ?s) = Some rows"
      by (simp add: upsert_policy_def)
    then have "r = None" "s' = ?s\<lparr>db_policy_blobs := rows\<rparr>"
      using None run Some by (auto simp: sql_PutPolicy_def exec_db_def)
    then show ?thesis
      using upsert_policy_view [OF _ up refl] inv sql_up_tail [of s] Some by simp
  qed
qed

lemma sql_get_policy_contract:
  assumes inv: "sql_inv s" and run: "sql_GetPolicy s acc = ((ver, blob, found, e), s')"
  shows "sql_inv s' \<and> (sql_up s \<longrightarrow> sql_up s' \<and> e = None) \<and> sql_view s' = sql_view s
    \<and> (e = None \<longrightarrow> (case a_policy (sql_view s) acc of
           None \<Rightarrow> \<not> found | Some (v, b) \<Rightarrow> found \<and> ver = v \<and> blob = b))"
proof (cases "shd (db_faults s)")
  case (Some f)
  then show ?thesis using run inv sql_up_step(1) [of s]
    by (cases f) (auto simp: sql_GetPolicy_def exec_db_def)
next
  case None
  then show ?thesis using run inv sql_up_tail [of s]
    by (cases "find (\<lambda>r. pr_account r = acc) (db_policy_blobs s)")
       (auto simp: sql_GetPolicy_def exec_db_def sql_view_def)
qed

lemma sql_rebind_contract:
  assumes inv: "sql_inv s" and run: "sql_RebindAPIKey s kid old new = (r, s')"
  shows "sql_inv s' \<and> (sql_up s \<longrightarrow> sql_up s')
    \<and> sql_view s' = (if r = None then abs_rebind (sql_view s) kid new else sql_view s)
    \<and> (r = None \<longrightarrow> owned (sql_view s) kid old)
    \<and> (sql_up s \<longrightarrow> r = (if owned (sql_view s) kid old then None else Some ErrNotFound))"
  unfolding abs_rebind_def
  by (rule sql_update_contract [OF inv run [unfolded sql_RebindAPIKey_def]])
     (simp_all add: row_key_def)

lemma sql_origins_contract:
  assumes inv: "sql_inv s" and ok: "list_all utf8_valid os"
    and run: "sql_UpdateKeyOrigins s kid acc os = (r, s')"
  shows "sql_inv s' \<and> (sql_up s \<longrightarrow> sql_up s')
    \<and> sql_view s' = (if r = None then abs_origins (sql_view s) kid os else sql_view s)
    \<and> (r = None \<longrightarrow> owned (sql_view s) kid acc)
    \<and> (sql_up s \<longrightarrow> r = (if owned (sql_view s) kid acc then None else Some ErrNotFound))"
  unfolding abs_origins_def
  by (rule sql_update_contract [OF inv run [unfolded sql_UpdateKeyOrigins_def Let_def]])
     (simp_all add: row_key_def decode_marshal [OF ok])

lemma sqlite_ops [simp]:
  "RegisterAPIKey sqlite_store = sql_RegisterAPIKey" "RevokeAPIKey sqlite_store = sql_RevokeAPIKey"
  "ResolveAPIKey sqlite_store = sql_ResolveAPIKey" "RebindAPIKey sqlite_store = sql_RebindAPIKey"
  "UpdateKeyOrigins sqlite_store = sql_UpdateKeyOrigins"
  "OriginAllowed sqlite_store = sql_OriginAllowed"
  "PutPolicy sqlite_store = sql_PutPolicy" "GetPolicy sqlite_store = sql_GetPolicy"
  by (simp_all add: sqlite_store_def)

interpretation sq: store_contract sqlite_store hashSecret sql_view sql_inv sql_up utf8_valid sql_nil_err sql_dup_err
  by (unfold_locales, unfold sqlite_ops)
     (fact sql_view_inv sql_register_contract sql_rebind_contract sql_origins_contract
       sql_revoke_contract sql_resolve_contract sql_allowed_contract sql_put_policy_contract
       sql_get_policy_contract)+

end
