(* ===== verification/Store_Props.thy ===== *)
theory Store_Props
  imports Store_Sqlite
begin

text \<open>
  What the two stores guarantee their callers: the facts of \<open>store_contract\<close> at its two
  interpretations, and how the stores compare with one another. The sample states serve the closed
  instances.
\<close>

definition mem_sample :: memStore where
  "mem_sample = \<lparr>ms_keys = [(''k1'', \<lparr>k_ID = ''k1'', k_OwnerAccount = ''acc'', k_AllowedOrigins = []\<rparr>)],
     ms_byHash = [(hashSecret ''old'', ''k1'')], ms_policy = []\<rparr>"

definition sql_sample :: sqliteStore where
  "sql_sample = \<lparr>db_api_keys = [\<lparr>ar_id = ''k1'', ar_owner_account = ''acc'',
       ar_key_hash = hashSecret ''old'', ar_allowed_origins = ''[]''\<rparr>],
     db_policy_blobs = [], db_faults = sconst None, db_unique_msg = ''UNIQUE'', db_notnull_msg = ''NOT NULL''\<rparr>"

lemma sample_hash: "hashSecret s \<noteq> ''h2''"
proof
  assume "hashSecret s = ''h2''"
  then have "length (hashSecret s) = length ''h2''" by (rule arg_cong)
  then show False by simp
qed

lemma sample_ok:
  "mem_inv mem_sample" "sql_inv sql_sample" "sql_up sql_sample" "mem_view mem_sample = sql_view sql_sample"
  "a_hash (mem_view mem_sample) = [hashSecret ''old'' \<mapsto> ''k1'']"
  "a_hash (sql_view sql_sample) = [hashSecret ''old'' \<mapsto> ''k1'']"
  by (auto simp: mem_inv_def mem_sample_def mem_view_def abs_inv_def sql_inv_def sql_sample_def
      sql_up_def sql_view_def row_key_def decodeOrigins_def fun_eq_iff split: if_splits)

lemma sample_owned: "owned (mem_view mem_sample) ''k1'' ''acc''" "owned (sql_view sql_sample) ''k1'' ''acc''"
  by (simp_all add: owned_def mem_view_def mem_sample_def sql_view_def sql_sample_def row_key_def)

lemma sample_resolve:
  "fst (mem_ResolveAPIKey mem_sample ''old'')
     = Inr \<lparr>k_ID = ''k1'', k_OwnerAccount = ''acc'', k_AllowedOrigins = []\<rparr>"
  "fst (sql_ResolveAPIKey sql_sample ''old'')
     = Inr \<lparr>k_ID = ''k1'', k_OwnerAccount = ''acc'', k_AllowedOrigins = []\<rparr>"
  by (simp_all add: mem_ResolveAPIKey_def mem_sample_def sql_ResolveAPIKey_def exec_db_def
      sql_sample_def decodeOrigins_def)

text \<open>
  In-memory rotation. Registering hash \<open>h\<close> for a key id always succeeds; afterwards exactly
  the plaintexts with that hash open the key, with the new owner and the origins it had, every
  plaintext that opened the key before is refused, and every other plaintext resolves as before.
\<close>

theorem mem_rotation:
  assumes "mem_inv s" "\<forall>kid'. a_hash (mem_view s) h = Some kid' \<longrightarrow> kid' = kid"
    and "mem_RegisterAPIKey s kid acc h = (r, s1)"
  shows "r = None \<and> (\<forall>p. fst (mem_ResolveAPIKey s1 p) =
     (if hashSecret p = h
      then Inr \<lparr>k_ID = kid, k_OwnerAccount = acc, k_AllowedOrigins = origins_of (mem_view s) kid\<rparr>
      else if a_hash (mem_view s) (hashSecret p) = Some kid then Inl ErrNotFound
      else fst (mem_ResolveAPIKey s p)))"
  using mem.rotation [of s h kid acc r s1] assms by simp

theorem mem_rotation_witness:
  "fst (mem_ResolveAPIKey mem_sample ''old'') \<noteq> Inl ErrNotFound
   \<and> fst (mem_ResolveAPIKey (snd (mem_RegisterAPIKey mem_sample ''k1'' ''acc'' ''h2'')) ''old'')
       = Inl ErrNotFound"
  using mem_rotation [of mem_sample "''h2''" "''k1''" "''acc''", OF sample_ok(1) _ surjective_pairing]
  by (simp add: sample_ok sample_hash sample_resolve)

text \<open>
  SQLite rotation: the same for the SQLite store, as long as no statement fails in the driver.
\<close>

theorem sql_rotation:
  assumes "sql_inv s" "sql_up s" "\<forall>kid'. a_hash (sql_view s) h = Some kid' \<longrightarrow> kid' = kid"
    and "sql_RegisterAPIKey s kid acc h = (r, s1)"
  shows "r = None \<and> (\<forall>p. fst (sql_ResolveAPIKey s1 p) =
     (if hashSecret p = h
      then Inr \<lparr>k_ID = kid, k_OwnerAccount = acc, k_AllowedOrigins = origins_of (sql_view s) kid\<rparr>
      else if a_hash (sql_view s) (hashSecret p) = Some kid then Inl ErrNotFound
      else fst (sql_ResolveAPIKey s p)))"
  using sq.rotation [of s h kid acc r s1] assms by simp

theorem sql_rotation_witness:
  "fst (sql_ResolveAPIKey sql_sample ''old'') \<noteq> Inl ErrNotFound
   \<and> fst (sql_ResolveAPIKey (snd (sql_RegisterAPIKey sql_sample ''k1'' ''acc'' ''h2'')) ''old'')
       = Inl ErrNotFound"
  using sql_rotation [of sql_sample "''h2''" "''k1''" "''acc''", OF sample_ok(2,3) _ surjective_pairing]
  by (simp add: sample_ok sample_hash sample_resolve)

text \<open>
  Rebinding a key of the account it belongs to keeps its secret, id and origins: whatever a
  plaintext opened before it opens still, with the new owner if it is the rebound key.
\<close>

theorem sql_rebind_keeps_secret:
  assumes "sql_inv s" "sql_up s" "owned (sql_view s) kid old"
    and "sql_RebindAPIKey s kid old new = (r, s1)"
  shows "r = None \<and> (\<forall>p. fst (sql_ResolveAPIKey s1 p) =
     (case fst (sql_ResolveAPIKey s p) of
        Inl e \<Rightarrow> Inl e
      | Inr k \<Rightarrow> Inr (if a_hash (sql_view s) (hashSecret p) = Some kid
                      then k\<lparr>k_OwnerAccount := new\<rparr> else k)))"
  using sq.rebind_keeps_secret [of s kid old new r s1] assms by simp

theorem sql_rebind_keeps_secret_witness:
  "fst (sql_ResolveAPIKey (snd (sql_RebindAPIKey sql_sample ''k1'' ''acc'' ''acc2'')) ''old'')
     = Inr \<lparr>k_ID = ''k1'', k_OwnerAccount = ''acc2'', k_AllowedOrigins = []\<rparr>"
  using sql_rebind_keeps_secret [of sql_sample "''k1''" "''acc''" "''acc2''",
      OF sample_ok(2,3) sample_owned(2) surjective_pairing]
  by (simp add: sample_ok sample_resolve)

text \<open>
  Revocation is immediate and precise: after the owner revokes a key no plaintext opens it, and
  every plaintext of another key resolves as before.
\<close>

theorem sql_revoked_key_refused:
  assumes "sql_inv s" "sql_up s" "owned (sql_view s) kid acc"
    and "sql_RevokeAPIKey s acc kid = (r, s1)"
  shows "r = None \<and> (\<forall>p. fst (sql_ResolveAPIKey s1 p) =
     (if a_hash (sql_view s) (hashSecret p) = Some kid then Inl ErrNotFound
      else fst (sql_ResolveAPIKey s p)))"
  using sq.revoked_stops [of s kid acc r s1] assms by simp

theorem sql_revoked_key_refused_witness:
  "fst (sql_ResolveAPIKey (snd (sql_RevokeAPIKey sql_sample ''acc'' ''k1'')) ''old'') = Inl ErrNotFound"
  using sql_revoked_key_refused [of sql_sample "''k1''" "''acc''",
      OF sample_ok(2,3) sample_owned(2) surjective_pairing]
  by (simp add: sample_ok)

text \<open>
  Policy writes never go backwards: after any sequence of writes for an account, what is read
  back is the first write with the highest version (counting the policy that was there), and every
  write and the read succeed. (A write without a blob is another matter: \<open>nil_blob_diverges\<close>.)
\<close>

theorem sql_policy_newest:
  assumes "sql_inv s" "sql_up s" "list_all (\<lambda>p. snd p \<noteq> None) ps"
    and "put_policies sqlite_store s acc ps = (rs, s1)"
    and "sql_GetPolicy s1 acc = ((ver, blob, found, e), s2)"
  shows "(\<forall>r\<in>set rs. r = None) \<and> e = None
    \<and> newest (a_policy (sql_view s) acc) ps = (if found then Some (ver, blob) else None)"
  using sq.policies_newest [OF assms(1-4)] sq.policy_kept_is_newest [OF assms(1-4), of ver blob found e s2]
    assms(5) by (simp split: if_splits)

theorem sql_policy_newest_witness:
  "fst (sql_GetPolicy (snd (put_policies sqlite_store sql_sample ''acc'' [(3, Some [1]), (2, Some [7]), (3, Some [9])])) ''acc'')
     = (3, Some [1], True, None)"
proof -
  let ?ps = "[(3, Some [1]), (2, Some [7]), (3, Some [9])] :: (int \<times> blob) list"
  obtain rs s1 where p: "put_policies sqlite_store sql_sample ''acc'' ?ps = (rs, s1)" by fastforce
  obtain ver blob found e s2 where g: "sql_GetPolicy s1 ''acc'' = ((ver, blob, found, e), s2)"
    by (metis prod.exhaust)
  have "a_policy (sql_view sql_sample) ''acc'' = None" by (simp add: sql_view_def sql_sample_def)
  moreover have "list_all (\<lambda>p. snd p \<noteq> None) ?ps" by simp
  ultimately show ?thesis
    using sql_policy_newest [OF sample_ok(2,3) _ p g] p g by (simp split: if_splits)
qed

text \<open>
  A list of origins survives the database column: decoding the JSON text that
  \<^verbatim>\<open>UpdateKeyOrigins\<close> writes gives the list back, for all texts that are valid UTF-8.
\<close>

theorem origins_column_roundtrip:
  assumes "list_all utf8_valid os"
  shows "decodeOrigins (marshal_strings os) = os"
  using assms by (rule decode_marshal)

theorem origins_column_roundtrip_witness:
  "decodeOrigins (marshal_strings [''https://a'', ''<&>'']) = [''https://a'', ''<&>'']"
  by (rule origins_column_roundtrip) (simp add: utf8_valid.simps rune_len.simps)

text \<open>
  C24. The stores are interchangeable on programs that register no hash under two key ids, put no policy
  without a blob and name only origins that are valid UTF-8: started from the same content, they give
  every such sequence of store calls the same answers, as long as no SQLite statement fails in the
  driver. What happens on the calls left out is in \<open>duplicate_hash_diverges\<close> and \<open>nil_blob_diverges\<close>.
\<close>

theorem stores_agree:
  assumes "mem_inv m" "sql_inv q" "sql_up q" "mem_view m = sql_view q"
    and "cmds_ok utf8_valid hashSecret (sql_view q) cs"
  shows "fst (run_cmds mem_store m cs) = fst (run_cmds sqlite_store q cs)"
proof -
  have "cmds_ok (\<lambda>_. True) hashSecret (mem_view m) cs"
    using assms(4,5) cmds_ok_mono [of utf8_valid hashSecret "sql_view q" cs "\<lambda>_. True"] by simp
  then show ?thesis
    using mem.run_refines [OF assms(1)] sq.run_refines [OF assms(2,3,5)] assms(4) by simp
qed

theorem stores_agree_witness:
  "fst (run_cmds mem_store mem_sample
      [CRegister ''k1'' ''acc'' ''h2'', CResolve ''old'', COrigins ''k1'' ''acc'' [''https://a''],
       CAllowed ''https://a'', CRevoke ''acc'' ''k1'', CAllowed ''https://a'', CPut ''acc'' 2 (Some [7]),
       CPut ''acc'' 1 (Some [9]), CGet ''acc''])
   = fst (run_cmds sqlite_store sql_sample
      [CRegister ''k1'' ''acc'' ''h2'', CResolve ''old'', COrigins ''k1'' ''acc'' [''https://a''],
       CAllowed ''https://a'', CRevoke ''acc'' ''k1'', CAllowed ''https://a'', CPut ''acc'' 2 (Some [7]),
       CPut ''acc'' 1 (Some [9]), CGet ''acc''])"
  by (rule stores_agree [OF sample_ok(1-4)])
     (auto simp: sample_ok utf8_valid.simps rune_len.simps split: option.splits)

text \<open>
  They are not interchangeable on a hash that already belongs to another key id: SQLite refuses
  the registration on its UNIQUE constraint and changes nothing, while the in-memory store accepts it
  and re-points the hash, so that the plaintext now opens the other key.
\<close>

theorem duplicate_hash_diverges:
  assumes "mem_inv m" "sql_inv q" "sql_up q" "mem_view m = sql_view q"
    and "a_hash (sql_view q) h = Some kid'" "kid' \<noteq> kid"
    and "mem_RegisterAPIKey m kid acc h = (rm, m1)" "sql_RegisterAPIKey q kid acc h = (rq, q1)"
  shows "rq = Some (GoErr (db_unique_msg q)) \<and> sql_view q1 = sql_view q
    \<and> rm = None \<and> a_hash (mem_view m1) h = Some kid"
proof -
  obtain r where "r \<in> set (db_api_keys q)" "ar_key_hash r = h" "ar_id r \<noteq> kid"
    using assms(5,6) unfolding sql_key_Some(2) [OF assms(2)] by blast
  then have "upsert_key kid acc h (db_api_keys q) = None" by (auto simp: upsert_key_def)
  then have "rq = Some (GoErr (db_unique_msg q)) \<and> sql_view q1 = sql_view q"
    using assms(8) sql_up_step(1) [OF assms(3)] by (auto simp: sql_RegisterAPIKey_def exec_db_def)
  moreover have "rm = None" using assms(7) by (auto simp: mem_RegisterAPIKey_def Let_def)
  moreover have "mem_view m1 = abs_register (mem_view m) kid acc h"
    using mem.register [OF assms(1), of kid acc h rm m1] assms(7) \<open>rm = None\<close> by simp
  ultimately show ?thesis by (simp add: abs_register_def)
qed

theorem duplicate_hash_diverges_witness:
  "fst (sql_RegisterAPIKey sql_sample ''k2'' ''acc'' (hashSecret ''old'')) = Some (GoErr ''UNIQUE'')
   \<and> fst (mem_RegisterAPIKey mem_sample ''k2'' ''acc'' (hashSecret ''old'')) = None"
  using duplicate_hash_diverges [of mem_sample sql_sample "hashSecret ''old''" "''k1''" "''k2''" "''acc''",
      OF sample_ok(1-4) _ _ surjective_pairing surjective_pairing]
  by (simp add: sample_ok) (simp add: sql_sample_def)

text \<open>
  Nor are they on a policy without a blob: SQLite refuses the NULL and keeps the policy it has, while the
  in-memory store accepts it, and forgets the older blob if the version is newer.
\<close>

theorem nil_blob_diverges:
  assumes "mem_inv m" "sql_inv q" "sql_up q" "mem_view m = sql_view q"
    and "mem_PutPolicy m acc ver None = (rm, m1)" "sql_PutPolicy q acc ver None = (rq, q1)"
  shows "rq = Some (GoErr (db_notnull_msg q)) \<and> sql_view q1 = sql_view q
    \<and> rm = None \<and> a_policy (mem_view m1) acc = newest (a_policy (sql_view q) acc) [(ver, None)]"
  using sq.put_policy [OF assms(2), of acc ver None rq q1] mem.put_policy [OF assms(1), of acc ver None rm m1]
    abs_put_policy_newest [of "mem_view m" acc "(ver, None)"] assms(3-6)
  by (simp add: sql_nil_err_def del: newest.simps)

theorem nil_blob_diverges_witness:
  "fst (sql_PutPolicy sql_sample ''acc'' 4 None) = Some (GoErr ''NOT NULL'')
   \<and> fst (mem_PutPolicy mem_sample ''acc'' 4 None) = None"
  using nil_blob_diverges [OF sample_ok(1-4) surjective_pairing surjective_pairing, of "''acc''" 4]
  by (simp add: sql_sample_def)

end
