(* ===== verification/Protocol.thy ===== *)
theory Protocol
  imports Relay_Prelude
begin

text \<open>
  Package \<^verbatim>\<open>internal/protocol\<close>: the wire types shared by the relay, the desktop agent and external
  callers. A Go struct is a record with the same fields (prefixed, because Isabelle's field names are
  global), a pointer to a payload is an option, a slice a list. Times are nanoseconds since 1970, as
  integers; a time that comes from a device keeps the offset of its zone, in minutes.
  The discriminating types \<^verbatim>\<open>EnvelopeType\<close>, \<^verbatim>\<open>TxKind\<close> and \<^verbatim>\<open>TxStatus\<close> are strings in Go, so an
  inbound message can carry any text there; they are strings here too.
\<close>

type_synonym time = int
type_synonym stamp = "time \<times> int"

text \<open>\<^verbatim>\<open>time.Time{}\<close>: the first of January of the year 1.\<close>

definition zero_time :: time where
  "zero_time = - 62135596800 * 10 ^ 9"

definition ProtocolVersion :: int where
  "ProtocolVersion = 2"

definition TypeHello :: string where "TypeHello = ''hello''"
definition TypeChallenge :: string where "TypeChallenge = ''challenge''"
definition TypeAuth :: string where "TypeAuth = ''auth''"
definition TypeWelcome :: string where "TypeWelcome = ''welcome''"
definition TypeRequest :: string where "TypeRequest = ''request''"
definition TypeResult :: string where "TypeResult = ''result''"
definition TypeWithdraw :: string where "TypeWithdraw = ''withdraw''"
definition TypeControl :: string where "TypeControl = ''control''"
definition TypeQuery :: string where "TypeQuery = ''query''"
definition TypeQueryResult :: string where "TypeQueryResult = ''query_result''"
definition TypeError :: string where "TypeError = ''error''"

lemmas envelope_types [relay_simps] =
  TypeHello_def TypeChallenge_def TypeAuth_def TypeWelcome_def TypeRequest_def TypeResult_def
  TypeWithdraw_def TypeControl_def TypeQuery_def TypeQueryResult_def TypeError_def

record Query =
  q_Op :: string
  q_ContactID :: string
  q_Account :: string
  q_Nonce :: string

record QueryResult =
  qr_Error :: string
  qr_Data :: string

record Hello =
  h_DeviceID :: string
  h_Accounts :: "string list"

record Challenge =
  ch_Nonce :: "byte list"

record Auth =
  au_Signatures :: "(string \<times> string) list"  \<comment> \<open>a Go map: account address to hex signature\<close>

record Welcome =
  w_Accounts :: "string list"

record Control =
  c_Op :: string
  c_CorrID :: string
  c_Account :: string
  c_KeyID :: string
  c_Hash :: string
  c_AllowedOrigins :: "string list"
  c_Version :: int
  c_Blob :: blob
  c_Error :: string

definition KindSend :: string where
  "KindSend = ''send''"

record TxRequest =
  tr_ID :: string
  tr_ContactID :: string
  tr_ContactName :: string
  tr_Kind :: string
  tr_Account :: string
  tr_Counterparty :: string
  tr_Destination :: string
  tr_AmountRaw :: string
  tr_Memo :: string
  tr_Nonce :: string
  tr_CreatedAt :: time
  tr_ActionOverride :: string

record SignedBlock =
  sb_Type :: string
  sb_Account :: string
  sb_Previous :: string
  sb_Representative :: string
  sb_Balance :: string
  sb_Link :: string
  sb_Signature :: string
  sb_Work :: string
  sb_Subtype :: string

definition StatusPending :: string where "StatusPending = ''pending''"
definition StatusSigned :: string where "StatusSigned = ''signed''"
definition StatusBroadcast :: string where "StatusBroadcast = ''broadcast''"
definition StatusRejected :: string where "StatusRejected = ''rejected''"
definition StatusFailed :: string where "StatusFailed = ''failed''"

record TxResult =
  res_RequestID :: string
  res_Status :: string
  res_BlockHash :: string
  res_SignedBlock :: "SignedBlock option"
  res_Reason :: string
  res_DecidedAt :: stamp

record Envelope =
  e_Version :: int
  e_Type :: string
  e_ID :: string
  e_Hello :: "Hello option"
  e_Challenge :: "Challenge option"
  e_Auth :: "Auth option"
  e_Welcome :: "Welcome option"
  e_Request :: "TxRequest option"
  e_Result :: "TxResult option"
  e_Control :: "Control option"
  e_Query :: "Query option"
  e_QueryResult :: "QueryResult option"
  e_Error :: string

text \<open>The zero values of the structs that the code builds field by field.\<close>

definition zero_Envelope :: Envelope where
  "zero_Envelope = \<lparr>e_Version = 0, e_Type = [], e_ID = [], e_Hello = None, e_Challenge = None,
     e_Auth = None, e_Welcome = None, e_Request = None, e_Result = None, e_Control = None,
     e_Query = None, e_QueryResult = None, e_Error = []\<rparr>"

definition zero_Control :: Control where
  "zero_Control = \<lparr>c_Op = [], c_CorrID = [], c_Account = [], c_KeyID = [], c_Hash = [],
     c_AllowedOrigins = [], c_Version = 0, c_Blob = None, c_Error = []\<rparr>"

definition zero_TxRequest :: TxRequest where
  "zero_TxRequest = \<lparr>tr_ID = [], tr_ContactID = [], tr_ContactName = [], tr_Kind = [],
     tr_Account = [], tr_Counterparty = [], tr_Destination = [], tr_AmountRaw = [], tr_Memo = [],
     tr_Nonce = [], tr_CreatedAt = zero_time, tr_ActionOverride = []\<rparr>"

text \<open>The frame of every message the relay sends.\<close>

abbreviation envelope :: "string \<Rightarrow> Envelope" where
  "envelope ty \<equiv> zero_Envelope\<lparr>e_Version := ProtocolVersion, e_Type := ty\<rparr>"

end
