(* ===== verification/World.thy ===== *)
theory World
  imports Protocol
begin

text \<open>
  The outside world as a state: the random bytes and the clock readings still to come, for each
  websocket write to come whether it succeeds, and the frames that have been written. The functions
  are the ones of \<^verbatim>\<open>cmd/relay/config.go\<close> and \<^verbatim>\<open>cmd/relay/http.go\<close> that draw on it. A failing
  \<^verbatim>\<open>rand.Read\<close> would panic; since Go 1.24 it never returns an error, and here it always succeeds.
\<close>

record World =
  wd_entropy :: entropy
  wd_clock :: "time stream"
  wd_writes :: "bool stream"
  wd_sent :: "(nat \<times> Envelope) list"    \<comment> \<open>connection and frame, in order\<close>

definition time_Now :: "World \<Rightarrow> time \<times> World" where
  "time_Now w = (shd (wd_clock w), w\<lparr>wd_clock := stl (wd_clock w)\<rparr>)"

definition randomBytes :: "nat \<Rightarrow> World \<Rightarrow> byte list \<times> World" where
  "randomBytes n w = (let (b, e) = rand_Read n (wd_entropy w) in (b, w\<lparr>wd_entropy := e\<rparr>))"

definition randomSecret :: "nat \<Rightarrow> World \<Rightarrow> string \<times> World" where
  "randomSecret nbytes w =
     (let (b, e) = rand_Read nbytes (wd_entropy w) in (EncodeToString b, w\<lparr>wd_entropy := e\<rparr>))"

text \<open>One write to a websocket; \<open>True\<close> is success.\<close>

definition ws_WriteJSON :: "nat \<Rightarrow> Envelope \<Rightarrow> World \<Rightarrow> bool \<times> World" where
  "ws_WriteJSON ws v w =
     (let w' = w\<lparr>wd_writes := stl (wd_writes w)\<rparr> in
      if shd (wd_writes w) then (True, w'\<lparr>wd_sent := wd_sent w @ [(ws, v)]\<rparr>) else (False, w'))"

end
