(* ===== verification/Hub.thy ===== *)
theory Hub
  imports World
begin

text \<open>
  File \<^verbatim>\<open>cmd/relay/hub.go\<close>: the registry of connected devices and
  the correlation of requests with the results devices report. Here every method runs to its end;
  what other goroutines do to the hub while a request waits is an argument, the list of hub calls
  that happen in that time. The theory \<open>Hub_Concurrent\<close> interleaves the methods step by step.
\<close>

section \<open>Connections and the hub\<close>

text \<open>
  A Go pointer to an \<^verbatim>\<open>agentConn\<close> is the record: its websocket number is different for every
  connection, so that comparing records compares pointers. The \<^verbatim>\<open>control\<close> map of the struct is never
  used after its creation.
\<close>

record agentConn =
  ac_deviceID :: string
  ac_accounts :: "string list"
  ac_ws :: nat

definition writeJSON_conn :: "agentConn \<Rightarrow> Envelope \<Rightarrow> World \<Rightarrow> bool \<times> World" where
  "writeJSON_conn a v w = ws_WriteJSON (ac_ws a) v w"

text \<open>
  A waiter is a channel of capacity one: an address, with its buffer in the hub's store.
\<close>

record Hub =
  hb_bindings :: "string \<rightharpoonup> agentConn list"
  hb_pending :: "string \<rightharpoonup> nat"
  hb_chan :: "nat \<Rightarrow> TxResult list"
  hb_queryPending :: "string \<rightharpoonup> nat"
  hb_qchan :: "nat \<Rightarrow> QueryResult list"
  hb_next :: nat

definition newHub :: Hub where
  "newHub = \<lparr>hb_bindings = Map.empty, hb_pending = Map.empty, hb_chan = (\<lambda>_. []),
     hb_queryPending = Map.empty, hb_qchan = (\<lambda>_. []), hb_next = 0\<rparr>"

definition errAccountOffline :: go_error where
  "errAccountOffline = GoErr ''no device is online for this account''"

fun removeConn :: "agentConn list \<Rightarrow> agentConn \<Rightarrow> agentConn list" where
  "removeConn [] c = []"
| "removeConn (x # xs) c = (if x \<noteq> c then x # removeConn xs c else removeConn xs c)"

definition bound_to :: "Hub \<Rightarrow> string \<Rightarrow> agentConn list" where
  "bound_to h acc = (case hb_bindings h acc of None \<Rightarrow> [] | Some l \<Rightarrow> l)"

fun bind_loop :: "agentConn \<Rightarrow> string list \<Rightarrow> Hub \<Rightarrow> Hub" where
  "bind_loop a [] h = h"
| "bind_loop a (acc # accs) h =
     bind_loop a accs
       (h\<lparr>hb_bindings := (hb_bindings h)(acc \<mapsto> removeConn (bound_to h acc) a @ [a])\<rparr>)"

definition bind :: "agentConn \<Rightarrow> Hub \<Rightarrow> Hub" where
  "bind a h = bind_loop a (ac_accounts a) h"

fun unbind_loop :: "agentConn \<Rightarrow> string list \<Rightarrow> Hub \<Rightarrow> Hub" where
  "unbind_loop a [] h = h"
| "unbind_loop a (acc # accs) h =
     unbind_loop a accs
       (let rest = removeConn (bound_to h acc) a in
        if rest = [] then h\<lparr>hb_bindings := (hb_bindings h)(acc := None)\<rparr>
        else h\<lparr>hb_bindings := (hb_bindings h)(acc \<mapsto> rest)\<rparr>)"

definition unbind :: "agentConn \<Rightarrow> Hub \<Rightarrow> Hub" where
  "unbind a h = unbind_loop a (ac_accounts a) h"

definition accountOnline :: "Hub \<Rightarrow> string \<Rightarrow> bool" where
  "accountOnline h account \<longleftrightarrow> length (bound_to h account) > 0"

fun reverse_into :: "agentConn list \<Rightarrow> nat \<Rightarrow> agentConn list \<Rightarrow> agentConn list \<Rightarrow> agentConn list" where
  "reverse_into list i [] out = out"
| "reverse_into list i (c # cs) out = reverse_into list (Suc i) cs (out[length list - 1 - i := c])"

definition devicesForAccount :: "Hub \<Rightarrow> string \<Rightarrow> agentConn list" where
  "devicesForAccount h account =
     (let list = bound_to h account;
          nil = \<lparr>ac_deviceID = [], ac_accounts = [], ac_ws = 0\<rparr>
      in reverse_into list 0 list (replicate (length list) nil))"

text \<open>A send on a channel of capacity one, with a \<^verbatim>\<open>default\<close> branch that drops the value.\<close>

definition offer :: "'a list \<Rightarrow> 'a \<Rightarrow> 'a list" where
  "offer buf v = (if length buf < 1 then buf @ [v] else buf)"

definition deliverResult :: "TxResult \<Rightarrow> Hub \<Rightarrow> Hub" where
  "deliverResult res h =
     (case hb_pending h (res_RequestID res) of
        None \<Rightarrow> h
      | Some ch \<Rightarrow> h\<lparr>hb_chan := (hb_chan h)(ch := offer (hb_chan h ch) res)\<rparr>)"

definition deliverQueryResult :: "string \<Rightarrow> QueryResult \<Rightarrow> Hub \<Rightarrow> Hub" where
  "deliverQueryResult qid qr h =
     (case hb_queryPending h qid of
        None \<Rightarrow> h
      | Some ch \<Rightarrow> h\<lparr>hb_qchan := (hb_qchan h)(ch := offer (hb_qchan h ch) qr)\<rparr>)"

section \<open>Waiting\<close>

text \<open>
  What other goroutines do to the hub while a caller waits, whether the caller's \<^verbatim>\<open>select\<close> takes its
  expired context although a result is there (Go chooses at random when both are ready), and which
  error the context reports. A context always expires, so a caller that gets no result wakes up with
  that error.
\<close>

datatype hub_event =
    EvBind agentConn
  | EvUnbind agentConn
  | EvResult TxResult
  | EvQueryResult string QueryResult

fun hub_step :: "hub_event \<Rightarrow> Hub \<Rightarrow> Hub" where
  "hub_step (EvBind a) h = bind a h"
| "hub_step (EvUnbind a) h = unbind a h"
| "hub_step (EvResult res) h = deliverResult res h"
| "hub_step (EvQueryResult qid qr) h = deliverQueryResult qid qr h"

datatype ctx_err = DeadlineExceeded | Canceled

fun ctx_Err :: "ctx_err \<Rightarrow> go_error" where
  "ctx_Err DeadlineExceeded = GoErr ''context deadline exceeded''"
| "ctx_Err Canceled = GoErr ''context canceled''"

record wait =
  wt_events :: "hub_event list"
  wt_ctx_first :: bool
  wt_ctx_err :: ctx_err

definition await :: "wait \<Rightarrow> (Hub \<Rightarrow> 'a list) \<Rightarrow> Hub \<Rightarrow> (go_error + 'a) \<times> Hub" where
  "await wt buf h =
     (let h' = fold hub_step (wt_events wt) h in
      case buf h' of
        [] \<Rightarrow> (Inl (ctx_Err (wt_ctx_err wt)), h')
      | v # _ \<Rightarrow> if wt_ctx_first wt then (Inl (ctx_Err (wt_ctx_err wt)), h') else (Inr v, h'))"

section \<open>Requests and queries\<close>

fun fan_out :: "agentConn list \<Rightarrow> Envelope \<Rightarrow> nat \<Rightarrow> World \<Rightarrow> nat \<times> World" where
  "fan_out [] env delivered w = (delivered, w)"
| "fan_out (d # ds) env delivered w =
     (let (ok, w') = writeJSON_conn d env w in
      fan_out ds env (if ok then Suc delivered else delivered) w')"

definition withdraw :: "Hub \<Rightarrow> string \<Rightarrow> string \<Rightarrow> World \<Rightarrow> World" where
  "withdraw h account reqID w =
     snd (fan_out (devicesForAccount h account) ((envelope TypeWithdraw)\<lparr>e_ID := reqID\<rparr>) 0 w)"

definition sendRequest ::
  "wait \<Rightarrow> string \<Rightarrow> TxRequest \<Rightarrow> Hub \<Rightarrow> World \<Rightarrow> (go_error + TxResult) \<times> Hub \<times> World" where
  "sendRequest wt account req h w =
     (let devices = devicesForAccount h account in
      if length devices = 0 then (Inl errAccountOffline, h, w)
      else
        let waiter = hb_next h;
            h1 = h\<lparr>hb_next := Suc waiter, hb_chan := (hb_chan h)(waiter := []),
                   hb_pending := (hb_pending h)(tr_ID req \<mapsto> waiter)\<rparr>;
            env = (envelope TypeRequest)\<lparr>e_ID := tr_ID req, e_Request := Some req\<rparr>;
            (delivered, w1) = fan_out devices env 0 w;
            (res, h2) = (if delivered = 0 then (Inl errAccountOffline, h1)
                         else await wt (\<lambda>h. hb_chan h waiter) h1);
            h3 = h2\<lparr>hb_pending := (hb_pending h2)(tr_ID req := None)\<rparr>
        in (res, h3, withdraw h3 account (tr_ID req) w1))"

fun send_first :: "agentConn list \<Rightarrow> Envelope \<Rightarrow> World \<Rightarrow> bool \<times> World" where
  "send_first [] env w = (False, w)"
| "send_first (d # ds) env w =
     (let (ok, w') = writeJSON_conn d env w in if ok then (True, w') else send_first ds env w')"

definition sendQuery ::
  "wait \<Rightarrow> string \<Rightarrow> Query \<Rightarrow> Hub \<Rightarrow> World \<Rightarrow> (go_error + QueryResult) \<times> Hub \<times> World" where
  "sendQuery wt account q h w =
     (let devices = devicesForAccount h account in
      if length devices = 0 then (Inl errAccountOffline, h, w)
      else
        let (secret, w1) = randomSecret 12 w;
            qid = ''qry_'' @ secret;
            waiter = hb_next h;
            h1 = h\<lparr>hb_next := Suc waiter, hb_qchan := (hb_qchan h)(waiter := []),
                   hb_queryPending := (hb_queryPending h)(qid \<mapsto> waiter)\<rparr>;
            env = (envelope TypeQuery)\<lparr>e_ID := qid, e_Query := Some q\<rparr>;
            (sent, w2) = send_first devices env w1;
            (res, h2) = (if \<not> sent then (Inl errAccountOffline, h1)
                         else await wt (\<lambda>h. hb_qchan h waiter) h1)
        in (res, h2\<lparr>hb_queryPending := (hb_queryPending h2)(qid := None)\<rparr>, w2))"

section \<open>Lemmas on connections\<close>

lemma removeConn_filter: "removeConn xs c = filter (\<lambda>x. x \<noteq> c) xs"
  by (induction xs) auto

lemma reverse_into_rev:
  "list = pre @ cs \<Longrightarrow> i = length pre \<Longrightarrow> length out = length list \<Longrightarrow>
   reverse_into list i cs out = rev cs @ drop (length cs) out"
proof (induction cs arbitrary: pre i out)
  case (Cons c cs)
  have "reverse_into list (Suc i) cs (out[length list - 1 - i := c])
      = rev cs @ drop (length cs) (out[length list - 1 - i := c])"
    using Cons.prems by (intro Cons.IH [of "pre @ [c]"]) simp_all
  moreover have "length list - 1 - i = length cs" using Cons.prems by simp
  moreover have "length cs < length out" using Cons.prems by simp
  then have "drop (length cs) (out[length cs := c]) = c # drop (Suc (length cs)) out"
    by (simp add: Cons_nth_drop_Suc [symmetric])
  ultimately show ?case by simp
qed simp

lemma devices_rev: "devicesForAccount h acc = rev (bound_to h acc)"
  by (simp add: devicesForAccount_def Let_def reverse_into_rev [of _ "[]"])

lemma bound_to_upd:
  "bound_to (h\<lparr>hb_bindings := (hb_bindings h)(acc \<mapsto> l)\<rparr>) x = (if x = acc then l else bound_to h x)"
  "bound_to (h\<lparr>hb_bindings := (hb_bindings h)(acc := None)\<rparr>) x = (if x = acc then [] else bound_to h x)"
  by (simp_all add: bound_to_def)

lemma bind_loop_bound:
  "bound_to (bind_loop a accs h) acc =
     (if acc \<in> set accs then filter (\<lambda>x. x \<noteq> a) (bound_to h acc) @ [a] else bound_to h acc)"
  by (induction accs arbitrary: h) (auto simp: bound_to_upd removeConn_filter)

lemma unbind_loop_bound:
  "bound_to (unbind_loop a accs h) acc =
     (if acc \<in> set accs then filter (\<lambda>x. x \<noteq> a) (bound_to h acc) else bound_to h acc)"
  by (induction accs arbitrary: h) (auto simp: bound_to_upd removeConn_filter Let_def)

lemma bind_bound:
  "bound_to (bind a h) acc =
     (if acc \<in> set (ac_accounts a) then filter (\<lambda>x. x \<noteq> a) (bound_to h acc) @ [a] else bound_to h acc)"
  by (simp add: bind_def bind_loop_bound)

lemma unbind_bound:
  "bound_to (unbind a h) acc =
     (if acc \<in> set (ac_accounts a) then filter (\<lambda>x. x \<noteq> a) (bound_to h acc) else bound_to h acc)"
  by (simp add: unbind_def unbind_loop_bound)

lemma loop_frame [simp]:
  "hb_pending (bind_loop a accs h) = hb_pending h" "hb_chan (bind_loop a accs h) = hb_chan h"
  "hb_queryPending (bind_loop a accs h) = hb_queryPending h"
  "hb_qchan (bind_loop a accs h) = hb_qchan h" "hb_next (bind_loop a accs h) = hb_next h"
  "hb_pending (unbind_loop a accs h) = hb_pending h" "hb_chan (unbind_loop a accs h) = hb_chan h"
  "hb_queryPending (unbind_loop a accs h) = hb_queryPending h"
  "hb_qchan (unbind_loop a accs h) = hb_qchan h" "hb_next (unbind_loop a accs h) = hb_next h"
  by (induction accs arbitrary: h) (simp_all add: Let_def)

lemma bind_frame [simp]:
  "hb_pending (bind a h) = hb_pending h" "hb_chan (bind a h) = hb_chan h"
  "hb_queryPending (bind a h) = hb_queryPending h" "hb_qchan (bind a h) = hb_qchan h"
  "hb_next (bind a h) = hb_next h"
  "hb_pending (unbind a h) = hb_pending h" "hb_chan (unbind a h) = hb_chan h"
  "hb_queryPending (unbind a h) = hb_queryPending h" "hb_qchan (unbind a h) = hb_qchan h"
  "hb_next (unbind a h) = hb_next h"
  by (simp_all add: bind_def unbind_def)

lemma deliver_frame [simp]:
  "hb_pending (deliverResult res h) = hb_pending h" "hb_bindings (deliverResult res h) = hb_bindings h"
  "hb_queryPending (deliverResult res h) = hb_queryPending h"
  "hb_qchan (deliverResult res h) = hb_qchan h" "hb_next (deliverResult res h) = hb_next h"
  "hb_pending (deliverQueryResult q qr h) = hb_pending h"
  "hb_bindings (deliverQueryResult q qr h) = hb_bindings h"
  "hb_queryPending (deliverQueryResult q qr h) = hb_queryPending h"
  "hb_chan (deliverQueryResult q qr h) = hb_chan h" "hb_next (deliverQueryResult q qr h) = hb_next h"
  by (auto simp: deliverResult_def deliverQueryResult_def split: option.splits)

lemma bound_to_deliver [simp]:
  "bound_to (deliverResult res h) acc = bound_to h acc"
  "bound_to (deliverQueryResult q qr h) acc = bound_to h acc"
  by (simp_all add: bound_to_def)

end
