(* ===== verification/Hub_Props.thy ===== *)
theory Hub_Props
  imports Hub
begin

text \<open>
  Correctness of the hub's methods run to their end: which devices an account has, what a request
  and a query return, and which frames they write. \<open>hub_wf\<close> is the invariant of the waiter tables.
\<close>

section \<open>The invariant\<close>

definition hub_wf :: "Hub \<Rightarrow> bool" where
  "hub_wf h \<longleftrightarrow> (\<forall>rid ch. hb_pending h rid = Some ch \<longrightarrow> ch < hb_next h)
     \<and> (\<forall>qid ch. hb_queryPending h qid = Some ch \<longrightarrow> ch < hb_next h)"

lemma hub_wf_new: "hub_wf newHub"
  by (simp add: hub_wf_def newHub_def)

lemma hub_step_frame [simp]:
  "hb_pending (hub_step e h) = hb_pending h" "hb_queryPending (hub_step e h) = hb_queryPending h"
  "hb_next (hub_step e h) = hb_next h"
  by (cases e; simp)+

lemma hub_steps_frame [simp]:
  "hb_pending (fold hub_step evs h) = hb_pending h"
  "hb_queryPending (fold hub_step evs h) = hb_queryPending h"
  "hb_next (fold hub_step evs h) = hb_next h"
  by (induction evs arbitrary: h) simp_all

lemma hub_wf_steps: "hub_wf h \<Longrightarrow> hub_wf (fold hub_step evs h)"
  by (simp add: hub_wf_def)

lemma hub_wf_fresh:
  "hub_wf h \<Longrightarrow> hb_pending h rid \<noteq> Some (hb_next h)" "hub_wf h \<Longrightarrow> hb_queryPending h qid \<noteq> Some (hb_next h)"
  unfolding hub_wf_def using less_irrefl by blast+

section \<open>Writing frames\<close>

definition accepted :: "agentConn list \<Rightarrow> bool stream \<Rightarrow> agentConn list" where
  "accepted ds writes = map fst (filter snd (zip ds (stake (length ds) writes)))"

lemma accepted_simps [simp]:
  "accepted [] wr = []"
  "accepted (d # ds) wr = (if shd wr then d # accepted ds (stl wr) else accepted ds (stl wr))"
  by (simp_all add: accepted_def)

lemma accepted_subset: "d \<in> set (accepted ds wr) \<Longrightarrow> d \<in> set ds"
  by (auto simp: accepted_def dest: set_zip_leftD)

lemma fan_out_eq:
  "fan_out ds env n w =
     (n + length (accepted ds (wd_writes w)),
      w\<lparr>wd_writes := sdrop (length ds) (wd_writes w),
        wd_sent := wd_sent w @ map (\<lambda>d. (ac_ws d, env)) (accepted ds (wd_writes w))\<rparr>)"
  by (induction ds arbitrary: n w) (auto simp: writeJSON_conn_def ws_WriteJSON_def Let_def)

definition first_accepting :: "agentConn list \<Rightarrow> bool stream \<Rightarrow> agentConn option" where
  "first_accepting ds wr = (case accepted ds wr of [] \<Rightarrow> None | d # _ \<Rightarrow> Some d)"

lemma send_first_eq:
  "\<exists>wr'. send_first ds env w =
     (case first_accepting ds (wd_writes w) of
        None \<Rightarrow> (False, w\<lparr>wd_writes := wr'\<rparr>)
      | Some d \<Rightarrow> (True, w\<lparr>wd_writes := wr', wd_sent := wd_sent w @ [(ac_ws d, env)]\<rparr>))"
proof (induction ds arbitrary: w)
  case Nil
  show ?case by (rule exI [of _ "wd_writes w"]) (simp add: first_accepting_def)
next
  case (Cons d ds)
  show ?case
  proof (cases "shd (wd_writes w)")
    case True
    then show ?thesis
      by (intro exI [of _ "stl (wd_writes w)"])
         (simp add: first_accepting_def writeJSON_conn_def ws_WriteJSON_def Let_def)
  next
    case False
    then show ?thesis using Cons.IH [of "w\<lparr>wd_writes := stl (wd_writes w)\<rparr>"]
      by (cases "accepted ds (stl (wd_writes w))")
         (simp_all add: first_accepting_def writeJSON_conn_def ws_WriteJSON_def Let_def)
  qed
qed

section \<open>What a waiter receives\<close>

fun results :: "hub_event list \<Rightarrow> TxResult list" where
  "results [] = []"
| "results (EvResult r # evs) = r # results evs"
| "results (_ # evs) = results evs"

fun query_results :: "hub_event list \<Rightarrow> (string \<times> QueryResult) list" where
  "query_results [] = []"
| "query_results (EvQueryResult q r # evs) = (q, r) # query_results evs"
| "query_results (_ # evs) = query_results evs"

definition first_for :: "string \<Rightarrow> hub_event list \<Rightarrow> TxResult option" where
  "first_for rid evs = find (\<lambda>r. res_RequestID r = rid) (results evs)"

definition first_query_for :: "string \<Rightarrow> hub_event list \<Rightarrow> QueryResult option" where
  "first_query_for qid evs = map_of (query_results evs) qid"

lemma offer_simps [simp]: "offer [] v = [v]" "offer [x] v = [x]"
  by (simp_all add: offer_def)

lemma fold_offer: "fold (\<lambda>v b. offer b v) vs [x] = [x]"
  by (induction vs) simp_all

lemma fold_offer_nil: "fold (\<lambda>v b. offer b v) vs [] = (case vs of [] \<Rightarrow> [] | v # _ \<Rightarrow> [v])"
  by (cases vs) (simp_all add: fold_offer)

lemma deliver_chan:
  assumes only: "\<forall>r. hb_pending h r = Some ch \<longleftrightarrow> r = rid"
  shows "hb_chan (deliverResult v h) ch
     = (if res_RequestID v = rid then offer (hb_chan h ch) v else hb_chan h ch)"
proof (cases "res_RequestID v = rid")
  case True
  then have "hb_pending h (res_RequestID v) = Some ch" using only by blast
  then show ?thesis using True by (simp add: deliverResult_def)
next
  case False
  then have "hb_pending h (res_RequestID v) \<noteq> Some ch" using only by blast
  then show ?thesis using False
    by (cases "hb_pending h (res_RequestID v)") (simp_all add: deliverResult_def)
qed

lemma deliver_qchan:
  assumes only: "\<forall>r. hb_queryPending h r = Some ch \<longleftrightarrow> r = qid"
  shows "hb_qchan (deliverQueryResult q v h) ch = (if q = qid then offer (hb_qchan h ch) v else hb_qchan h ch)"
proof (cases "q = qid")
  case True
  then have "hb_queryPending h q = Some ch" using only by blast
  then show ?thesis using True by (simp add: deliverQueryResult_def)
next
  case False
  then have "hb_queryPending h q \<noteq> Some ch" using only by blast
  then show ?thesis using False by (cases "hb_queryPending h q") (simp_all add: deliverQueryResult_def)
qed

lemma waiter_fold:
  assumes "\<forall>r. hb_pending h r = Some ch \<longleftrightarrow> r = rid"
  shows "hb_chan (fold hub_step evs h) ch
     = fold (\<lambda>v b. offer b v) (filter (\<lambda>r. res_RequestID r = rid) (results evs)) (hb_chan h ch)"
  using assms
proof (induction evs arbitrary: h)
  case (Cons e evs)
  have "hb_chan (fold hub_step evs (hub_step e h)) ch
     = fold (\<lambda>v b. offer b v) (filter (\<lambda>r. res_RequestID r = rid) (results evs)) (hb_chan (hub_step e h) ch)"
    using Cons.prems by (intro Cons.IH) simp_all
  moreover note deliver_chan [OF Cons.prems]
  ultimately show ?case by (cases e) simp_all
qed simp

lemma query_fold:
  assumes "\<forall>r. hb_queryPending h r = Some ch \<longleftrightarrow> r = qid"
  shows "hb_qchan (fold hub_step evs h) ch
     = fold (\<lambda>v b. offer b v) (map snd (filter (\<lambda>r. fst r = qid) (query_results evs))) (hb_qchan h ch)"
  using assms
proof (induction evs arbitrary: h)
  case (Cons e evs)
  have "hb_qchan (fold hub_step evs (hub_step e h)) ch
     = fold (\<lambda>v b. offer b v) (map snd (filter (\<lambda>r. fst r = qid) (query_results evs)))
         (hb_qchan (hub_step e h) ch)"
    using Cons.prems by (intro Cons.IH) simp_all
  moreover note deliver_qchan [OF Cons.prems]
  ultimately show ?case by (cases e) simp_all
qed simp

lemma find_filter: "find P xs = (case filter P xs of [] \<Rightarrow> None | x # _ \<Rightarrow> Some x)"
  by (induction xs) auto

lemma map_of_filter:
  "map_of al k = (case map snd (filter (\<lambda>r. fst r = k) al) of [] \<Rightarrow> None | x # _ \<Rightarrow> Some x)"
  by (induction al) auto

lemma waiter_buffer:
  assumes "\<forall>r. hb_pending h r = Some ch \<longleftrightarrow> r = rid" "hb_chan h ch = []"
  shows "hb_chan (fold hub_step evs h) ch = (case first_for rid evs of None \<Rightarrow> [] | Some r \<Rightarrow> [r])"
  using waiter_fold [OF assms(1)] assms(2)
  by (simp add: fold_offer_nil first_for_def find_filter split: list.split)

lemma query_buffer:
  assumes "\<forall>r. hb_queryPending h r = Some ch \<longleftrightarrow> r = qid"
    and "hb_qchan h ch = []"
  shows "hb_qchan (fold hub_step evs h) ch = (case first_query_for qid evs of None \<Rightarrow> [] | Some r \<Rightarrow> [r])"
  using query_fold [OF assms(1)] assms(2)
  by (simp add: fold_offer_nil first_query_for_def map_of_filter split: list.split)

definition outcome :: "wait \<Rightarrow> 'a option \<Rightarrow> go_error + 'a" where
  "outcome wt r = (case r of
     None \<Rightarrow> Inl (ctx_Err (wt_ctx_err wt))
   | Some v \<Rightarrow> if wt_ctx_first wt then Inl (ctx_Err (wt_ctx_err wt)) else Inr v)"


lemma await_outcome:
  "buf (fold hub_step (wt_events wt) h) = (case r of None \<Rightarrow> [] | Some v \<Rightarrow> [v]) \<Longrightarrow>
   await wt buf h = (outcome wt r, fold hub_step (wt_events wt) h)"
  by (auto simp: await_def outcome_def Let_def split: option.splits)

section \<open>The devices of an account\<close>

definition connected :: "hub_event list \<Rightarrow> agentConn \<Rightarrow> bool" where
  "connected evs c = fold (\<lambda>e b. if e = EvBind c then True else if e = EvUnbind c then False else b) evs False"

lemma connected_snoc:
  "connected (evs @ [e]) c = (if e = EvBind c then True else if e = EvUnbind c then False else connected evs c)"
  by (simp add: connected_def)

text \<open>When a connection was bound last: the number of events up to and with that bind, 0 for none.\<close>

definition bound_at :: "hub_event list \<Rightarrow> agentConn \<Rightarrow> nat" where
  "bound_at evs c = length (dropWhile (\<lambda>e. e \<noteq> EvBind c) (rev evs))"

lemma bound_at_snoc: "bound_at (evs @ [e]) c = (if e = EvBind c then Suc (length evs) else bound_at evs c)"
  by (simp add: bound_at_def)

lemma bound_at_le: "bound_at evs c \<le> length evs"
  using length_dropWhile_le [of "\<lambda>e. e \<noteq> EvBind c" "rev evs"] by (simp add: bound_at_def)

lemma bound_step:
  "bound_to (hub_step e h) acc =
     (case e of
        EvBind a \<Rightarrow> if acc \<in> set (ac_accounts a) then filter (\<lambda>x. x \<noteq> a) (bound_to h acc) @ [a] else bound_to h acc
      | EvUnbind a \<Rightarrow> if acc \<in> set (ac_accounts a) then filter (\<lambda>x. x \<noteq> a) (bound_to h acc) else bound_to h acc
      | _ \<Rightarrow> bound_to h acc)"
  by (cases e) (simp_all add: bind_bound unbind_bound)

lemma bound_exact:
  "distinct (bound_to (fold hub_step evs newHub) acc)
   \<and> (\<forall>c. c \<in> set (bound_to (fold hub_step evs newHub) acc) \<longleftrightarrow> acc \<in> set (ac_accounts c) \<and> connected evs c)"
proof (induction evs rule: rev_induct)
  case Nil
  show ?case by (simp add: newHub_def bound_to_def connected_def)
next
  case (snoc e evs)
  let ?h = "fold hub_step evs newHub"
  note step = bound_step [of e ?h acc]
  have "distinct (bound_to (hub_step e ?h) acc)"
    using snoc.IH unfolding step by (cases e) simp_all
  moreover have "c \<in> set (bound_to (hub_step e ?h) acc) \<longleftrightarrow> acc \<in> set (ac_accounts c) \<and> connected (evs @ [e]) c" for c
  proof -
    have IH: "c \<in> set (bound_to ?h acc) \<longleftrightarrow> acc \<in> set (ac_accounts c) \<and> connected evs c" for c
      using snoc.IH by blast
    show ?thesis
    proof (cases e)
      case (EvBind a)
      then show ?thesis unfolding step connected_snoc by (cases "a = c") (simp_all add: IH)
    next
      case (EvUnbind a)
      then show ?thesis unfolding step connected_snoc by (cases "a = c") (simp_all add: IH)
    qed (simp_all add: step connected_snoc IH)
  qed
  ultimately show ?case by simp
qed

text \<open>The list of an account is in the order of the last binds, oldest first.\<close>

lemma bound_sorted:
  "sorted_wrt (\<lambda>c d. bound_at evs c < bound_at evs d) (bound_to (fold hub_step evs newHub) acc)"
proof (induction evs rule: rev_induct)
  case Nil
  show ?case by (simp add: newHub_def bound_to_def)
next
  case (snoc e evs)
  let ?h = "fold hub_step evs newHub"
  have keep: "sorted_wrt (\<lambda>c d. bound_at (evs @ [e]) c < bound_at (evs @ [e]) d) xs"
    if "\<forall>c\<in>set xs. e \<noteq> EvBind c" "sorted_wrt (\<lambda>c d. bound_at evs c < bound_at evs d) xs" for xs
    using that by (induction xs) (auto simp: bound_at_snoc)
  show ?case
  proof (cases e)
    case (EvBind a)
    let ?r = "filter (\<lambda>x. x \<noteq> a) (bound_to ?h acc)"
    show ?thesis
    proof (cases "acc \<in> set (ac_accounts a)")
      case True
      have "sorted_wrt (\<lambda>c d. bound_at (evs @ [e]) c < bound_at (evs @ [e]) d) ?r"
        using snoc.IH by (intro keep sorted_wrt_filter) (auto simp: EvBind)
      moreover have "bound_at (evs @ [e]) c < bound_at (evs @ [e]) a" if "c \<in> set ?r" for c
        using that bound_at_le [of evs c] by (auto simp: EvBind bound_at_snoc)
      ultimately show ?thesis using True by (simp add: bind_bound EvBind sorted_wrt_append)
    next
      case False
      then have "\<forall>c\<in>set (bound_to ?h acc). e \<noteq> EvBind c" using bound_exact [of evs acc] EvBind by auto
      from keep [OF this snoc.IH] show ?thesis using False by (simp add: bind_bound EvBind)
    qed
  next
    case (EvUnbind a)
    have "sorted_wrt (\<lambda>c d. bound_at (evs @ [e]) c < bound_at (evs @ [e]) d) xs"
      if "sorted_wrt (\<lambda>c d. bound_at evs c < bound_at evs d) xs" for xs
      using that by (intro keep) (simp_all add: EvUnbind)
    then show ?thesis using snoc.IH by (simp add: unbind_bound EvUnbind sorted_wrt_filter)
  qed (use snoc.IH keep in \<open>simp_all add: bound_step\<close>)
qed

text \<open>
  C25. Who is online. After any sequence of hub calls the devices of an account are, without
  repetition, exactly the connections that proved it and were bound after they were last unbound, in
  the reverse order of their last binds: of any two of them the one bound later comes first. The
  account is online if and only if there is one; and a connection that is bound next comes before all
  others, whose order stays.
\<close>

theorem devices_exact:
  "let h = fold hub_step evs newHub in
     distinct (devicesForAccount h acc)
     \<and> (\<forall>c. c \<in> set (devicesForAccount h acc) \<longleftrightarrow> acc \<in> set (ac_accounts c) \<and> connected evs c)
     \<and> sorted_wrt (\<lambda>c d. bound_at evs d < bound_at evs c) (devicesForAccount h acc)
     \<and> (accountOnline h acc \<longleftrightarrow> (\<exists>c. acc \<in> set (ac_accounts c) \<and> connected evs c))
     \<and> (\<forall>c. acc \<in> set (ac_accounts c) \<longrightarrow>
          devicesForAccount (bind c h) acc = c # filter (\<lambda>d. d \<noteq> c) (devicesForAccount h acc))"
proof -
  let ?h = "fold hub_step evs newHub"
  note b = bound_exact [of evs acc]
  have "accountOnline ?h acc \<longleftrightarrow> (\<exists>c. c \<in> set (bound_to ?h acc))"
    by (simp add: accountOnline_def ex_in_conv)
  also have "\<dots> \<longleftrightarrow> (\<exists>c. acc \<in> set (ac_accounts c) \<and> connected evs c)"
    using b by (intro iff_exI) simp
  finally show ?thesis using b bound_sorted [of evs acc]
    by (simp add: Let_def devices_rev bind_bound sorted_wrt_rev rev_filter)
qed

theorem devices_exact_witness:
  "let c = (\<lambda>n. \<lparr>ac_deviceID = ''d'', ac_accounts = [''x''], ac_ws = n\<rparr>);
       evs = [EvBind (c 1), EvBind (c 2), EvBind (c 3), EvBind (c 1), EvUnbind (c 2)]
   in devicesForAccount (bind (c 4) (fold hub_step evs newHub)) ''x'' = [c 4, c 1, c 3]"
proof -
  let ?c = "\<lambda>n. \<lparr>ac_deviceID = ''d'', ac_accounts = [''x''], ac_ws = n\<rparr>"
  let ?evs = "[EvBind (?c 1), EvBind (?c 2), EvBind (?c 3), EvBind (?c 1), EvUnbind (?c 2)]"
  have "devicesForAccount (bind (?c 4) (fold hub_step ?evs newHub)) ''x''
      = ?c 4 # filter (\<lambda>d. d \<noteq> ?c 4) (devicesForAccount (fold hub_step ?evs newHub) ''x'')"
    using devices_exact [of ?evs "''x''"] unfolding Let_def by simp
  moreover have "devicesForAccount (fold hub_step ?evs newHub) ''x'' = [?c 1, ?c 3]"
    by (simp add: devices_rev bind_bound unbind_bound) (simp add: bound_to_def newHub_def)
  ultimately show ?thesis by simp
qed

section \<open>Requests and queries\<close>

definition request_frame :: "TxRequest \<Rightarrow> Envelope" where
  "request_frame req = (envelope TypeRequest)\<lparr>e_ID := tr_ID req, e_Request := Some req\<rparr>"

definition withdraw_frame :: "string \<Rightarrow> Envelope" where
  "withdraw_frame rid = (envelope TypeWithdraw)\<lparr>e_ID := rid\<rparr>"

definition query_frame :: "string \<Rightarrow> Query \<Rightarrow> Envelope" where
  "query_frame qid q = (envelope TypeQuery)\<lparr>e_ID := qid, e_Query := Some q\<rparr>"

lemma request_result:
  assumes "hub_wf h" and "sendRequest wt acc req h w = (q, h', w')"
  shows "q = (if accepted (devicesForAccount h acc) (wd_writes w) = [] then Inl errAccountOffline
              else outcome wt (first_for (tr_ID req) (wt_events wt)))
    \<and> hb_pending h' = (if devicesForAccount h acc = [] then hb_pending h
                       else (hb_pending h)(tr_ID req := None))
    \<and> hub_wf h'"
proof -
  let ?ds = "devicesForAccount h acc"
  let ?h1 = "h\<lparr>hb_next := Suc (hb_next h), hb_chan := (hb_chan h)(hb_next h := []),
     hb_pending := (hb_pending h)(tr_ID req \<mapsto> hb_next h)\<rparr>"
  have "\<forall>r. hb_pending ?h1 r = Some (hb_next h) \<longleftrightarrow> r = tr_ID req"
    using hub_wf_fresh(1) [OF assms(1)] by simp
  then have "hb_chan (fold hub_step (wt_events wt) ?h1) (hb_next h)
      = (case first_for (tr_ID req) (wt_events wt) of None \<Rightarrow> [] | Some r \<Rightarrow> [r])"
    by (intro waiter_buffer) simp_all
  note aw = await_outcome [where buf = "\<lambda>h'. hb_chan h' (hb_next h)", OF this]
  have wf: "hub_wf (k\<lparr>hb_pending := (hb_pending k)(tr_ID req := None)\<rparr>)"
    if "k = ?h1 \<or> k = fold hub_step (wt_events wt) ?h1" for k
    using that assms(1) unfolding hub_wf_def by (elim disjE) (simp_all add: less_SucI)
  show ?thesis
  proof (cases "?ds = []")
    case True
    then show ?thesis using assms by (auto simp: sendRequest_def)
  next
    case ds: False
    show ?thesis
    proof (cases "accepted ?ds (wd_writes w) = []")
      case True
      then have "q = Inl errAccountOffline" "h' = ?h1\<lparr>hb_pending := (hb_pending ?h1)(tr_ID req := None)\<rparr>"
        using assms(2) ds by (auto simp: sendRequest_def Let_def fan_out_eq)
      then show ?thesis using ds True wf [of ?h1] by simp
    next
      case False
      let ?h2 = "fold hub_step (wt_events wt) ?h1"
      have "q = outcome wt (first_for (tr_ID req) (wt_events wt))"
        "h' = ?h2\<lparr>hb_pending := (hb_pending ?h2)(tr_ID req := None)\<rparr>"
        using assms(2) ds False aw by (auto simp: sendRequest_def Let_def fan_out_eq)
      then show ?thesis using ds False wf [of ?h2] by simp
    qed
  qed
qed

lemma request_written:
  assumes "sendRequest wt acc req h w = (q, h', w')"
  shows "wd_sent w' = wd_sent w
     @ map (\<lambda>d. (ac_ws d, request_frame req)) (accepted (devicesForAccount h acc) (wd_writes w))
     @ (if devicesForAccount h acc = [] then []
        else map (\<lambda>d. (ac_ws d, withdraw_frame (tr_ID req)))
          (accepted (devicesForAccount h' acc)
             (sdrop (length (devicesForAccount h acc)) (wd_writes w))))"
proof (cases "devicesForAccount h acc = []")
  case True
  then show ?thesis using assms by (auto simp: sendRequest_def)
next
  case False
  then show ?thesis using assms
    by (auto simp: sendRequest_def Let_def fan_out_eq withdraw_def request_frame_def
        withdraw_frame_def split: prod.splits)
qed

lemma query_result:
  assumes "hub_wf h" and "sendQuery wt acc query h w = (q, h', w')"
    and "devicesForAccount h acc \<noteq> []"
  shows "let qid = ''qry_'' @ EncodeToString (stake 12 (wd_entropy w)) in
     (case first_accepting (devicesForAccount h acc) (wd_writes w) of
        None \<Rightarrow> q = Inl errAccountOffline \<and> wd_sent w' = wd_sent w
      | Some d \<Rightarrow> q = outcome wt (first_query_for qid (wt_events wt))
          \<and> wd_sent w' = wd_sent w @ [(ac_ws d, query_frame qid query)])
     \<and> hb_queryPending h' = (hb_queryPending h)(qid := None) \<and> hub_wf h'"
proof -
  let ?qid = "''qry_'' @ EncodeToString (stake 12 (wd_entropy w))"
  let ?ds = "devicesForAccount h acc"
  let ?w = "w\<lparr>wd_entropy := sdrop 12 (wd_entropy w)\<rparr>"
  let ?h1 = "h\<lparr>hb_next := Suc (hb_next h), hb_qchan := (hb_qchan h)(hb_next h := []),
     hb_queryPending := (hb_queryPending h)(?qid \<mapsto> hb_next h)\<rparr>"
  let ?h2 = "fold hub_step (wt_events wt) ?h1"
  let ?fin = "\<lambda>k. k\<lparr>hb_queryPending := (hb_queryPending k)(?qid := None)\<rparr>"
  have "\<forall>r. hb_queryPending ?h1 r = Some (hb_next h) \<longleftrightarrow> r = ?qid"
    using hub_wf_fresh(2) [OF assms(1)] by simp
  then have "hb_qchan ?h2 (hb_next h)
      = (case first_query_for ?qid (wt_events wt) of None \<Rightarrow> [] | Some r \<Rightarrow> [r])"
    by (intro query_buffer) simp_all
  note aw = await_outcome [where buf = "\<lambda>h'. hb_qchan h' (hb_next h)", OF this]
  have wf: "hub_wf (?fin ?h1)" "hub_wf (?fin ?h2)"
    using assms(1) by (simp_all add: hub_wf_def less_SucI)
  obtain wr' where sf: "send_first ?ds (query_frame ?qid query) ?w =
     (case first_accepting ?ds (wd_writes ?w) of
        None \<Rightarrow> (False, ?w\<lparr>wd_writes := wr'\<rparr>)
      | Some d \<Rightarrow> (True, ?w\<lparr>wd_writes := wr', wd_sent := wd_sent ?w @ [(ac_ws d, query_frame ?qid query)]\<rparr>))"
    using send_first_eq by blast
  have run: "(q, h', w') =
     (let (sent, w2) = send_first ?ds (query_frame ?qid query) ?w;
          (res, h2) = (if \<not> sent then (Inl errAccountOffline, ?h1)
                       else await wt (\<lambda>h'. hb_qchan h' (hb_next h)) ?h1)
      in (res, ?fin h2, w2))"
    using assms(2,3) unfolding sendQuery_def randomSecret_def rand_Read_def query_frame_def Let_def
    by (simp del: append_Cons append_Nil)
  show ?thesis
  proof (cases "first_accepting ?ds (wd_writes w)")
    case None
    then have "q = Inl errAccountOffline" "h' = ?fin ?h1" "wd_sent w' = wd_sent w"
      using run sf by simp_all
    then show ?thesis using None wf(1) by (simp add: Let_def)
  next
    case (Some d)
    then have "q = outcome wt (first_query_for ?qid (wt_events wt))" "h' = ?fin ?h2"
      "wd_sent w' = wd_sent w @ [(ac_ws d, query_frame ?qid query)]"
      using run sf aw by simp_all
    then show ?thesis using Some wf(2) by (simp add: Let_def)
  qed
qed

text \<open>
  What a request returns. It fails with the offline error exactly when no device of the account
  accepts the frame (none bound, or every write failed), and otherwise returns the first result
  delivered for its own request id while it waited, or the context's error; results for other
  requests are never returned. In every case the waiter is removed again.
\<close>

theorem request_outcome:
  assumes "hub_wf h" and "sendRequest wt acc req h w = (q, h', w')"
  shows "q = (if accepted (devicesForAccount h acc) (wd_writes w) = [] then Inl errAccountOffline
              else outcome wt (first_for (tr_ID req) (wt_events wt)))
    \<and> hb_pending h' = (if devicesForAccount h acc = [] then hb_pending h
                       else (hb_pending h)(tr_ID req := None))
    \<and> hub_wf h'"
  using assms by (rule request_result)

text \<open>A hub with one device, a request for it, and a wait in which that device answers.\<close>

definition dev1 :: agentConn where
  "dev1 = \<lparr>ac_deviceID = ''d'', ac_accounts = [''x''], ac_ws = 1\<rparr>"

definition hub1 :: Hub where
  "hub1 = bind dev1 newHub"

definition world1 :: World where
  "world1 = \<lparr>wd_entropy = sconst 0, wd_clock = sconst 0, wd_writes = sconst True, wd_sent = []\<rparr>"

definition result1 :: "string \<Rightarrow> TxResult" where
  "result1 rid = \<lparr>res_RequestID = rid, res_Status = StatusSigned, res_BlockHash = [],
     res_SignedBlock = None, res_Reason = [], res_DecidedAt = (0, 0)\<rparr>"

definition wait1 :: wait where
  "wait1 = \<lparr>wt_events = [EvResult (result1 ''other''), EvResult (result1 ''r'')],
     wt_ctx_first = False, wt_ctx_err = DeadlineExceeded\<rparr>"

lemma devices_hub1: "devicesForAccount hub1 ''x'' = [dev1]"
proof -
  have "bound_to newHub ''x'' = []" by (simp add: bound_to_def newHub_def)
  moreover have "ac_accounts dev1 = [''x'']" by (simp add: dev1_def)
  ultimately show ?thesis by (simp add: devices_rev hub1_def bind_bound)
qed

lemma hub1_wf: "hub_wf hub1"
  by (simp add: hub1_def hub_wf_def newHub_def)

theorem request_outcome_witness:
  "fst (sendRequest wait1 ''x'' (zero_TxRequest\<lparr>tr_ID := ''r''\<rparr>) hub1 world1) = Inr (result1 ''r'')"
proof -
  obtain q h' w' where run: "sendRequest wait1 ''x'' (zero_TxRequest\<lparr>tr_ID := ''r''\<rparr>) hub1 world1 = (q, h', w')"
    using prod_cases3 by blast
  show ?thesis using request_outcome [OF hub1_wf run] run
    by (simp add: devices_hub1 world1_def wait1_def first_for_def outcome_def result1_def)
qed

text \<open>
  What a request writes. The frames written are, in order, the request itself to each device of
  the account that accepts the write (most recent first), and after the wait the withdrawal of the
  request id to each device bound to the account by then, the one that answered included. Nothing
  else is written, so no connection that did not prove the account sees the request.
\<close>

theorem request_frames:
  assumes "sendRequest wt acc req h w = (q, h', w')"
  shows "wd_sent w' = wd_sent w
     @ map (\<lambda>d. (ac_ws d, request_frame req)) (accepted (devicesForAccount h acc) (wd_writes w))
     @ (if devicesForAccount h acc = [] then []
        else map (\<lambda>d. (ac_ws d, withdraw_frame (tr_ID req)))
          (accepted (devicesForAccount h' acc)
             (sdrop (length (devicesForAccount h acc)) (wd_writes w))))"
  using assms by (rule request_written)

theorem request_frames_witness:
  "wd_sent (snd (snd (sendRequest (wait1\<lparr>wt_events := []\<rparr>) ''x'' (zero_TxRequest\<lparr>tr_ID := ''r''\<rparr>) hub1 world1)))
     = [(1, request_frame (zero_TxRequest\<lparr>tr_ID := ''r''\<rparr>)), (1, withdraw_frame ''r'')]"
proof -
  let ?wt = "wait1\<lparr>wt_events := []\<rparr>"
  obtain q h' w' where run: "sendRequest ?wt ''x'' (zero_TxRequest\<lparr>tr_ID := ''r''\<rparr>) hub1 world1 = (q, h', w')"
    using prod_cases3 by blast
  have "accepted [dev1] (wd_writes world1) = [dev1]" by (simp add: world1_def)
  then have "h' = hub1\<lparr>hb_next := Suc (hb_next hub1), hb_chan := (hb_chan hub1)(hb_next hub1 := []),
      hb_pending := (hb_pending hub1)(''r'' := None)\<rparr>"
    using run by (simp add: sendRequest_def devices_hub1 fan_out_eq await_def Let_def)
  then have "devicesForAccount h' ''x'' = [dev1]"
    using devices_hub1 by (simp add: devices_rev bound_to_def)
  then show ?thesis using request_frames [OF run] run
    by (simp add: devices_hub1 world1_def) (simp add: dev1_def)
qed

text \<open>
  What a query writes and returns. At most one device sees it: the most recently bound device
  that accepts the write gets exactly one frame, under an identifier made of twelve fresh random
  bytes; the caller gets the first answer delivered under that identifier, the context's error, or
  the offline error if no device accepted, and the waiter is removed again.
\<close>

theorem query_outcome:
  assumes "hub_wf h" and "sendQuery wt acc query h w = (q, h', w')"
    and "devicesForAccount h acc \<noteq> []"
  shows "let qid = ''qry_'' @ EncodeToString (stake 12 (wd_entropy w)) in
     (case first_accepting (devicesForAccount h acc) (wd_writes w) of
        None \<Rightarrow> q = Inl errAccountOffline \<and> wd_sent w' = wd_sent w
      | Some d \<Rightarrow> q = outcome wt (first_query_for qid (wt_events wt))
          \<and> wd_sent w' = wd_sent w @ [(ac_ws d, query_frame qid query)])
     \<and> hb_queryPending h' = (hb_queryPending h)(qid := None) \<and> hub_wf h'"
  using assms by (rule query_result)

theorem query_outcome_witness:
  "wd_sent (snd (snd (sendQuery wait1 ''x'' \<lparr>q_Op = ''balance'', q_ContactID = [], q_Account = ''x'',
      q_Nonce = []\<rparr> hub1 world1)))
   = [(1, query_frame (''qry_'' @ EncodeToString (replicate 12 0))
        \<lparr>q_Op = ''balance'', q_ContactID = [], q_Account = ''x'', q_Nonce = []\<rparr>)]"
proof -
  let ?q = "\<lparr>q_Op = ''balance'', q_ContactID = [], q_Account = ''x'', q_Nonce = []\<rparr>"
  obtain q h' w' where run: "sendQuery wait1 ''x'' ?q hub1 world1 = (q, h', w')"
    using prod_cases3 by blast
  have "stake 12 (wd_entropy world1) = replicate 12 0"
    by (simp add: world1_def map_replicate_const)
  then show ?thesis using query_outcome [OF hub1_wf run] run
    by (simp add: devices_hub1 Let_def first_accepting_def) (simp add: world1_def dev1_def)
qed

end
