(* ===== verification/Nano_Amount.thy ===== *)
theory Nano_Amount
  imports Relay_Prelude Complex_Main
begin

text \<open>
  File \<^verbatim>\<open>internal/nano/amount.go\<close>, with the functions of Go's \<^verbatim>\<open>math/big\<close> it rests on:
  \<^verbatim>\<open>Rat.SetString\<close> with its scanner (signs, the prefixes 0b, 0o, 0x and 0, digit separators, radix
  point, decimal and binary exponents, fractions) and \<^verbatim>\<open>Rat.FloatString\<close>. A \<^verbatim>\<open>big.Int\<close> is an \<open>int\<close> and
  a \<^verbatim>\<open>big.Rat\<close> a \<open>rat\<close>. Exponent sums are 64-bit in Go; a sum that wraps there is far outside
  the limits checked next, as it is without the wrap.
\<close>

section \<open>Scanning numbers\<close>

definition digit_val :: "char \<Rightarrow> nat" where
  "digit_val c =
     (let n = of_char c :: nat in
      if 48 \<le> n \<and> n \<le> 57 then n - 48
      else if 97 \<le> n \<and> n \<le> 122 then n - 97 + 10
      else if 65 \<le> n \<and> n \<le> 90 then n - 65 + 10
      else 63)"

text \<open>
  The loop of \<^verbatim>\<open>nat.scan\<close> with base argument 0: previous character class, whether a separator was
  misplaced, the number of digits, the position of the radix point, the value, and what is left.
\<close>

fun scan_loop :: "nat \<Rightarrow> bool \<Rightarrow> char \<Rightarrow> bool \<Rightarrow> nat \<Rightarrow> nat option \<Rightarrow> int \<Rightarrow> string \<Rightarrow>
    char \<times> bool \<times> nat \<times> nat option \<times> int \<times> string" where
  "scan_loop b fracOk prev inval cnt dp v [] = (prev, inval, cnt, dp, v, [])"
| "scan_loop b fracOk prev inval cnt dp v (ch # s) =
     (if ch = CHR ''.'' \<and> fracOk then
        scan_loop b False (CHR ''.'') (inval \<or> prev = CHR ''_'') cnt (Some cnt) v s
      else if ch = CHR ''_'' then
        scan_loop b fracOk (CHR ''_'') (inval \<or> prev \<noteq> CHR ''0'') cnt dp v s
      else if digit_val ch \<ge> b then (prev, inval, cnt, dp, v, ch # s)
      else scan_loop b fracOk (CHR ''0'') inval (Suc cnt) dp (v * int b + int (digit_val ch)) s)"

definition scan_finish :: "bool \<Rightarrow> nat \<Rightarrow> char \<times> bool \<times> nat \<times> nat option \<times> int \<times> string \<Rightarrow>
    (int \<times> nat \<times> int \<times> string) option" where
  "scan_finish octal0 b = (\<lambda>(prev, inval, cnt, dp, v, rest).
     if inval \<or> prev = CHR ''_'' then None
     else if cnt = 0 then (if octal0 then Some (0, 10, 1, rest) else None)
     else Some (v, b, (case dp of None \<Rightarrow> int cnt | Some d \<Rightarrow> int d - int cnt), rest))"

text \<open>\<^verbatim>\<open>nat.scan(r, 0, fracOk)\<close>: value, base, digit count (or minus the fraction digits), rest.\<close>

definition nat_scan :: "bool \<Rightarrow> string \<Rightarrow> (int \<times> nat \<times> int \<times> string) option" where
  "nat_scan fracOk s =
     (case s of
        [] \<Rightarrow> None
      | ch # s0 \<Rightarrow>
          if ch \<noteq> CHR ''0'' then
            scan_finish False 10 (scan_loop 10 fracOk (CHR ''.'') False 0 None 0 s)
          else
            (case s0 of
               [] \<Rightarrow> Some (0, 10, 1, [])
             | c # t \<Rightarrow>
                 if c = CHR ''b'' \<or> c = CHR ''B'' then
                   scan_finish False 2 (scan_loop 2 fracOk (CHR ''0'') False 0 None 0 t)
                 else if c = CHR ''o'' \<or> c = CHR ''O'' then
                   scan_finish False 8 (scan_loop 8 fracOk (CHR ''0'') False 0 None 0 t)
                 else if c = CHR ''x'' \<or> c = CHR ''X'' then
                   scan_finish False 16 (scan_loop 16 fracOk (CHR ''0'') False 0 None 0 t)
                 else if \<not> fracOk then
                   scan_finish True 8 (scan_loop 8 fracOk (CHR ''0'') False 0 None 0 s0)
                 else scan_finish False 10 (scan_loop 10 fracOk (CHR ''0'') False 1 None 0 s0)))"

definition scanSign :: "string \<Rightarrow> (bool \<times> string) option" where
  "scanSign s =
     (case s of
        [] \<Rightarrow> None
      | ch # t \<Rightarrow> if ch = CHR ''-'' then Some (True, t) else if ch = CHR ''+'' then Some (False, t)
                  else Some (False, s))"

fun exp_loop :: "char \<Rightarrow> bool \<Rightarrow> string \<Rightarrow> string \<Rightarrow> char \<times> bool \<times> string \<times> string" where
  "exp_loop prev inval ds [] = (prev, inval, ds, [])"
| "exp_loop prev inval ds (ch # s) =
     (if digit_val ch < 10 then exp_loop (CHR ''0'') inval (ds @ [ch]) s
      else if ch = CHR ''_'' then exp_loop (CHR ''_'') (inval \<or> prev \<noteq> CHR ''0'') ds s
      else (prev, inval, ds, ch # s))"

definition dec_val :: "string \<Rightarrow> int" where
  "dec_val ds = foldl (\<lambda>v c. v * 10 + int (digit_val c)) 0 ds"

text \<open>\<^verbatim>\<open>scanExponent(r, true, true)\<close>: exponent, its base, rest.\<close>

definition scanExponent :: "string \<Rightarrow> (int \<times> nat \<times> string) option" where
  "scanExponent s =
     (case s of
        [] \<Rightarrow> Some (0, 10, [])
      | ch # t \<Rightarrow>
          if ch = CHR ''e'' \<or> ch = CHR ''E'' \<or> ch = CHR ''p'' \<or> ch = CHR ''P'' then
            (let base = (if ch = CHR ''e'' \<or> ch = CHR ''E'' then 10 else 2);
                 (neg, u) = (case t of
                    c # u \<Rightarrow> if c = CHR ''-'' then (True, u) else if c = CHR ''+'' then (False, u) else (False, t)
                  | [] \<Rightarrow> (False, t));
                 (prev, inval, ds, rest) = exp_loop (CHR ''.'') False [] u;
                 e = (if neg then - dec_val ds else dec_val ds)
             in if ds = [] then None
                else if e < - (2 ^ 63) \<or> 2 ^ 63 \<le> e then None
                else if inval \<or> prev = CHR ''_'' then None
                else Some (e, base, rest))
          else Some (0, 10, s))"

definition int_SetString :: "string \<Rightarrow> int option" where
  "int_SetString s =
     (case scanSign s of
        None \<Rightarrow> None
      | Some (neg, t) \<Rightarrow>
          (case nat_scan False t of
             Some (v, _, _, []) \<Rightarrow> Some (if neg then - v else v)
           | _ \<Rightarrow> None))"

definition rat_SetString :: "string \<Rightarrow> rat option" where
  "rat_SetString s =
     (if s = [] then None
      else case Cut s (CHR ''/'') of
        Some (a, b) \<Rightarrow>
          (case (int_SetString a, nat_scan False b) of
             (Some n, Some (d, _, _, [])) \<Rightarrow> if d = 0 then None else Some (of_int n / of_int d)
           | _ \<Rightarrow> None)
      | None \<Rightarrow>
          (case scanSign s of
             None \<Rightarrow> None
           | Some (neg, t) \<Rightarrow>
               (case nat_scan True t of
                  None \<Rightarrow> None
                | Some (m, base, fcount, u) \<Rightarrow>
                    (case scanExponent u of
                       None \<Rightarrow> None
                     | Some (e, ebase, rest) \<Rightarrow>
                         if rest \<noteq> [] then None
                         else if m = 0 then Some 0
                         else
                           let d = min fcount 0;
                               exp5 = (if base = 10 then d else 0) + (if ebase = 10 then e else 0);
                               exp2 = (if base = 8 then d * 3 else if base = 16 then d * 4 else d) + e
                           in if 1000000 < \<bar>exp5\<bar> then None
                              else if exp2 < - 10000000 \<or> 10000000 < exp2 then None
                              else
                                let num = of_int m * 5 ^ nat exp5 * 2 ^ nat exp2 :: rat;
                                    den = 5 ^ nat (- exp5) * 2 ^ nat (- exp2)
                                in Some (if neg then - (num / den) else num / den)))))"

definition Rat_IsInt :: "rat \<Rightarrow> bool" where
  "Rat_IsInt r \<longleftrightarrow> snd (quotient_of r) = 1"

definition Rat_Num :: "rat \<Rightarrow> int" where
  "Rat_Num r = fst (quotient_of r)"

section \<open>The code\<close>

definition RawPerNano :: int where
  "RawPerNano = 10 ^ 30"

definition ParseNanoAmount :: "string \<Rightarrow> go_error + int" where
  "ParseNanoAmount s =
     (case rat_SetString s of
        None \<Rightarrow> Inl (GoErr ''nano: invalid decimal amount'')
      | Some rat \<Rightarrow>
          let rat = rat * of_int RawPerNano in
          if \<not> Rat_IsInt rat then Inl (GoErr ''nano: amount has more precision than 1 raw'')
          else if rat < 0 then Inl (GoErr ''nano: amount must not be negative'')
          else Inr (Rat_Num rat))"

definition digit_char :: "int \<Rightarrow> char" where
  "digit_char d = char_of (48 + nat d)"

text \<open>The decimal digits of a non-negative number.\<close>

function utoa :: "int \<Rightarrow> string" where
  "utoa n = (if n < 10 then [digit_char n] else utoa (n div 10) @ [digit_char (n mod 10)])"
  by pat_completeness auto
termination
  by (relation "measure nat") auto

declare utoa.simps [simp del]

definition Int_String :: "int \<Rightarrow> string" where
  "Int_String n = (if n < 0 then ''-'' @ utoa (- n) else utoa n)"

definition FloatString :: "rat \<Rightarrow> nat \<Rightarrow> string" where
  "FloatString x prec =
     (let (a, b) = quotient_of x in
      if b = 1 then Int_String a @ (if prec > 0 then ''.'' @ replicate prec (CHR ''0'') else [])
      else
        let q = \<bar>a\<bar> div b; r = \<bar>a\<bar> mod b;
            p = 10 ^ prec;
            r1 = r * p div b; r2 = r * p mod b;
            (q', r') = (if b \<le> r2 + r2 then (if r1 + 1 \<ge> p then (q + 1, r1 + 1 - p) else (q, r1 + 1)) else (q, r1));
            rs = utoa r'
        in (if a < 0 then ''-'' else []) @ utoa q'
           @ (if prec > 0 then ''.'' @ replicate (prec - length rs) (CHR ''0'') @ rs else []))"

text \<open>The argument is a pointer; \<open>None\<close> is nil.\<close>

definition FormatNanoAmount :: "int option \<Rightarrow> string" where
  "FormatNanoAmount raw =
     (case raw of None \<Rightarrow> ''0'' | Some n \<Rightarrow> FloatString (of_int n / of_int RawPerNano) 30)"

section \<open>Digits\<close>

definition is_dec :: "char \<Rightarrow> bool" where
  "is_dec c \<longleftrightarrow> digit_val c < 10"

lemma is_dec_range: "is_dec c \<longleftrightarrow> 48 \<le> (of_char c :: nat) \<and> of_char c \<le> (57 :: nat)"
  by (auto simp: is_dec_def digit_val_def Let_def)

lemma is_dec_not:
  assumes "is_dec c"
  shows "c \<noteq> CHR ''.''" "c \<noteq> CHR ''_''" "c \<noteq> CHR ''b''" "c \<noteq> CHR ''B''" "c \<noteq> CHR ''o''" "c \<noteq> CHR ''O''"
    "c \<noteq> CHR ''x''" "c \<noteq> CHR ''X''" "c \<noteq> CHR ''-''" "c \<noteq> CHR ''+''" "c \<noteq> CHR ''/''"
  using assms by (auto simp: is_dec_def digit_val_def Let_def)

abbreviation dstep :: "int \<Rightarrow> char \<Rightarrow> int" where
  "dstep v c \<equiv> v * 10 + int (digit_val c)"

lemma scan_digits:
  "list_all is_dec ds \<Longrightarrow> scan_loop 10 f prev inval cnt dp v (ds @ rest) =
     scan_loop 10 f (if ds = [] then prev else CHR ''0'') inval (cnt + length ds) dp (foldl dstep v ds) rest"
proof (induction ds arbitrary: prev cnt v)
  case (Cons c ds)
  have "digit_val c < 10" using Cons.prems by (simp add: is_dec_def)
  then show ?case using Cons is_dec_not(1,2) [of c] by simp
qed simp

lemma nat_scan_decimal:
  assumes "ip \<noteq> []" "list_all is_dec ip" "list_all is_dec fp"
  shows "nat_scan True (ip @ ''.'' @ fp) = Some (dec_val (ip @ fp), 10, - int (length fp), [])"
proof -
  have fin: "scan_finish False 10 (scan_loop 10 True prev False cnt None v (ds @ ''.'' @ fp))
      = Some (foldl dstep (foldl dstep v ds) fp, 10, - int (length fp), [])"
    if "list_all is_dec ds" "0 < cnt + length ds" "prev \<noteq> CHR ''_'' \<or> ds \<noteq> []" for prev cnt v ds
  proof -
    have "scan_loop 10 False p False n d u fp = (if fp = [] then p else CHR ''0'', False, n + length fp, d, foldl dstep u fp, [])"
      for p n d u using scan_digits [OF assms(3), of False p False n d u "[]"] by simp
    then show ?thesis using that by (auto simp: scan_digits scan_finish_def)
  qed
  obtain c ip' where ip: "ip = c # ip'" using assms(1) by (cases ip) auto
  show ?thesis
  proof (cases "c = CHR ''0''")
    case False
    then show ?thesis using fin [of ip 0 "CHR ''.''" 0] assms ip
      by (simp add: nat_scan_def dec_val_def)
  next
    case True
    have z: "digit_val (CHR ''0'') = 0" by (simp add: digit_val_def)
    have rec: "scan_finish False 10 (scan_loop 10 True (CHR ''0'') False 1 None 0 (ip' @ ''.'' @ fp))
        = Some (dec_val (ip @ fp), 10, - int (length fp), [])"
      using fin [of ip' 1 "CHR ''0''" 0] assms(2) ip True z by (simp add: dec_val_def)
    have nb: "\<not> (c' = CHR ''b'' \<or> c' = CHR ''B'')" "\<not> (c' = CHR ''o'' \<or> c' = CHR ''O'')"
        "\<not> (c' = CHR ''x'' \<or> c' = CHR ''X'')" if "ip' @ CHR ''.'' # fp = c' # t" for c' t
    proof -
      have "c' = CHR ''.'' \<or> is_dec c'" using that assms(2) ip by (cases ip') auto
      then show "\<not> (c' = CHR ''b'' \<or> c' = CHR ''B'')" "\<not> (c' = CHR ''o'' \<or> c' = CHR ''O'')"
        "\<not> (c' = CHR ''x'' \<or> c' = CHR ''X'')" using is_dec_not [of c'] by auto
    qed
    obtain c' t where ct: "ip' @ CHR ''.'' # fp = c' # t" by (cases ip') auto
    show ?thesis using rec nb [OF ct] ip True by (simp add: nat_scan_def ct del: scan_loop.simps)
  qed
qed

section \<open>Rationals that are integers\<close>

lemma of_int_div_dvd: "d dvd n \<Longrightarrow> 0 < d \<Longrightarrow> of_int n / of_int d = (of_int (n div d) :: rat)"
  by (auto elim!: dvdE)

lemma Rat_IsInt_iff:
  assumes "0 < d"
  shows "Rat_IsInt (of_int n / of_int d) \<longleftrightarrow> d dvd n"
proof
  assume "Rat_IsInt (of_int n / of_int d)"
  then obtain a where "quotient_of (of_int n / of_int d) = (a, 1)"
    unfolding Rat_IsInt_def by (metis prod.collapse)
  then have "of_int n / of_int d = (of_int a :: rat)" using quotient_of_div by fastforce
  then have "(of_int n :: rat) = of_int (a * d)" using assms by (simp add: field_simps)
  then have "n = a * d" by (simp only: of_int_eq_iff)
  then show "d dvd n" by simp
next
  assume "d dvd n"
  then have "of_int n / of_int d = (of_int (n div d) :: rat)" using assms by (rule of_int_div_dvd)
  then show "Rat_IsInt (of_int n / of_int d)" by (simp add: Rat_IsInt_def)
qed

lemma Rat_Num_int: "Rat_Num (of_int n) = n"
  by (simp add: Rat_Num_def)

lemma ParseNanoAmount_rat:
  assumes "rat_SetString s = Some (of_int n / of_int d)" "0 < d" "0 \<le> n"
  shows "ParseNanoAmount s = (if d dvd n * RawPerNano then Inr (n * RawPerNano div d)
     else Inl (GoErr ''nano: amount has more precision than 1 raw''))"
proof -
  let ?N = "n * RawPerNano"
  have eq: "of_int n / of_int d * of_int RawPerNano = (of_int ?N / of_int d :: rat)" by simp
  have pos: "\<not> of_int ?N / of_int d < (0 :: rat)"
    using assms(2,3) by (simp add: not_less divide_nonneg_pos RawPerNano_def)
  show ?thesis
  proof (cases "d dvd ?N")
    case True
    then have "of_int ?N / of_int d = (of_int (?N div d) :: rat)" using assms(2) by (rule of_int_div_dvd)
    then have "Rat_Num (of_int ?N / of_int d) = ?N div d" by (metis Rat_Num_int)
    then show ?thesis using True pos Rat_IsInt_iff [OF assms(2), of ?N]
      unfolding ParseNanoAmount_def Let_def assms(1) option.case eq by (simp del: of_int_mult)
  next
    case False
    then show ?thesis using Rat_IsInt_iff [OF assms(2), of ?N]
      unfolding ParseNanoAmount_def Let_def assms(1) option.case eq by (simp del: of_int_mult)
  qed
qed

section \<open>Decimal amounts\<close>

lemma dec_val_nonneg: "0 \<le> dec_val ds"
proof -
  have "0 \<le> v \<Longrightarrow> 0 \<le> foldl dstep v ds" for v by (induction ds arbitrary: v) simp_all
  then show ?thesis by (simp add: dec_val_def)
qed

lemma parse_decimal:
  assumes "ip \<noteq> []" "list_all is_dec ip" "list_all is_dec fp" "length fp \<le> 1000000"
  shows "ParseNanoAmount (ip @ ''.'' @ fp) =
    (let raw = dec_val (ip @ fp) * 10 ^ 30; scale = 10 ^ length fp in
     if scale dvd raw then Inr (raw div scale)
     else Inl (GoErr ''nano: amount has more precision than 1 raw''))"
proof -
  let ?s = "ip @ CHR ''.'' # fp" and ?v = "dec_val (ip @ fp)" and ?k = "length fp"
  have "CHR ''/'' \<notin> set ?s" using assms(2,3) is_dec_not(11) by (auto simp: list_all_iff)
  then have cut: "Cut ?s (CHR ''/'') = None" by (simp add: Cut_None)
  obtain c ip' where ip: "ip = c # ip'" using assms(1) by (cases ip) auto
  have sign: "scanSign ?s = Some (False, ?s)"
    using is_dec_not(9,10) [of c] assms(2) by (simp add: scanSign_def ip)
  have scan: "nat_scan True ?s = Some (?v, 10, - int ?k, [])"
    using nat_scan_decimal [OF assms(1-3)] by simp
  have "rat_SetString ?s = Some (of_int ?v / of_int (10 ^ ?k))"
  proof (cases "?v = 0")
    case True
    then show ?thesis using assms(1)
      by (simp add: rat_SetString_def cut sign scan scanExponent_def)
  next
    case False
    have "(5::rat) ^ ?k * 2 ^ ?k = 10 ^ ?k" by (simp flip: power_mult_distrib)
    then show ?thesis using False assms(1,4)
      by (simp add: rat_SetString_def cut sign scan scanExponent_def Let_def)
  qed
  then show ?thesis
    using ParseNanoAmount_rat [of ?s ?v "10 ^ ?k"] dec_val_nonneg by (simp add: RawPerNano_def Let_def)
qed

text \<open>
  C35. Plain decimals mean what they say. The amount \<open>ip.fp\<close> in Nano (at least one digit before the
  point, up to a million after it) is \<open>ip.fp * 10^30\<close> raw, exactly; it is an error precisely when that is
  not a whole number of raw units.
\<close>

theorem decimal_amount:
  assumes "ip \<noteq> []" "list_all is_dec ip" "list_all is_dec fp" "length fp \<le> 1000000"
  shows "ParseNanoAmount (ip @ ''.'' @ fp) =
    (let raw = dec_val (ip @ fp) * 10 ^ 30; scale = 10 ^ length fp in
     if scale dvd raw then Inr (raw div scale)
     else Inl (GoErr ''nano: amount has more precision than 1 raw''))"
  using assms by (rule parse_decimal)

theorem decimal_amount_witness:
  "ParseNanoAmount ''1.5'' = Inr (15 * 10 ^ 29)"
  using decimal_amount [of "''1''" "''5''"] by (simp add: is_dec_def digit_val_def dec_val_def Let_def)

text \<open>
  The parser accepts more than decimals: a fraction, a hexadecimal number, an exponent and digit
  separators are amounts too, and a leading zero makes a numerator octal.
\<close>

theorem amount_beyond_decimal:
  "ParseNanoAmount ''3/2'' = Inr (15 * 10 ^ 29) \<and> ParseNanoAmount ''0x10'' = Inr (16 * 10 ^ 30)
   \<and> ParseNanoAmount ''1e-3'' = Inr (10 ^ 27) \<and> ParseNanoAmount ''1_0'' = Inr (10 ^ 31)
   \<and> ParseNanoAmount ''010/4'' = Inr (2 * 10 ^ 30) \<and> ParseNanoAmount ''010'' = Inr (10 * 10 ^ 30)"
proof -
  note scan = rat_SetString_def int_SetString_def scanSign_def nat_scan_def scan_finish_def digit_val_def
    scanExponent_def dec_val_def Let_def
  have "rat_SetString ''3/2'' = Some (of_int 3 / of_int 2)"
    "rat_SetString ''0x10'' = Some (of_int 16 / of_int 1)"
    "rat_SetString ''1e-3'' = Some (of_int 1 / of_int 1000)"
    "rat_SetString ''1_0'' = Some (of_int 10 / of_int 1)"
    "rat_SetString ''010/4'' = Some (of_int 8 / of_int 4)"
    "rat_SetString ''010'' = Some (of_int 10 / of_int 1)"
    by (simp_all add: scan)
  from this [THEN ParseNanoAmount_rat] show ?thesis by (simp add: RawPerNano_def)
qed

section \<open>Printing and reading back\<close>

lemma foldl_dstep: "foldl dstep v ds = v * 10 ^ length ds + dec_val ds"
  unfolding dec_val_def
proof (induction ds arbitrary: v)
  case (Cons c ds)
  have "foldl dstep v (c # ds) = (v * 10 + int (digit_val c)) * 10 ^ length ds + foldl dstep 0 ds"
    using Cons [of "dstep v c"] by simp
  moreover have "foldl dstep 0 (c # ds) = int (digit_val c) * 10 ^ length ds + foldl dstep 0 ds"
    using Cons [of "int (digit_val c)"] by simp
  ultimately show ?case by (simp add: distrib_right)
qed simp

lemma dec_val_append: "dec_val (xs @ ys) = dec_val xs * 10 ^ length ys + dec_val ys"
  using foldl_dstep [of "dec_val xs" ys] by (simp add: dec_val_def)

lemma dec_val_zeros: "dec_val (replicate n (CHR ''0'') @ ds) = dec_val ds"
proof -
  have "dec_val (replicate n (CHR ''0'')) = 0"
    by (induction n) (simp_all add: dec_val_def digit_val_def)
  then show ?thesis by (simp add: dec_val_append)
qed

lemma digit_char_val:
  assumes "0 \<le> d" "d < 10"
  shows "digit_val (digit_char d) = nat d" "is_dec (digit_char d)"
proof -
  have "(of_char (digit_char d) :: nat) = 48 + nat d"
    using assms by (simp add: digit_char_def of_char_of)
  then show "digit_val (digit_char d) = nat d" using assms by (simp add: digit_val_def Let_def)
  then show "is_dec (digit_char d)" using assms by (simp add: is_dec_def)
qed

lemma utoa_props:
  "0 \<le> n \<Longrightarrow> dec_val (utoa n) = n \<and> list_all is_dec (utoa n) \<and> utoa n \<noteq> []"
proof (induction n rule: utoa.induct)
  case (1 n)
  show ?case
  proof (cases "n < 10")
    case True
    then show ?thesis using 1 digit_char_val [of n] by (simp add: utoa.simps [of n] dec_val_def)
  next
    case False
    then have IH: "dec_val (utoa (n div 10)) = n div 10" "list_all is_dec (utoa (n div 10))"
      using 1 by simp_all
    have "dec_val [digit_char (n mod 10)] = n mod 10"
      using digit_char_val(1) [of "n mod 10"] by (simp add: dec_val_def)
    then show ?thesis using IH False digit_char_val(2) [of "n mod 10"]
      by (simp add: utoa.simps [of n] dec_val_append)
  qed
qed

lemma utoa_first: "0 < n \<Longrightarrow> utoa n ! 0 \<noteq> CHR ''0''"
proof (induction n rule: utoa.induct)
  case (1 n)
  show ?case
  proof (cases "n < 10")
    case True
    have "digit_val (CHR ''0'') = 0" by (simp add: digit_val_def)
    then show ?thesis using True 1(2) digit_char_val(1) [of n] by (auto simp: utoa.simps [of n])
  next
    case False
    then have "utoa (n div 10) ! 0 \<noteq> CHR ''0''" "utoa (n div 10) \<noteq> []"
      using 1 utoa_props [of "n div 10"] by simp_all
    then show ?thesis using False by (simp add: utoa.simps [of n] nth_append)
  qed
qed

lemma length_utoa: "0 \<le> n \<Longrightarrow> n < 10 ^ Suc k \<Longrightarrow> length (utoa n) \<le> Suc k"
proof (induction k arbitrary: n)
  case 0
  then show ?case by (simp add: utoa.simps)
next
  case (Suc k)
  show ?case
  proof (cases "n < 10")
    case False
    have "n div 10 < 10 ^ Suc k" using Suc.prems(2) by (simp add: div_less_iff_less_mult)
    then have "length (utoa (n div 10)) \<le> Suc k" using Suc.prems(1) by (intro Suc.IH) simp_all
    then show ?thesis using False by (simp add: utoa.simps [of n])
  qed (simp add: utoa.simps)
qed

definition pad30 :: "int \<Rightarrow> string" where
  "pad30 r = replicate (30 - length (utoa r)) (CHR ''0'') @ utoa r"

lemma pad30_props:
  assumes "0 \<le> r" "r < 10 ^ 30"
  shows "dec_val (pad30 r) = r" "list_all is_dec (pad30 r)" "length (pad30 r) = 30"
proof -
  have "length (utoa r) \<le> Suc 29" using assms by (intro length_utoa) simp_all
  then show "length (pad30 r) = 30" by (simp add: pad30_def)
  show "dec_val (pad30 r) = r" using utoa_props [OF assms(1)] by (simp add: pad30_def dec_val_zeros)
  have "list_all is_dec (replicate k (CHR ''0''))" for k
    by (simp add: is_dec_def digit_val_def Let_def list_all_iff)
  then show "list_all is_dec (pad30 r)" using utoa_props [OF assms(1)] by (simp add: pad30_def)
qed

lemma FloatString_raw:
  assumes "0 \<le> n"
  shows "FloatString (of_int n / of_int (10 ^ 30)) 30 = utoa (n div 10 ^ 30) @ ''.'' @ pad30 (n mod 10 ^ 30)"
proof -
  let ?P = "10 ^ 30 :: int"
  obtain a b where q: "quotient_of (of_int n / of_int ?P) = (a, b)" by fastforce
  have b: "0 < b" using quotient_of_denom_pos [OF q] .
  have "of_int n / of_int ?P = (of_int a / of_int b :: rat)" by (rule quotient_of_div [OF q])
  then have "(of_int (n * b) :: rat) = of_int (a * ?P)" using b by (simp add: field_simps)
  then have eq: "n * b = a * ?P" by (simp only: of_int_eq_iff)
  have a: "0 \<le> a" using eq assms b by (metis mult_nonneg_nonneg less_imp_le zero_le_mult_iff zero_less_power zero_less_numeral not_less)
  have dq: "a div b = n div ?P"
  proof -
    have "a div b = (a * ?P) div (b * ?P)" by (rule div_mult_mult2 [symmetric]) simp
    also have "\<dots> = (n * b) div (?P * b)" by (simp only: eq mult.commute [of b])
    also have "\<dots> = n div ?P" using b by (intro div_mult_mult2) simp
    finally show ?thesis .
  qed
  have rem: "a mod b * ?P = n mod ?P * b"
  proof -
    have "a mod b * ?P = (a - a div b * b) * ?P" by (simp only: minus_div_mult_eq_mod)
    also have "\<dots> = a * ?P - a div b * b * ?P" by (simp only: left_diff_distrib)
    also have "\<dots> = n * b - n div ?P * ?P * b"
      by (simp only: eq dq mult.assoc mult.commute [of b])
    also have "\<dots> = (n - n div ?P * ?P) * b" by (simp only: left_diff_distrib)
    finally show ?thesis by (simp add: minus_div_mult_eq_mod)
  qed
  show ?thesis
  proof (cases "b = 1")
    case True
    then have n: "n = a * ?P" using eq by simp
    have "digit_char 0 = CHR ''0''" by (simp add: digit_char_def char_of_eq_iff)
    then have "utoa 0 = [CHR ''0'']" by (simp add: utoa.simps)
    moreover have "replicate 29 (CHR ''0'') @ [CHR ''0''] = replicate (Suc 29) (CHR ''0'')"
      by (simp only: replicate_append_same replicate_Suc)
    ultimately have "pad30 0 = replicate 30 (CHR ''0'')" by (simp add: pad30_def)
    then show ?thesis using a unfolding FloatString_def q Let_def prod.case
      by (simp add: True n Int_String_def)
  next
    case False
    have "a mod b * ?P div b = n mod ?P" "a mod b * ?P mod b = 0"
      unfolding rem using b by simp_all
    then show ?thesis using a b False unfolding FloatString_def q Let_def prod.case
      by (simp add: dq pad30_def)
  qed
qed

text \<open>
  C36. Printing and parsing an amount is the identity: for every raw amount that is not negative,
  \<^verbatim>\<open>ParseNanoAmount\<close> gives back exactly the raw units that \<^verbatim>\<open>FormatNanoAmount\<close> printed.
\<close>

theorem amount_roundtrip:
  assumes "0 \<le> raw"
  shows "ParseNanoAmount (FormatNanoAmount (Some raw)) = Inr raw"
proof -
  let ?P = "10 ^ 30 :: int"
  have r: "0 \<le> raw mod ?P" "raw mod ?P < ?P" by simp_all
  note p = pad30_props [OF r]
  note u = utoa_props [of "raw div ?P"]
  have q: "0 \<le> raw div ?P" using assms by (simp add: pos_imp_zdiv_nonneg_iff)
  have "FormatNanoAmount (Some raw) = utoa (raw div ?P) @ ''.'' @ pad30 (raw mod ?P)"
    using FloatString_raw [OF assms] by (simp add: FormatNanoAmount_def RawPerNano_def)
  moreover have "dec_val (utoa (raw div ?P) @ pad30 (raw mod ?P)) = raw"
    using u [OF q] p by (simp add: dec_val_append)
  ultimately show ?thesis
    using parse_decimal [of "utoa (raw div ?P)" "pad30 (raw mod ?P)"] u [OF q] p by (simp add: Let_def)
qed

theorem amount_roundtrip_witness:
  "ParseNanoAmount (FormatNanoAmount (Some 1500000000000000000000000000000))
     = Inr 1500000000000000000000000000000"
  by (rule amount_roundtrip) simp

end
