(* ===== verification/Nano_Crypto.thy ===== *)
theory Nano_Crypto
  imports Nano_Account
begin

text \<open>
  Files \<^verbatim>\<open>internal/nano/keys.go\<close>, \<^verbatim>\<open>sign.go\<close> and \<^verbatim>\<open>auth.go\<close>: seeds and keys, ed25519 signatures with
  BLAKE2b, and the challenge a device signs to prove control of an account. The curve arithmetic is
  \<^verbatim>\<open>filippo.io/edwards25519\<close>, a record of operations here, with its documented behaviour as the predicate
  \<open>ed_ok\<close>; a \<^verbatim>\<open>Point\<close> is the point, not its representation. A setter that can
  fail returns the text of its error, or \<open>None\<close> where the code drops the text.
\<close>

section \<open>The curve\<close>

record ('s, 'p) edwards =
  SetBytesWithClamping :: "byte list \<Rightarrow> string + 's"
  SetUniformBytes :: "byte list \<Rightarrow> string + 's"
  SetCanonicalBytes :: "byte list \<Rightarrow> 's option"
  ScalarBytes :: "'s \<Rightarrow> byte list"
  MultiplyAdd :: "'s \<Rightarrow> 's \<Rightarrow> 's \<Rightarrow> 's"
  ScalarBaseMult :: "'s \<Rightarrow> 'p"
  ScalarMult :: "'s \<Rightarrow> 'p \<Rightarrow> 'p"
  PointAdd :: "'p \<Rightarrow> 'p \<Rightarrow> 'p"
  PointEqual :: "'p \<Rightarrow> 'p \<Rightarrow> bool"
  PointBytes :: "'p \<Rightarrow> byte list"
  PointSetBytes :: "byte list \<Rightarrow> 'p option"

text \<open>
  What the package documents: the setters fail only on a wrong length (or, for the canonical setter,
  on an encoding that is not canonical), encodings have 32 bytes and decode to what they encode,
  scalar multiplication is linear, and the base point has the order of the scalar field.
\<close>

definition ed_ok :: "('s, 'p) edwards \<Rightarrow> bool" where
  "ed_ok E \<longleftrightarrow>
     (\<forall>b. length b = 32 \<longrightarrow> (\<exists>s. SetBytesWithClamping E b = Inr s)) \<and>
     (\<forall>b. length b = 64 \<longrightarrow> (\<exists>s. SetUniformBytes E b = Inr s)) \<and>
     (\<forall>s. length (ScalarBytes E s) = 32 \<and> SetCanonicalBytes E (ScalarBytes E s) = Some s) \<and>
     (\<forall>b s. SetCanonicalBytes E b = Some s \<longrightarrow> ScalarBytes E s = b) \<and>
     (\<forall>p. length (PointBytes E p) = 32 \<and> PointSetBytes E (PointBytes E p) = Some p) \<and>
     (\<forall>p q. PointEqual E p q \<longleftrightarrow> p = q) \<and>
     (\<forall>x y z. ScalarBaseMult E (MultiplyAdd E x y z) =
        PointAdd E (ScalarBaseMult E z) (ScalarMult E x (ScalarBaseMult E y))) \<and>
     (\<forall>x y. ScalarBaseMult E x = ScalarBaseMult E y \<longrightarrow> x = y)"

text \<open>Go's \<^verbatim>\<open>copy\<close> into a zeroed array of \<open>n\<close> bytes.\<close>

definition copy_into :: "nat \<Rightarrow> byte list \<Rightarrow> byte list" where
  "copy_into n bs = take n bs @ replicate (n - length bs) 0"

lemma copy_into_id [simp]: "length bs = n \<Longrightarrow> copy_into n bs = bs"
  by (simp add: copy_into_def)

section \<open>keys.go\<close>

type_synonym PrivateKey = "byte list"  \<comment> \<open>\<^verbatim>\<open>[32]byte\<close>\<close>
type_synonym Seed = "byte list"        \<comment> \<open>\<^verbatim>\<open>[32]byte\<close>\<close>

definition NewSeed :: "entropy \<Rightarrow> Seed \<times> entropy" where
  "NewSeed e = rand_Read 32 e"

text \<open>The text of a hex decoding error: the first byte that is no hex digit, or an odd length.\<close>

definition upper_hex :: "nat \<Rightarrow> char" where
  "upper_hex n = ''0123456789ABCDEF'' ! n"

definition printable :: "nat \<Rightarrow> bool" where
  "printable n \<longleftrightarrow> (32 \<le> n \<and> n \<le> 126) \<or> (161 \<le> n \<and> n \<le> 255 \<and> n \<noteq> 173)"

definition utf8_latin1 :: "nat \<Rightarrow> string" where
  "utf8_latin1 n = (if n < 128 then [char_of n] else [char_of (192 + n div 64), char_of (128 + n mod 64)])"

definition hex_error :: "string \<Rightarrow> string" where
  "hex_error s =
     (case find (\<lambda>c. from_hex_char c = None) s of
        None \<Rightarrow> ''encoding/hex: odd length hex string''
      | Some c \<Rightarrow>
          let n = of_char c in
          ''encoding/hex: invalid byte: U+00'' @ [upper_hex (n div 16), upper_hex (n mod 16)]
          @ (if printable n then '' '' @ [CHR 0x27] @ utf8_latin1 n @ [CHR 0x27] else []))"

definition ParseSeed :: "string \<Rightarrow> go_error + Seed" where
  "ParseSeed hexSeed =
     (case DecodeString hexSeed of
        None \<Rightarrow> Inl (GoErr (''nano: parsing seed: '' @ hex_error hexSeed))
      | Some b \<Rightarrow>
          if length b \<noteq> 32 then Inl (GoErr ''nano: seed must be 32 bytes (64 hex chars)'')
          else Inr (copy_into 32 b))"

definition Seed_Hex :: "Seed \<Rightarrow> string" where
  "Seed_Hex s = EncodeToString s"

definition PutUint32 :: "32 word \<Rightarrow> byte list" where
  "PutUint32 v = [ucast (drop_bit 24 v), ucast (drop_bit 16 v), ucast (drop_bit 8 v), ucast v]"

definition DeriveKey :: "blake2b \<Rightarrow> Seed \<Rightarrow> 32 word \<Rightarrow> go_error + PrivateKey" where
  "DeriveKey B s index =
     (case blake2b256 B [s, PutUint32 index] of
        Inl e \<Rightarrow> Inl e
      | Inr d \<Rightarrow> Inr (copy_into 32 d))"

definition expandedScalar ::
  "blake2b \<Rightarrow> ('s, 'p) edwards \<Rightarrow> PrivateKey \<Rightarrow> go_error + 's \<times> byte list" where
  "expandedScalar B E pk =
     (case blake2b512 B [pk] of
        Inl e \<Rightarrow> Inl e
      | Inr h \<Rightarrow>
          (case SetBytesWithClamping E (take 32 h) of
             Inl err \<Rightarrow> Inl (GoPanic (''nano: scalar clamp failed: '' @ err))
           | Inr scalar \<Rightarrow> Inr (scalar, drop 32 h)))"

definition Public :: "blake2b \<Rightarrow> ('s, 'p) edwards \<Rightarrow> PrivateKey \<Rightarrow> go_error + PublicKey" where
  "Public B E pk =
     (case expandedScalar B E pk of
        Inl e \<Rightarrow> Inl e
      | Inr (scalar, _) \<Rightarrow> Inr (copy_into 32 (PointBytes E (ScalarBaseMult E scalar))))"

definition PrivateKey_Address :: "blake2b \<Rightarrow> ('s, 'p) edwards \<Rightarrow> PrivateKey \<Rightarrow> go_error + string" where
  "PrivateKey_Address B E pk =
     (case Public B E pk of Inl e \<Rightarrow> Inl e | Inr pub \<Rightarrow> Address B pub)"

section \<open>sign.go\<close>

type_synonym Signature = "byte list"   \<comment> \<open>\<^verbatim>\<open>[64]byte\<close>\<close>

definition Sign :: "blake2b \<Rightarrow> ('s, 'p) edwards \<Rightarrow> PrivateKey \<Rightarrow> byte list \<Rightarrow> go_error + Signature" where
  "Sign B E pk msg =
     (case expandedScalar B E pk of
        Inl e \<Rightarrow> Inl e
      | Inr (a, pfx) \<Rightarrow>
          let pub = PointBytes E (ScalarBaseMult E a) in
          (case blake2b512 B [pfx, msg] of
             Inl e \<Rightarrow> Inl e
           | Inr rh \<Rightarrow>
               (case SetUniformBytes E rh of
                  Inl err \<Rightarrow> Inl (GoPanic (''nano: r reduction failed: '' @ err))
                | Inr r \<Rightarrow>
                    let Rb = PointBytes E (ScalarBaseMult E r) in
                    (case blake2b512 B [Rb, pub, msg] of
                       Inl e \<Rightarrow> Inl e
                     | Inr kh \<Rightarrow>
                         (case SetUniformBytes E kh of
                            Inl err \<Rightarrow> Inl (GoPanic (''nano: k reduction failed: '' @ err))
                          | Inr k \<Rightarrow>
                              Inr (copy_into 32 Rb @ copy_into 32 (ScalarBytes E (MultiplyAdd E k a r))))))))"

definition Verify ::
  "blake2b \<Rightarrow> ('s, 'p) edwards \<Rightarrow> PublicKey \<Rightarrow> byte list \<Rightarrow> Signature \<Rightarrow> go_error + bool" where
  "Verify B E pub msg sig =
     (case PointSetBytes E pub of
        None \<Rightarrow> Inr False
      | Some A \<Rightarrow>
          (case PointSetBytes E (take 32 sig) of
             None \<Rightarrow> Inr False
           | Some R \<Rightarrow>
               (case SetCanonicalBytes E (drop 32 sig) of
                  None \<Rightarrow> Inr False
                | Some S \<Rightarrow>
                    (case blake2b512 B [take 32 sig, pub, msg] of
                       Inl e \<Rightarrow> Inl e
                     | Inr kh \<Rightarrow>
                         (case SetUniformBytes E kh of
                            Inl _ \<Rightarrow> Inr False
                          | Inr k \<Rightarrow>
                              Inr (PointEqual E (ScalarBaseMult E S)
                                     (PointAdd E R (ScalarMult E k A))))))))"

section \<open>auth.go\<close>

definition authDomain :: "byte list" where
  "authDomain = bytes_of ''nora-auth-v1''"

definition AuthChallengeDigest :: "blake2b \<Rightarrow> byte list \<Rightarrow> PublicKey \<Rightarrow> go_error + byte list" where
  "AuthChallengeDigest B nonce account = blake2b256 B [authDomain, nonce, account]"

definition SignChallenge ::
  "blake2b \<Rightarrow> ('s, 'p) edwards \<Rightarrow> PrivateKey \<Rightarrow> byte list \<Rightarrow> go_error + Signature" where
  "SignChallenge B E pk nonce =
     (case Public B E pk of
        Inl e \<Rightarrow> Inl e
      | Inr pub \<Rightarrow>
          (case AuthChallengeDigest B nonce pub of
             Inl e \<Rightarrow> Inl e
           | Inr d \<Rightarrow> Sign B E pk d))"

definition VerifyChallenge ::
  "blake2b \<Rightarrow> ('s, 'p) edwards \<Rightarrow> PublicKey \<Rightarrow> byte list \<Rightarrow> Signature \<Rightarrow> go_error + bool" where
  "VerifyChallenge B E account nonce sig =
     (case AuthChallengeDigest B nonce account of
        Inl e \<Rightarrow> Inl e
      | Inr d \<Rightarrow> Verify B E account d sig)"

definition PolicySyncKey :: "blake2b \<Rightarrow> PrivateKey \<Rightarrow> go_error + byte list" where
  "PolicySyncKey B pk = blake2b256 B [bytes_of ''nora-policy-sync-v1'', pk]"

section \<open>An instance of the documented behaviour\<close>

text \<open>
  Arithmetic modulo 256 with the base point 1; a number is encoded by its byte and 31 zeros. It serves
  the closed instances.
\<close>

definition enc8 :: "byte \<Rightarrow> byte list" where
  "enc8 w = w # replicate 31 0"

definition dec8 :: "byte list \<Rightarrow> byte option" where
  "dec8 bs = (case bs of [] \<Rightarrow> None | w # r \<Rightarrow> if r = replicate 31 0 then Some w else None)"

definition toy :: "(byte, byte) edwards" where
  "toy = \<lparr>SetBytesWithClamping = (\<lambda>b. if length b = 32 then Inr (hd b) else Inl ''length''),
     SetUniformBytes = (\<lambda>b. if length b = 64 then Inr (hd b) else Inl ''length''),
     SetCanonicalBytes = dec8, ScalarBytes = enc8, MultiplyAdd = (\<lambda>x y z. x * y + z),
     ScalarBaseMult = (\<lambda>x. x), ScalarMult = (\<lambda>x p. x * p), PointAdd = (\<lambda>p q. p + q),
     PointEqual = (\<lambda>p q. p = q), PointBytes = enc8, PointSetBytes = dec8\<rparr>"

lemma toy_ok: "ed_ok toy"
  by (auto simp: ed_ok_def toy_def enc8_def dec8_def add.commute split: list.splits if_splits)

section \<open>Keys\<close>

text \<open>
  Seeds survive printing: parsing the hex text of a seed gives the seed back, and \<^verbatim>\<open>ParseSeed\<close>
  accepts exactly the texts of 64 hex digits.
\<close>

theorem seed_roundtrip:
  "(length s = 32 \<longrightarrow> ParseSeed (Seed_Hex s) = Inr s)
   \<and> ((\<exists>s. ParseSeed t = Inr s) \<longleftrightarrow> length t = 64 \<and> list_all (\<lambda>c. from_hex_char c \<noteq> None) t)"
proof -
  have dec: "(\<exists>b. DecodeString t = Some b) \<longleftrightarrow> even (length t) \<and> list_all (\<lambda>c. from_hex_char c \<noteq> None) t" for t
    by (induction t rule: DecodeString.induct) (auto split: option.splits)
  have "(\<exists>s. ParseSeed t = Inr s) \<longleftrightarrow> (\<exists>b. DecodeString t = Some b \<and> length b = 32)"
    by (auto simp: ParseSeed_def split: option.splits)
  also have "\<dots> \<longleftrightarrow> (\<exists>b. DecodeString t = Some b) \<and> length t = 64"
    using length_DecodeString [of t] by fastforce
  finally show ?thesis using dec [of t] by (auto simp: ParseSeed_def Seed_Hex_def)
qed

theorem seed_roundtrip_witness: "ParseSeed (Seed_Hex (replicate 32 171)) = Inr (replicate 32 171)"
  using seed_roundtrip [of "replicate 32 171"] by simp

lemma PutUint32_inj: "PutUint32 v = PutUint32 w \<Longrightarrow> v = w"
proof -
  assume eq: "PutUint32 v = PutUint32 w"
  show ?thesis
  proof (rule bit_eqI)
    fix n assume "possible_bit TYPE(32 word) n"
    then have n: "n < 32" by simp
    have b: "bit (ucast (drop_bit k v) :: byte) m = bit v (k + m)" "bit (ucast (drop_bit k w) :: byte) m = bit w (k + m)"
      if "m < 8" for k m using that by (simp_all add: bit_simps)
    have "n = 24 + (n - 24) \<and> n - 24 < 8 \<or> n = 16 + (n - 16) \<and> n - 16 < 8 \<or> n = 8 + (n - 8) \<and> n - 8 < 8 \<or> n < 8"
      using n by linarith
    then show "bit v n \<longleftrightarrow> bit w n"
      using eq b [of "n - 24" 24] b [of "n - 16" 16] b [of "n - 8" 8] b [of n 0]
      unfolding PutUint32_def by (metis drop_bit_0 id_apply list.inject add_0)
  qed
qed


text \<open>
  Key derivation hashes the seed followed by the index in big-endian order, never fails, and never
  feeds the hash the same bytes for two different indices.
\<close>

theorem derive_key_preimage:
  assumes "blake2b_ok B" "length s = 32"
  shows "DeriveKey B s i = Inr (digest B 32 (s @ PutUint32 i))
    \<and> length (digest B 32 (s @ PutUint32 i)) = 32 \<and> (s @ PutUint32 i = s @ PutUint32 j \<longleftrightarrow> i = j)"
  using assms(1) length_digest [OF assms(1), of 32 "s @ PutUint32 i"] PutUint32_inj [of i j]
  by (auto simp: DeriveKey_def blake2b256_digest)

theorem derive_key_preimage_witness:
  "DeriveKey pad_hash (replicate 32 1) 2 = Inr (digest pad_hash 32 (replicate 32 1 @ [0, 0, 0, 2]))"
  using derive_key_preimage [OF pad_hash_ok, of "replicate 32 1" 2]
  by (simp add: PutUint32_def)

section \<open>Signatures\<close>

lemma ed_simps:
  assumes "ed_ok E"
  shows "length b = 32 \<Longrightarrow> \<exists>s. SetBytesWithClamping E b = Inr s"
    "length b = 64 \<Longrightarrow> \<exists>s. SetUniformBytes E b = Inr s"
    "length (ScalarBytes E s) = 32" "SetCanonicalBytes E (ScalarBytes E s) = Some s"
    "length (PointBytes E p) = 32" "PointSetBytes E (PointBytes E p) = Some p"
    "PointEqual E p q \<longleftrightarrow> p = q"
    "ScalarBaseMult E (MultiplyAdd E x y z) = PointAdd E (ScalarBaseMult E z) (ScalarMult E x (ScalarBaseMult E y))"
  using assms unfolding ed_ok_def by blast+

lemma expandedScalar_ok:
  assumes "blake2b_ok B" "ed_ok E"
  obtains a pfx where "expandedScalar B E pk = Inr (a, pfx)"
    "Public B E pk = Inr (PointBytes E (ScalarBaseMult E a))"
proof -
  have "length (take 32 (digest B 64 pk)) = 32" by (simp add: length_digest [OF assms(1)])
  then obtain a where "SetBytesWithClamping E (take 32 (digest B 64 pk)) = Inr a"
    using ed_simps(1) [OF assms(2)] by blast
  then have "expandedScalar B E pk = Inr (a, drop 32 (digest B 64 pk))"
    by (simp add: expandedScalar_def blake2b512_digest [OF assms(1)])
  then show ?thesis using that by (simp add: Public_def ed_simps(5) [OF assms(2)])
qed

lemma sign_verify:
  assumes "blake2b_ok B" "ed_ok E"
  shows "\<exists>pub sig. Public B E pk = Inr pub \<and> length pub = 32 \<and> Sign B E pk msg = Inr sig
    \<and> length sig = 64 \<and> Verify B E pub msg sig = Inr True"
proof -
  note e = ed_simps [OF assms(2)] and h = blake2b512_digest [OF assms(1)]
  obtain a pfx where x: "expandedScalar B E pk = Inr (a, pfx)"
    and pub: "Public B E pk = Inr (PointBytes E (ScalarBaseMult E a))"
    using expandedScalar_ok [OF assms] by blast
  let ?A = "PointBytes E (ScalarBaseMult E a)"
  obtain r where r: "SetUniformBytes E (digest B 64 (pfx @ msg)) = Inr r"
    using e(2) length_digest [OF assms(1)] by fastforce
  let ?R = "PointBytes E (ScalarBaseMult E r)"
  obtain k where k: "SetUniformBytes E (digest B 64 (?R @ ?A @ msg)) = Inr k"
    using e(2) length_digest [OF assms(1)] by fastforce
  let ?sig = "?R @ ScalarBytes E (MultiplyAdd E k a r)"
  have "Sign B E pk msg = Inr ?sig" by (simp add: Sign_def x h r k e Let_def)
  moreover have "Verify B E ?A msg ?sig = Inr True" by (simp add: Verify_def e h k)
  ultimately show ?thesis using pub e(3,5) by simp
qed

text \<open>
  C37. Signing works: neither \<^verbatim>\<open>Public\<close> nor \<^verbatim>\<open>Sign\<close> panics, a signature has 64 bytes, and \<^verbatim>\<open>Verify\<close>
  accepts it for the signer's public key and the message signed.
\<close>

theorem sign_then_verify:
  assumes "blake2b_ok B" "ed_ok E"
  shows "\<exists>pub sig. Public B E pk = Inr pub \<and> length pub = 32 \<and> Sign B E pk msg = Inr sig
    \<and> length sig = 64 \<and> Verify B E pub msg sig = Inr True"
  using assms by (rule sign_verify)

theorem sign_then_verify_witness:
  "\<exists>pub sig. Public pad_hash toy (replicate 32 7) = Inr pub \<and> length pub = 32
    \<and> Sign pad_hash toy (replicate 32 7) [1, 2, 3] = Inr sig \<and> length sig = 64
    \<and> Verify pad_hash toy pub [1, 2, 3] sig = Inr True"
  by (rule sign_then_verify [OF pad_hash_ok toy_ok])

text \<open>
  Signatures cannot be re-encoded in their second half: for a public key, a message and the first
  32 bytes, \<^verbatim>\<open>Verify\<close> accepts at most one scalar encoding.
\<close>

theorem verify_scalar_unique:
  assumes "blake2b_ok B" "ed_ok E" "length R = 32"
    and "Verify B E pub msg (R @ S1) = Inr True" "Verify B E pub msg (R @ S2) = Inr True"
  shows "S1 = S2"
proof -
  have acc: "\<exists>A P s k. PointSetBytes E pub = Some A \<and> PointSetBytes E R = Some P
      \<and> SetCanonicalBytes E S = Some s \<and> SetUniformBytes E (digest B 64 (R @ pub @ msg)) = Inr k
      \<and> ScalarBaseMult E s = PointAdd E P (ScalarMult E k A)"
    if "Verify B E pub msg (R @ S) = Inr True" for S
    using that assms(3) by (auto simp: Verify_def blake2b512_digest [OF assms(1)]
        ed_simps(7) [OF assms(2)] split: option.splits sum.splits)
  obtain s1 s2 where s: "SetCanonicalBytes E S1 = Some s1" "SetCanonicalBytes E S2 = Some s2"
    "ScalarBaseMult E s1 = ScalarBaseMult E s2"
    using acc [OF assms(4)] acc [OF assms(5)] by auto
  then have "s1 = s2" using assms(2) unfolding ed_ok_def by blast
  then show ?thesis using s assms(2) unfolding ed_ok_def by metis
qed

theorem verify_scalar_unique_witness:
  "\<exists>pub R S. Verify pad_hash toy pub [9] (R @ S) = Inr True
     \<and> (\<forall>S'. Verify pad_hash toy pub [9] (R @ S') = Inr True \<longrightarrow> S' = S)"
proof -
  obtain pub sig where v: "length sig = 64" "Verify pad_hash toy pub [9] sig = Inr True"
    using sign_verify [OF pad_hash_ok toy_ok] by blast
  then have "Verify pad_hash toy pub [9] (take 32 sig @ drop 32 sig) = Inr True" by simp
  moreover have "length (take 32 sig) = 32" using v(1) by simp
  ultimately show ?thesis using verify_scalar_unique [OF pad_hash_ok toy_ok] by blast
qed

section \<open>Challenges\<close>

lemma VerifyChallenge_total: "blake2b_ok B \<Longrightarrow> \<exists>ok. VerifyChallenge B E pub nonce sig = Inr ok"
  by (auto simp: VerifyChallenge_def AuthChallengeDigest_def Verify_def blake2b256_digest
      blake2b512_digest split: option.splits sum.splits)

lemma challenge_ok:
  assumes "blake2b_ok B" "ed_ok E"
  shows "\<exists>pub sig. Public B E pk = Inr pub \<and> length pub = 32 \<and> SignChallenge B E pk nonce = Inr sig
    \<and> length sig = 64 \<and> VerifyChallenge B E pub nonce sig = Inr True"
proof -
  obtain pub where pub: "Public B E pk = Inr pub" "length pub = 32"
    using sign_verify [OF assms] by blast
  have d: "AuthChallengeDigest B nonce pub = Inr (digest B 32 (authDomain @ nonce @ pub))"
    by (simp add: AuthChallengeDigest_def blake2b256_digest [OF assms(1)])
  obtain sig where "Sign B E pk (digest B 32 (authDomain @ nonce @ pub)) = Inr sig" "length sig = 64"
    "Verify B E pub (digest B 32 (authDomain @ nonce @ pub)) sig = Inr True"
    using sign_verify [OF assms, of pk] pub by auto
  then show ?thesis using pub by (simp add: SignChallenge_def VerifyChallenge_def d)
qed

text \<open>
  The enrolment challenge: what an account holder signs for a nonce is accepted for that account
  and that nonce, and the bytes hashed for different nonces or different accounts always differ.
\<close>

theorem challenge_roundtrip:
  assumes "blake2b_ok B" "ed_ok E"
  shows "(\<exists>pub sig. Public B E pk = Inr pub \<and> SignChallenge B E pk nonce = Inr sig \<and> length sig = 64
      \<and> VerifyChallenge B E pub nonce sig = Inr True)
    \<and> (length a = 32 \<longrightarrow> length a' = 32 \<longrightarrow>
        (authDomain @ n @ a = authDomain @ n' @ a' \<longleftrightarrow> n = n' \<and> a = a'))
    \<and> AuthChallengeDigest B n a = Inr (digest B 32 (authDomain @ n @ a))"
proof -
  have "AuthChallengeDigest B n a = Inr (digest B 32 (authDomain @ n @ a))"
    by (simp add: AuthChallengeDigest_def blake2b256_digest [OF assms(1)])
  moreover have "n @ a = n' @ a' \<longleftrightarrow> n = n' \<and> a = a'" if "length a = 32" "length a' = 32"
    using that by simp
  ultimately show ?thesis using challenge_ok [OF assms, of pk nonce] by auto
qed

theorem challenge_roundtrip_witness:
  "\<exists>pub sig. Public pad_hash toy (replicate 32 7) = Inr pub
     \<and> SignChallenge pad_hash toy (replicate 32 7) [1, 2] = Inr sig \<and> length sig = 64
     \<and> VerifyChallenge pad_hash toy pub [1, 2] sig = Inr True"
  using challenge_roundtrip [OF pad_hash_ok toy_ok, of "replicate 32 7" "[1, 2]"] by blast

end
