(* ===== verification/Float64.thy ===== *)
theory Float64
  imports Complex_Main "HOL-Library.Log_Nat"
begin

text \<open>
  Go's \<^verbatim>\<open>float64\<close> as the rationals it represents. The result of an operation is the exact result
  rounded to the nearest representable number, ties to even (\<open>round64\<close>), with 53 significant bits
  and the subnormal range; numbers whose magnitude reaches the overflow threshold do not occur in the
  relay (its durations are below 2^63 nanoseconds). The locale \<open>rounding\<close> states what the rate
  limiter's analysis uses of it, and is interpreted on \<open>round64\<close>.
\<close>

section \<open>The interface\<close>

locale rounding =
  fixes rnd :: "rat \<Rightarrow> rat"
  assumes rnd_mono: "x \<le> y \<Longrightarrow> rnd x \<le> rnd y"
    and rnd_int: "\<bar>n\<bar> < 2 ^ 53 \<Longrightarrow> rnd (of_int n) = of_int n"
    and rnd_err: "\<bar>x\<bar> \<le> 64 \<Longrightarrow> \<bar>rnd x - x\<bar> \<le> 1 / 2 ^ 47"
begin

lemma rnd_0 [simp]: "rnd 0 = 0"
  using rnd_int [of 0] by simp

lemma rnd_numeral: "(numeral n :: int) < 2 ^ 53 \<Longrightarrow> rnd (numeral n) = numeral n"
  using rnd_int [of "numeral n"] by simp

lemma rnd_nonneg: "0 \<le> x \<Longrightarrow> 0 \<le> rnd x"
  using rnd_mono [of 0 x] by simp

lemma rnd_upper: "0 \<le> x \<Longrightarrow> x \<le> 64 \<Longrightarrow> rnd x \<le> x + 1 / 2 ^ 47"
proof -
  assume "0 \<le> x" "x \<le> 64"
  then have "\<bar>rnd x - x\<bar> \<le> 1 / 2 ^ 47" by (intro rnd_err) simp
  then show ?thesis by linarith
qed

end

section \<open>Rounding to binary64\<close>

text \<open>The exponent of a positive number: the \<open>e\<close> with \<open>2^e \<le> x < 2^(e+1)\<close>.\<close>

definition ilog2 :: "rat \<Rightarrow> int" where
  "ilog2 x = (if 1 \<le> x then int (floorlog 2 (nat \<lfloor>x\<rfloor>)) - 1 else - int (ceillog2 (nat \<lceil>1 / x\<rceil>)))"

text \<open>Nearest integer, ties to even.\<close>

definition nearest :: "rat \<Rightarrow> int" where
  "nearest y =
     (let f = \<lfloor>y\<rfloor>; d = y - of_int f in
      if d < 1 / 2 then f else if d > 1 / 2 then f + 1 else if even f then f else f + 1)"

definition grid :: "rat \<Rightarrow> int" where
  "grid x = max (ilog2 \<bar>x\<bar> - 52) (-1074)"

definition round64 :: "rat \<Rightarrow> rat" where
  "round64 x = (if x = 0 then 0 else of_int (nearest (x / 2 powi grid x)) * 2 powi grid x)"

lemma ilog2_bounds:
  assumes "0 < x"
  shows "2 powi ilog2 x \<le> x" "x < 2 powi (ilog2 x + 1)"
proof -
  have "2 powi ilog2 x \<le> x \<and> x < 2 powi (ilog2 x + 1)"
  proof (cases "1 \<le> x")
    case True
    let ?n = "nat \<lfloor>x\<rfloor>"
    have n: "0 < ?n" using True by (simp add: zero_less_floor)
    then have "floorlog 2 ?n \<noteq> 0" by (simp add: floorlog_eq_zero_iff)
    then obtain k where k: "floorlog 2 ?n = Suc k" by (metis not0_implies_Suc)
    have b: "2 ^ k \<le> ?n" "?n < 2 ^ Suc k" using floorlog_bounds [of ?n 2] n k by simp_all
    have i: "ilog2 x = int k" using True k by (simp add: ilog2_def)
    have "(2::rat) ^ k \<le> of_nat ?n" using b(1) by (metis of_nat_le_iff of_nat_numeral of_nat_power)
    also have "of_nat ?n \<le> x" using True by simp
    finally have lo: "(2::rat) ^ k \<le> x" .
    have "?n + 1 \<le> 2 ^ Suc k" using b(2) by simp
    then have "(of_nat (?n + 1) :: rat) \<le> 2 ^ Suc k"
      by (metis of_nat_le_iff of_nat_numeral of_nat_power)
    moreover have "x < of_nat (?n + 1)" using True by (simp add: of_nat_nat) linarith
    ultimately have "x < 2 ^ Suc k" by simp
    with lo show ?thesis by (simp add: i power_int_add)
  next
    case False
    let ?n = "nat \<lceil>1 / x\<rceil>"
    let ?k = "ceillog2 ?n"
    have i: "ilog2 x = - int ?k" using False by (simp add: ilog2_def)
    have x1: "1 < 1 / x" using assms False by (simp add: field_simps)
    then have n2: "2 \<le> ?n" by linarith
    have le: "1 / x \<le> of_nat ?n" using x1 by (simp add: of_nat_nat) 
    have up: "(of_nat ?n :: rat) \<le> 2 ^ ?k"
      using le_two_power_ceillog2 [of ?n] by (metis of_nat_le_iff of_nat_numeral of_nat_power)
    have lo: "inverse (2 ^ ?k) \<le> x"
    proof -
      have "1 / x \<le> 2 ^ ?k" using le up by linarith
      then have "inverse (2 ^ ?k) \<le> inverse (1 / x)" using x1 by (intro le_imp_inverse_le) linarith+
      then show ?thesis by simp
    qed
    have kpos: "0 < ?k"
    proof (rule ccontr)
      assume "\<not> 0 < ?k"
      then have "?n \<le> 1" using le_two_power_ceillog2 [of ?n] by simp
      then show False using n2 by simp
    qed
    then obtain j where j: "?k = Suc j" by (metis not0_implies_Suc less_irrefl)
    have "2 ^ ?k < 2 * ?n" by (rule two_power_ceillog2_gt) (use n2 in linarith)
    then have gt: "2 ^ j + 1 \<le> ?n" unfolding j power_Suc by linarith
    have "of_nat ?n < 1 / x + 1" using x1 by (simp add: of_nat_nat) linarith
    moreover have "of_nat (2 ^ j + 1) \<le> (of_nat ?n :: rat)" using gt by (rule of_nat_mono)
    then have "(2::rat) ^ j + 1 \<le> of_nat ?n" by simp
    ultimately have "2 ^ j < 1 / x" by linarith
    then have "x < inverse (2 ^ j)" using assms by (simp add: field_simps)
    moreover have "(2::rat) powi (- int ?k + 1) = inverse (2 ^ j)"
      by (simp add: j power_int_minus)
    ultimately show ?thesis using lo by (simp add: i power_int_minus)
  qed
  then show "2 powi ilog2 x \<le> x" "x < 2 powi (ilog2 x + 1)" by auto
qed


lemma two_powi_pos [simp]: "0 < (2::rat) powi e"
  by simp

lemma two_powi_mono: "e \<le> f \<Longrightarrow> (2::rat) powi e \<le> 2 powi f"
  by (rule power_int_increasing) simp_all

lemma ilog2_mono:
  assumes "0 < x" "x \<le> y"
  shows "ilog2 x \<le> ilog2 y"
proof (rule ccontr)
  assume "\<not> ilog2 x \<le> ilog2 y"
  then have "(2::rat) powi (ilog2 y + 1) \<le> 2 powi ilog2 x" by (intro two_powi_mono) simp
  then show False using ilog2_bounds(1) [OF assms(1)] ilog2_bounds(2) [of y] assms by linarith
qed

lemma grid_mono: "0 < x \<Longrightarrow> x \<le> y \<Longrightarrow> grid x \<le> grid y"
  using ilog2_mono [of x y] by (auto simp: grid_def)

lemma nearest_mono: "x \<le> y \<Longrightarrow> nearest x \<le> nearest y"
proof -
  assume le: "x \<le> y"
  show ?thesis
  proof (cases "\<lfloor>x\<rfloor> = \<lfloor>y\<rfloor>")
    case True
    then show ?thesis using le by (auto simp: nearest_def Let_def)
  next
    case False
    then have "\<lfloor>x\<rfloor> + 1 \<le> \<lfloor>y\<rfloor>" using floor_mono [OF le] by simp
    moreover have "nearest x \<le> \<lfloor>x\<rfloor> + 1" by (simp add: nearest_def Let_def)
    moreover have "\<lfloor>y\<rfloor> \<le> nearest y" by (simp add: nearest_def Let_def)
    ultimately show ?thesis by linarith
  qed
qed

lemma nearest_int [simp]: "nearest (of_int n) = n"
  by (simp add: nearest_def Let_def)

lemma nearest_err: "\<bar>of_int (nearest y) - y\<bar> \<le> 1 / 2"
proof -
  have "of_int \<lfloor>y\<rfloor> \<le> y" "y < of_int \<lfloor>y\<rfloor> + 1" by linarith+
  then show ?thesis by (auto simp: nearest_def Let_def)
qed

lemma nearest_minus: "nearest (- y) = - nearest y"
proof (cases "y = of_int \<lfloor>y\<rfloor>")
  case True
  then show ?thesis by (metis nearest_int of_int_minus)
next
  case False
  then have f: "\<lfloor>- y\<rfloor> = - \<lfloor>y\<rfloor> - 1" by linarith
  then show ?thesis unfolding nearest_def Let_def f by (auto split: if_splits)
qed

lemma round64_minus: "round64 (- x) = - round64 x"
  by (simp add: round64_def grid_def nearest_minus)

text \<open>Integers scaled by the grid are fixed.\<close>

lemma grid_upper: "0 < x \<Longrightarrow> x < 2 powi (grid x + 53)"
proof -
  assume x: "0 < x"
  have "(2::rat) powi (ilog2 x + 1) \<le> 2 powi (grid x + 53)"
    using x by (intro two_powi_mono) (simp add: grid_def)
  then show ?thesis using ilog2_bounds(2) [OF x] by linarith
qed

lemma scaled_int: "0 \<le> k \<Longrightarrow> (2::rat) powi (e + k) / 2 powi e = of_int (2 ^ nat k)"
proof -
  assume "0 \<le> k"
  then have "(2::rat) powi k = of_int (2 ^ nat k)" by (simp add: power_int_def)
  then show ?thesis by (simp add: power_int_add)
qed

lemma round64_upper: "0 < x \<Longrightarrow> round64 x \<le> 2 powi (grid x + 53)"
proof -
  assume x: "0 < x"
  have "x / 2 powi grid x \<le> 2 powi (grid x + 53) / 2 powi grid x"
    using grid_upper [OF x] by (simp add: divide_right_mono less_imp_le)
  then have "nearest (x / 2 powi grid x) \<le> 2 ^ 53"
    using nearest_mono nearest_int [of "2 ^ 53"] by (metis scaled_int nat_numeral zero_le_numeral)
  then have "(of_int (nearest (x / 2 powi grid x)) :: rat) \<le> 2 ^ 53"
    by (metis of_int_le_iff of_int_numeral of_int_power)
  then have "round64 x \<le> 2 ^ 53 * 2 powi grid x"
    using x by (simp add: round64_def)
  then show ?thesis by (simp add: power_int_add)
qed

lemma round64_lower:
  assumes "0 < x" "- 1074 < grid x"
  shows "2 powi (grid x + 52) \<le> round64 x"
proof -
  have "grid x + 52 = ilog2 x" using assms by (simp add: grid_def)
  then have "2 powi (grid x + 52) \<le> x" using ilog2_bounds(1) [OF assms(1)] by simp
  then have "2 powi (grid x + 52) / 2 powi grid x \<le> x / 2 powi grid x"
    by (simp add: divide_right_mono)
  then have "2 ^ 52 \<le> nearest (x / 2 powi grid x)"
    using nearest_mono nearest_int [of "2 ^ 52"] by (metis scaled_int nat_numeral zero_le_numeral)
  then have "2 ^ 52 \<le> (of_int (nearest (x / 2 powi grid x)) :: rat)"
    by (metis of_int_le_iff of_int_numeral of_int_power)
  then have "2 ^ 52 * 2 powi grid x \<le> round64 x"
    using assms(1) by (simp add: round64_def)
  then show ?thesis by (simp add: power_int_add)
qed

lemma round64_nonneg: "0 \<le> x \<Longrightarrow> 0 \<le> round64 x"
proof -
  assume "0 \<le> x"
  then have "0 \<le> nearest (x / 2 powi grid x)" using nearest_mono [of 0] nearest_int [of 0] by simp
  then show ?thesis by (simp add: round64_def)
qed

lemma round64_mono_pos:
  assumes "0 < x" "x \<le> y"
  shows "round64 x \<le> round64 y"
proof (cases "grid x = grid y")
  case True
  have "x / 2 powi grid x \<le> y / 2 powi grid x" using assms by (simp add: divide_right_mono)
  then show ?thesis using assms True nearest_mono
    by (simp add: round64_def)
next
  case False
  then have lt: "grid x + 1 \<le> grid y" using grid_mono [OF assms] by simp
  then have "- 1074 < grid y" by (auto simp: grid_def)
  then have "2 powi (grid y + 52) \<le> round64 y" using assms by (intro round64_lower) simp_all
  moreover have "(2::rat) powi (grid x + 53) \<le> 2 powi (grid y + 52)"
    using lt by (intro two_powi_mono) simp
  ultimately show ?thesis using round64_upper [OF assms(1)] by linarith
qed

lemma round64_mono: "x \<le> y \<Longrightarrow> round64 x \<le> round64 y"
proof -
  assume le: "x \<le> y"
  consider "0 < x" | "x \<le> 0" "0 \<le> y" | "y < 0" by linarith
  then show ?thesis
  proof cases
    case 1
    then show ?thesis using le by (rule round64_mono_pos)
  next
    case 2
    then show ?thesis using round64_nonneg [of y] round64_nonneg [of "- x"] by (simp add: round64_minus)
  next
    case 3
    then show ?thesis using round64_mono_pos [of "- y" "- x"] le by (simp add: round64_minus)
  qed
qed

lemma round64_int:
  assumes "\<bar>n\<bar> < 2 ^ 53"
  shows "round64 (of_int n) = of_int n"
proof (cases "n = 0")
  case False
  let ?x = "\<bar>of_int n\<bar> :: rat"
  have pos: "0 < ?x" using False by simp
  have "\<not> 53 \<le> ilog2 ?x"
  proof
    assume "53 \<le> ilog2 ?x"
    then have "(2::rat) powi 53 \<le> 2 powi ilog2 ?x" by (rule two_powi_mono)
    moreover have "?x < 2 ^ 53" using assms by (metis of_int_abs of_int_less_iff of_int_numeral of_int_power)
    ultimately show False using ilog2_bounds(1) [OF pos] by simp
  qed
  then have "grid (of_int n) \<le> 0" by (simp add: grid_def)
  then obtain k where k: "grid (of_int n) = - int k" by (metis nonpos_int_cases)
  have "of_int n / 2 powi grid (of_int n) = (of_int (n * 2 ^ k) :: rat)"
    by (simp add: k power_int_minus field_simps)
  then have "round64 (of_int n) = of_int (n * 2 ^ k) * 2 powi (- int k)"
    using False by (simp only: round64_def nearest_int k) simp
  then show ?thesis by (simp add: power_int_minus)
qed (simp add: round64_def)

lemma round64_err:
  assumes "\<bar>x\<bar> \<le> 64"
  shows "\<bar>round64 x - x\<bar> \<le> 1 / 2 ^ 47"
proof (cases "x = 0")
  case False
  let ?g = "2 powi grid x :: rat"
  have "\<not> 7 \<le> ilog2 \<bar>x\<bar>"
  proof
    assume "7 \<le> ilog2 \<bar>x\<bar>"
    then have "(2::rat) powi 7 \<le> 2 powi ilog2 \<bar>x\<bar>" by (rule two_powi_mono)
    then show False using ilog2_bounds(1) [of "\<bar>x\<bar>"] False assms by simp
  qed
  then have "grid x \<le> - 46" by (simp add: grid_def)
  then have g: "?g \<le> 2 powi (- 46)" by (rule two_powi_mono)
  have "round64 x - x = (of_int (nearest (x / ?g)) - x / ?g) * ?g"
    using False by (simp add: round64_def left_diff_distrib)
  then have "\<bar>round64 x - x\<bar> = \<bar>of_int (nearest (x / ?g)) - x / ?g\<bar> * ?g"
    by (simp add: abs_mult)
  also have "\<dots> \<le> 1 / 2 * ?g" using nearest_err by (intro mult_right_mono) simp_all
  also have "\<dots> \<le> 1 / 2 * 2 powi (- 46)" using g by simp
  also have "\<dots> = 1 / 2 ^ 47" by (simp add: power_int_minus)
  finally show ?thesis .
qed (simp add: round64_def)

interpretation f64: rounding round64
  by unfold_locales (fact round64_mono round64_int round64_err)+

end
