(* ===== verification/Ratelimit.thy ===== *)
theory Ratelimit
  imports World Float64 "HOL-Library.Signed_Division"
begin

text \<open>
  File \<^verbatim>\<open>cmd/relay/ratelimit.go\<close>: token buckets per API key. Times are nanoseconds of the monotonic
  clock, tokens are \<^verbatim>\<open>float64\<close> values with every operation rounded (no fused multiply-add, as on
  amd64). The methods here run one after the other, so the bucket a call looked up is still the one in the
  map when the call ends, and is written back there. In the code \<^verbatim>\<open>allow\<close> holds the lock of the map for the
  lookup only (\<open>rl_lookup\<close>) and the lock of the bucket for the rest (\<open>kl_allow\<close>): \<open>rl_allow_split\<close> says so. If
  \<^verbatim>\<open>prune\<close> deletes the bucket between the two, the rest runs on a bucket that is in no map any more: its answer is
  that of \<open>kl_allow\<close>, and the map stays as \<^verbatim>\<open>prune\<close> left it. The steps \<open>AdmitPruned\<close> and \<open>QAdmitPruned\<close>
  of \<open>Relay_System\<close> are these runs.
\<close>

section \<open>The code\<close>

definition Second :: int where
  "Second = 1000000000"

definition Hour :: int where
  "Hour = 3600 * Second"

text \<open>\<^verbatim>\<open>Time.Sub\<close> saturates at the range of a duration.\<close>

definition Sub :: "time \<Rightarrow> time \<Rightarrow> int" where
  "Sub t u = max (- (2 ^ 63)) (min (2 ^ 63 - 1) (t - u))"

definition Seconds :: "int \<Rightarrow> rat" where
  "Seconds d =
     round64 (round64 (of_int (d sdiv Second)) + round64 (round64 (of_int (d smod Second)) / 1000000000))"

record keyLimiter =
  kl_tokens :: rat
  kl_last :: time

definition kl_allow_at :: "rat \<Rightarrow> rat \<Rightarrow> time \<Rightarrow> keyLimiter \<Rightarrow> bool \<times> keyLimiter" where
  "kl_allow_at rate burst now l =
     (let t1 = round64 (kl_tokens l + round64 (Seconds (Sub now (kl_last l)) * rate));
          t2 = (if t1 > burst then burst else t1)
      in if t2 < 1 then (False, \<lparr>kl_tokens = t2, kl_last = now\<rparr>)
         else (True, \<lparr>kl_tokens = round64 (t2 - 1), kl_last = now\<rparr>))"

definition kl_allow :: "rat \<Rightarrow> rat \<Rightarrow> keyLimiter \<Rightarrow> World \<Rightarrow> bool \<times> keyLimiter \<times> World" where
  "kl_allow rate burst l w =
     (let (now, w') = time_Now w; (ok, l') = kl_allow_at rate burst now l in (ok, l', w'))"

record rateLimiter =
  rl_keys :: "string \<rightharpoonup> keyLimiter"
  rl_rate :: rat
  rl_burst :: rat
  rl_ttl :: int

definition newRateLimiter :: "rat \<Rightarrow> rat \<Rightarrow> int \<Rightarrow> rateLimiter" where
  "newRateLimiter rate burst ttl =
     \<lparr>rl_keys = Map.empty, rl_rate = rate, rl_burst = burst, rl_ttl = ttl\<rparr>"

text \<open>The part of \<^verbatim>\<open>allow\<close> under the lock of the map: the bucket of a key, made when there is none.\<close>

definition rl_lookup :: "string \<Rightarrow> rateLimiter \<Rightarrow> World \<Rightarrow> keyLimiter \<times> rateLimiter \<times> World" where
  "rl_lookup keyID rl w =
     (case rl_keys rl keyID of
        Some kl \<Rightarrow> (kl, rl, w)
      | None \<Rightarrow>
          let (now, w') = time_Now w; kl = \<lparr>kl_tokens = rl_burst rl, kl_last = now\<rparr>
          in (kl, rl\<lparr>rl_keys := (rl_keys rl)(keyID \<mapsto> kl)\<rparr>, w'))"

definition rl_allow :: "string \<Rightarrow> rateLimiter \<Rightarrow> World \<Rightarrow> bool \<times> rateLimiter \<times> World" where
  "rl_allow keyID rl w =
     (let (kl, w1) =
        (case rl_keys rl keyID of
           Some kl \<Rightarrow> (kl, w)
         | None \<Rightarrow> let (now, w') = time_Now w in (\<lparr>kl_tokens = rl_burst rl, kl_last = now\<rparr>, w'));
          (ok, kl', w2) = kl_allow (rl_rate rl) (rl_burst rl) kl w1
      in (ok, rl\<lparr>rl_keys := (rl_keys rl)(keyID \<mapsto> kl')\<rparr>, w2))"

lemma rl_allow_split:
  "rl_allow keyID rl w =
     (let (kl, rl1, w1) = rl_lookup keyID rl w;
          (ok, kl', w2) = kl_allow (rl_rate rl1) (rl_burst rl1) kl w1
      in (ok, rl1\<lparr>rl_keys := (rl_keys rl1)(keyID \<mapsto> kl')\<rparr>, w2))"
  by (simp add: rl_allow_def rl_lookup_def time_Now_def Let_def split: option.split prod.split)

definition prune :: "rateLimiter \<Rightarrow> World \<Rightarrow> rateLimiter \<times> World" where
  "prune rl w =
     (let (now, w') = time_Now w; cutoff = now + - rl_ttl rl in
      (rl\<lparr>rl_keys := (\<lambda>id. case rl_keys rl id of
            None \<Rightarrow> None
          | Some kl \<Rightarrow> if kl_last kl < cutoff then None else Some kl)\<rparr>, w'))"

text \<open>A sequence of calls for one key.\<close>

fun rl_allows :: "nat \<Rightarrow> string \<Rightarrow> rateLimiter \<Rightarrow> World \<Rightarrow> bool list \<times> rateLimiter \<times> World" where
  "rl_allows 0 keyID rl w = ([], rl, w)"
| "rl_allows (Suc n) keyID rl w =
     (let (ok, rl1, w1) = rl_allow keyID rl w; (oks, rl2, w2) = rl_allows n keyID rl1 w1
      in (ok # oks, rl2, w2))"

section \<open>Bounds on durations\<close>

lemma Sub_bounds: "u \<le> t \<Longrightarrow> 0 \<le> Sub t u" "u \<le> t \<Longrightarrow> Sub t u \<le> t - u" "Sub t u < 2 ^ 63"
  by (simp_all add: Sub_def)

lemma Sub_ge: "d \<le> t - u \<Longrightarrow> d < 2 ^ 63 \<Longrightarrow> d \<le> Sub t u"
  by (simp add: Sub_def)

lemma sdiv_nonneg:
  assumes "0 \<le> (d::int)"
  shows "d sdiv Second = d div Second" "d smod Second = d mod Second"
  using assms by (simp_all add: signed_divide_int_def signed_modulo_int_def Second_def
      sgn_if minus_div_mult_eq_mod)

lemma sdiv_bounds: "0 \<le> d \<Longrightarrow> 0 \<le> d sdiv Second" "0 \<le> d \<Longrightarrow> 0 \<le> d smod Second"
  unfolding sdiv_nonneg by (simp_all add: Second_def)

lemma Seconds_nonneg: "0 \<le> d \<Longrightarrow> 0 \<le> Seconds d"
  unfolding Seconds_def
  by (intro f64.rnd_nonneg add_nonneg_nonneg divide_nonneg_nonneg) (simp_all add: sdiv_bounds)

lemma Seconds_0 [simp]: "Seconds 0 = 0"
  by (simp add: Seconds_def sdiv_nonneg)

lemma Seconds_ge:
  assumes "of_int n * Second \<le> d" "0 \<le> n" "n < 2 ^ 53"
  shows "of_int n \<le> Seconds d"
proof -
  have d: "0 \<le> d" using assms(1,2) by (simp add: Second_def)
  have "n \<le> d div Second" using assms(1) by (simp add: Second_def)
  then have "round64 (of_int n) \<le> round64 (of_int (d sdiv Second))"
    using d by (intro f64.rnd_mono) (simp add: sdiv_nonneg)
  then have "of_int n \<le> round64 (of_int (d sdiv Second))" using f64.rnd_int [of n] assms by simp
  moreover have "0 \<le> round64 (round64 (of_int (d smod Second)) / 1000000000)"
    using d by (intro f64.rnd_nonneg divide_nonneg_nonneg) (simp_all add: sdiv_bounds)
  ultimately have "of_int n \<le> round64 (of_int (d sdiv Second))
      + round64 (round64 (of_int (d smod Second)) / 1000000000)" by linarith
  then have "round64 (of_int n) \<le> Seconds d" unfolding Seconds_def by (rule f64.rnd_mono)
  then show ?thesis using f64.rnd_int [of n] assms by simp
qed

lemma Seconds_le:
  assumes "0 \<le> d" "d \<le> 4 * Second"
  shows "Seconds d \<le> of_int d / 1000000000 + 2 / 2 ^ 47"
proof -
  let ?q = "d div Second" and ?r = "d mod Second"
  have q: "0 \<le> ?q" "?q \<le> 4" and r: "0 \<le> ?r" "?r < 1000000000"
    using assms by (auto simp: Second_def)
  have dec: "(of_int d :: rat) = of_int ?q * 1000000000 + of_int ?r"
    by (metis Second_def div_mult_mod_eq of_int_add of_int_mult of_int_numeral)
  have eq: "round64 (of_int ?q) = of_int ?q" "round64 (of_int ?r) = of_int ?r"
    using q r by (intro f64.rnd_int; simp)+
  have r1: "0 \<le> (of_int ?r :: rat) / 1000000000" "(of_int ?r :: rat) / 1000000000 \<le> 1"
    using r by simp_all
  have a: "round64 (of_int ?r / 1000000000) \<le> of_int ?r / 1000000000 + 1 / 2 ^ 47"
    using r1 by (intro f64.rnd_upper) simp_all
  have b0: "0 \<le> round64 ((of_int ?r :: rat) / 1000000000)" using r1(1) by (rule f64.rnd_nonneg)
  have "(of_int ?q :: rat) \<le> 4" using q by simp
  then have "of_int ?q + round64 (of_int ?r / 1000000000) \<le> 64"
    using order_trans [OF a, of 2] r1(2) by simp
  moreover have "0 \<le> (of_int ?q :: rat)" using q by simp
  ultimately have "round64 (of_int ?q + round64 (of_int ?r / 1000000000))
      \<le> of_int ?q + round64 (of_int ?r / 1000000000) + 1 / 2 ^ 47"
    using b0 by (intro f64.rnd_upper) linarith+
  then have "Seconds d \<le> of_int ?q + of_int ?r / 1000000000 + 2 / 2 ^ 47"
    using a assms(1) by (simp add: Seconds_def sdiv_nonneg eq)
  also have "of_int ?q + of_int ?r / 1000000000 = (of_int d :: rat) / 1000000000"
    by (simp add: dec add_divide_distrib)
  finally show ?thesis by simp
qed

section \<open>One bucket\<close>

definition kl_ok :: "rat \<Rightarrow> time \<Rightarrow> keyLimiter \<Rightarrow> bool" where
  "kl_ok burst now l \<longleftrightarrow> 0 \<le> kl_tokens l \<and> kl_tokens l \<le> burst \<and> kl_last l \<le> now"

lemma kl_step_ok:
  assumes "kl_ok (of_int b) now0 l" "now0 \<le> now" "0 \<le> rate" "0 \<le> b" "b < 2 ^ 53"
    and run: "kl_allow_at rate (of_int b) now l = (ok, l')"
  shows "kl_ok (of_int b) now l' \<and> kl_last l' = now"
proof -
  let ?t1 = "round64 (kl_tokens l + round64 (Seconds (Sub now (kl_last l)) * rate))"
  let ?t2 = "if ?t1 > of_int b then of_int b else ?t1"
  have "0 \<le> Seconds (Sub now (kl_last l))"
    using assms(1,2) by (intro Seconds_nonneg Sub_bounds) (simp add: kl_ok_def)
  then have "0 \<le> ?t1"
    using assms(1,3) by (intro f64.rnd_nonneg add_nonneg_nonneg mult_nonneg_nonneg) (simp_all add: kl_ok_def)
  then have t2: "0 \<le> ?t2" "?t2 \<le> of_int b" using assms(4) by simp_all
  show ?thesis
  proof (cases "?t2 < 1")
    case True
    then show ?thesis using run t2 by (auto simp: kl_allow_at_def Let_def kl_ok_def)
  next
    case False
    have "0 \<le> round64 (?t2 - 1)" using False by (intro f64.rnd_nonneg) simp
    moreover have "round64 (?t2 - 1) \<le> round64 (of_int b)" using t2 by (intro f64.rnd_mono) simp
    then have "round64 (?t2 - 1) \<le> of_int b" using f64.rnd_int [of b] assms(4,5) by simp
    ultimately show ?thesis using run False by (auto simp: kl_allow_at_def Let_def kl_ok_def)
  qed
qed

text \<open>What a call takes and leaves is what was there plus the refill, up to rounding.\<close>

lemma kl_step_potential:
  assumes ok: "kl_ok 20 now0 l" and mono: "now0 \<le> now"
    and run: "kl_allow_at 5 20 now l = (okay, l')"
  shows "kl_tokens l' + of_bool okay
    \<le> kl_tokens l + 5 * of_int (now - kl_last l) / 1000000000 + 1 / 2 ^ 42"
proof -
  let ?d = "now - kl_last l" and ?s = "Sub now (kl_last l)"
  let ?u = "1 / 2 ^ 47 :: rat"
  let ?t1 = "round64 (kl_tokens l + round64 (Seconds ?s * 5))"
  let ?t2 = "if ?t1 > 20 then 20 else ?t1"
  have d: "0 \<le> ?d" using ok mono by (simp add: kl_ok_def)
  have s: "0 \<le> ?s" "?s \<le> ?d" using d Sub_bounds(1,2) [of "kl_last l" now] by simp_all
  have tok: "0 \<le> kl_tokens l" "kl_tokens l \<le> 20" using ok by (simp_all add: kl_ok_def)
  have t2: "?t2 \<le> kl_tokens l + 5 * of_int ?d / 1000000000 + 12 * ?u"
  proof (cases "?d \<le> 4 * Second")
    case True
    have sec: "0 \<le> Seconds ?s" "Seconds ?s \<le> of_int ?s / 1000000000 + 2 * ?u"
      using s True Seconds_le [of ?s] Seconds_nonneg by simp_all
    have "(of_int ?s :: rat) \<le> of_int ?d" using s(2) by (simp only: of_int_le_iff)
    moreover have "(of_int ?d :: rat) \<le> of_int 4000000000"
      using True unfolding of_int_le_iff by (simp add: Second_def)
    then have "(of_int ?d :: rat) / 1000000000 \<le> of_int 4000000000 / 1000000000"
      by (rule divide_right_mono) simp
    ultimately have dd: "of_int ?s / 1000000000 \<le> of_int ?d / (1000000000::rat)"
      "of_int ?d / 1000000000 \<le> (4::rat)"
      by (simp_all only: divide_right_mono)
    then have secd: "Seconds ?s \<le> of_int ?d / 1000000000 + 2 * ?u" "of_int ?d / 1000000000 \<le> (4::rat)"
      using order_trans [OF sec(2) add_right_mono [OF dd(1)]] by blast+
    have u: "2 * ?u \<le> 1" "0 \<le> ?u" by simp_all
    have m: "round64 (Seconds ?s * 5) \<le> Seconds ?s * 5 + ?u"
      using sec(1) secd u by (intro f64.rnd_upper) linarith+
    have m0: "0 \<le> round64 (Seconds ?s * 5)" using sec(1) by (intro f64.rnd_nonneg) simp
    have "?t1 \<le> kl_tokens l + round64 (Seconds ?s * 5) + ?u"
      using tok m m0 secd u by (intro f64.rnd_upper) linarith+
    then have "?t1 \<le> kl_tokens l + 5 * of_int ?d / 1000000000 + 12 * ?u"
      using m secd by linarith
    then show ?thesis by simp
  next
    case False
    then have "4000000000 \<le> ?d" by (simp add: Second_def)
    then have "(of_int 4000000000::rat) \<le> of_int ?d" by (simp only: of_int_le_iff)
    then have "20 \<le> 5 * of_int ?d / (1000000000 :: rat)" by simp
    moreover have "?t2 \<le> 20" by simp
    moreover have "0 \<le> 12 * ?u" by simp
    ultimately show ?thesis using tok(1) by linarith
  qed
  have small: "13 * ?u \<le> 1 / 2 ^ 42" "12 * ?u \<le> 1 / 2 ^ 42" by simp_all
  show ?thesis
  proof (cases "?t2 < 1")
    case True
    then have "okay = False" "kl_tokens l' = ?t2" using run by (auto simp: kl_allow_at_def Let_def)
    then show ?thesis using t2 small by simp
  next
    case False
    then have r: "okay = True" "kl_tokens l' = round64 (?t2 - 1)"
      using run by (auto simp: kl_allow_at_def Let_def)
    have "round64 (?t2 - 1) \<le> ?t2 - 1 + ?u" using False by (intro f64.rnd_upper) auto
    then show ?thesis using t2 small r by simp
  qed
qed

section \<open>The limiter\<close>

definition rl_ok :: "time \<Rightarrow> rateLimiter \<Rightarrow> bool" where
  "rl_ok now rl \<longleftrightarrow> (\<forall>k kl. rl_keys rl k = Some kl \<longrightarrow> kl_ok (rl_burst rl) now kl)"

text \<open>The clock never goes back.\<close>

definition clock_from :: "time \<Rightarrow> World \<Rightarrow> bool" where
  "clock_from t w \<longleftrightarrow> (\<forall>n. t \<le> wd_clock w !! n) \<and> (\<forall>n. wd_clock w !! n \<le> wd_clock w !! Suc n)"

lemma clock_from_step:
  assumes "clock_from t w" "time_Now w = (now, w')"
  shows "t \<le> now" "clock_from now w'"
proof -
  have now: "now = wd_clock w !! 0" and w': "wd_clock w' = stl (wd_clock w)"
    using assms(2) by (auto simp: time_Now_def)
  show "t \<le> now" using assms(1) unfolding now clock_from_def by blast
  have mono: "wd_clock w !! n \<le> wd_clock w !! Suc n" for n using assms(1) by (simp add: clock_from_def)
  have "now \<le> wd_clock w !! n" for n unfolding now by (rule lift_Suc_mono_le [where f = "snth (wd_clock w)"]) (simp_all only: mono)
  then show "clock_from now w'" using mono by (simp add: clock_from_def w')
      (metis snth.simps(2))
qed

lemma rl_allow_existing:
  assumes "rl_keys rl k = Some kl" "kl_allow_at (rl_rate rl) (rl_burst rl) (shd (wd_clock w)) kl = (okay, kl')"
  shows "rl_allow k rl w = (okay, rl\<lparr>rl_keys := (rl_keys rl)(k \<mapsto> kl')\<rparr>, w\<lparr>wd_clock := stl (wd_clock w)\<rparr>)"
  using assms by (simp add: rl_allow_def kl_allow_def time_Now_def)

lemma clock_from_tail:
  "clock_from t w \<Longrightarrow> t \<le> shd (wd_clock w)"
  "clock_from t w \<Longrightarrow> clock_from (shd (wd_clock w)) (w\<lparr>wd_clock := stl (wd_clock w)\<rparr>)"
  using clock_from_step [of t w "shd (wd_clock w)" "w\<lparr>wd_clock := stl (wd_clock w)\<rparr>"]
  by (simp_all add: time_Now_def)

lemma rl_allow_step:
  assumes "rl_allow k rl w = (okay, rl', w')" "clock_from t w" "rl_ok t rl"
    and "0 \<le> rl_rate rl" "rl_burst rl = of_int b" "0 \<le> b" "b < 2 ^ 53"
  obtains kl t0 now kl' where "kl_ok (rl_burst rl) t0 kl" "t \<le> t0" "t0 \<le> now" "clock_from now w'"
    "kl_allow_at (rl_rate rl) (rl_burst rl) now kl = (okay, kl')"
    "kl_ok (rl_burst rl) now kl'" "kl_last kl' = now"
    "rl' = rl\<lparr>rl_keys := (rl_keys rl)(k \<mapsto> kl')\<rparr>"
    "rl_keys rl k = None \<Longrightarrow> kl = \<lparr>kl_tokens = rl_burst rl, kl_last = t0\<rparr>"
    "rl_keys rl k = Some kl1 \<Longrightarrow> kl = kl1 \<and> t0 = t \<and> now = shd (wd_clock w) \<and> wd_clock w' = stl (wd_clock w)"
proof (cases "rl_keys rl k")
  case (Some kl)
  obtain now w1 where n: "time_Now w = (now, w1)" by fastforce
  obtain ok1 kl' where s: "kl_allow_at (rl_rate rl) (rl_burst rl) now kl = (ok1, kl')" by fastforce
  have r: "okay = ok1" "w' = w1" "rl' = rl\<lparr>rl_keys := (rl_keys rl)(k \<mapsto> kl')\<rparr>"
    using assms(1) Some n s by (auto simp: rl_allow_def kl_allow_def)
  have "kl_ok (rl_burst rl) t kl" using assms(3) Some by (simp add: rl_ok_def)
  moreover note c = clock_from_step [OF assms(2) n]
  moreover note kl_step_ok [OF calculation(1) [unfolded assms(5)] c(1) assms(4,6,7) s [unfolded assms(5)]]
  moreover have "now = shd (wd_clock w)" "wd_clock w' = stl (wd_clock w)"
    using n r(2) by (auto simp: time_Now_def)
  ultimately show ?thesis
    by (intro that [of t kl now kl']) (use s r Some in \<open>simp_all add: assms(5)\<close>)
next
  case None
  obtain t0 w0 where n0: "time_Now w = (t0, w0)" by fastforce
  obtain now w1 where n: "time_Now w0 = (now, w1)" by fastforce
  let ?kl = "\<lparr>kl_tokens = rl_burst rl, kl_last = t0\<rparr>"
  obtain ok1 kl' where s: "kl_allow_at (rl_rate rl) (rl_burst rl) now ?kl = (ok1, kl')" by fastforce
  have r: "okay = ok1" "w' = w1" "rl' = rl\<lparr>rl_keys := (rl_keys rl)(k \<mapsto> kl')\<rparr>"
    using assms(1) None n0 n s by (auto simp: rl_allow_def kl_allow_def)
  note c0 = clock_from_step [OF assms(2) n0]
  note c = clock_from_step [OF c0(2) n]
  have "kl_ok (rl_burst rl) t0 ?kl" using assms(5,6) by (simp add: kl_ok_def)
  moreover note kl_step_ok [OF this [unfolded assms(5)] c(1) assms(4,6,7) s [unfolded assms(5)]]
  ultimately show ?thesis
    by (intro that [of t0 ?kl now kl']) (use s r None c0 c in \<open>simp_all add: assms(5)\<close>)
qed

text \<open>
  C31. The limiter's invariant: with a monotonic clock every bucket holds between zero and \<open>burst\<close>
  tokens and was last touched in the past; a call keeps this for every key, and so does pruning.
\<close>

theorem limiter_invariant:
  assumes "rl_ok t rl" "clock_from t w" "0 \<le> rl_rate rl" "rl_burst rl = of_int b" "0 \<le> b" "b < 2 ^ 53"
  shows "(\<forall>okay rl' w'. rl_allow k rl w = (okay, rl', w') \<longrightarrow> (\<exists>t'\<ge>t. rl_ok t' rl' \<and> clock_from t' w'))
    \<and> (\<forall>rl' w'. prune rl w = (rl', w') \<longrightarrow> (\<exists>t'\<ge>t. rl_ok t' rl' \<and> clock_from t' w'))"
proof (intro conjI allI impI)
  fix okay rl' w' assume run: "rl_allow k rl w = (okay, rl', w')"
  obtain kl t0 now kl' where s: "t \<le> t0" "t0 \<le> now" "clock_from now w'" "kl_ok (rl_burst rl) now kl'"
    "rl' = rl\<lparr>rl_keys := (rl_keys rl)(k \<mapsto> kl')\<rparr>"
    using rl_allow_step [OF run assms(2,1,3-6)] by metis
  have le: "t \<le> now" using s(1,2) by (rule order_trans)
  have "rl_ok now rl'"
    unfolding rl_ok_def
  proof (intro allI impI)
    fix x kl assume "rl_keys rl' x = Some kl"
    then have "kl = kl' \<or> rl_keys rl x = Some kl" using s(5) by (auto split: if_splits)
    then have "kl = kl' \<or> kl_ok (rl_burst rl) t kl" using assms(1) by (auto simp: rl_ok_def)
    then show "kl_ok (rl_burst rl') now kl" using s(4,5) le by (auto simp: kl_ok_def)
  qed
  then show "\<exists>t'\<ge>t. rl_ok t' rl' \<and> clock_from t' w'" using le s(3) by blast
next
  fix rl' w' assume run: "prune rl w = (rl', w')"
  obtain now w1 where n: "time_Now w = (now, w1)" by fastforce
  note c = clock_from_step [OF assms(2) n]
  have "rl_ok now rl'" "w' = w1"
    using run n assms(1) c(1)
    by (auto simp: prune_def rl_ok_def kl_ok_def split: option.splits if_splits; fastforce)+
  then show "\<exists>t'\<ge>t. rl_ok t' rl' \<and> clock_from t' w'" using c by blast
qed

definition server_limiter :: rateLimiter where
  "server_limiter = newRateLimiter 5 20 Hour"

definition still :: "time \<Rightarrow> World" where
  "still t = \<lparr>wd_entropy = sconst 0, wd_clock = sconst t, wd_writes = sconst True, wd_sent = []\<rparr>"

lemma server_limiter_simps [simp]:
  "rl_keys server_limiter = Map.empty" "rl_rate server_limiter = 5" "rl_burst server_limiter = 20"
  "rl_ttl server_limiter = Hour"
  by (simp_all add: server_limiter_def newRateLimiter_def)

lemma snth_sconst: "sconst x !! n = x"
  by (induction n) simp_all

lemma still_clock: "clock_from t (still t)"
  by (simp add: clock_from_def still_def snth_sconst)

theorem limiter_invariant_witness:
  "\<exists>t'\<ge>7. rl_ok t' (fst (snd (rl_allow ''k'' server_limiter (still 7))))"
  using limiter_invariant [of 7 server_limiter "still 7" 20 "''k''"] still_clock
  by (cases "rl_allow ''k'' server_limiter (still 7)") (auto simp: rl_ok_def)

lemma allows_at_instant:
  assumes "rl_keys rl k = Some \<lparr>kl_tokens = of_int m, kl_last = t\<rparr>" "\<forall>n. wd_clock w !! n = t"
    and "rl_burst rl = of_int b" "0 \<le> m" "m \<le> b" "b < 2 ^ 53"
  shows "fst (rl_allows n k rl w) = replicate (min n (nat m)) True @ replicate (n - nat m) False"
  using assms
proof (induction n arbitrary: rl w m)
  case (Suc n)
  let ?kl = "\<lparr>kl_tokens = of_int m, kl_last = t\<rparr>"
  have now: "shd (wd_clock w) = t" "\<forall>n. stl (wd_clock w) !! n = t"
    using Suc.prems(2) by (metis snth.simps(1), metis snth.simps(2))
  have t1: "round64 (of_int m + round64 (Seconds (Sub t t) * rl_rate rl)) = of_int m"
    using f64.rnd_int [of m] Suc.prems by (simp add: Sub_def)
  obtain ok rl1 w1 where run: "rl_allow k rl w = (ok, rl1, w1)" using prod_cases3 by blast
  have step: "kl_allow_at (rl_rate rl) (rl_burst rl) t ?kl =
      (if m < 1 then (False, ?kl) else (True, \<lparr>kl_tokens = of_int (m - 1), kl_last = t\<rparr>))"
    using f64.rnd_int [of "m - 1"] Suc.prems by (simp add: kl_allow_at_def t1)
  have r: "ok = (1 \<le> m)" "w1 = w\<lparr>wd_clock := stl (wd_clock w)\<rparr>"
    "rl1 = rl\<lparr>rl_keys := (rl_keys rl)(k \<mapsto> \<lparr>kl_tokens = of_int (if m < 1 then m else m - 1), kl_last = t\<rparr>)\<rparr>"
    using run rl_allow_existing [OF Suc.prems(1), of w "1 \<le> m"
        "\<lparr>kl_tokens = of_int (if m < 1 then m else m - 1), kl_last = t\<rparr>"]
    by (simp_all add: now step)
  have "fst (rl_allows n k rl1 w1) = replicate (min n (nat (if m < 1 then m else m - 1))) True
      @ replicate (n - nat (if m < 1 then m else m - 1)) False"
    using Suc.prems r now(2) by (intro Suc.IH) simp_all
  moreover have "fst (rl_allows (Suc n) k rl w) = ok # fst (rl_allows n k rl1 w1)"
    by (simp add: run split: prod.splits)
  moreover have "nat m = Suc (nat (m - 1))" if "1 \<le> m" using that by simp
  ultimately show ?case using r(1) Suc.prems(4) by (cases "1 \<le> m") auto
qed simp

text \<open>
  C32. The burst is exact: a key that has no bucket yet is allowed exactly \<open>burst\<close> calls at one
  instant, and every further call at that instant is refused.
\<close>

theorem burst_exact:
  assumes "rl_keys rl k = None" "\<forall>n. wd_clock w !! n = t"
    and "rl_burst rl = of_int b" "0 \<le> b" "b < 2 ^ 53"
  shows "fst (rl_allows n k rl w) = replicate (min n (nat b)) True @ replicate (n - nat b) False"
proof -
  let ?kl = "\<lparr>kl_tokens = of_int b, kl_last = t\<rparr>"
  let ?rl = "rl\<lparr>rl_keys := (rl_keys rl)(k \<mapsto> ?kl)\<rparr>"
  have now: "shd (wd_clock w) = t" "\<forall>n. stl (wd_clock w) !! n = t"
    using assms(2) by (metis snth.simps(1), metis snth.simps(2))
  have "rl_allow k rl w = (let (ok, rl', w') = rl_allow k ?rl (w\<lparr>wd_clock := stl (wd_clock w)\<rparr>) in (ok, rl', w'))"
    using assms(1,3) now(1) by (simp add: rl_allow_def time_Now_def split: prod.splits)
  then have "rl_allow k rl w = rl_allow k ?rl (w\<lparr>wd_clock := stl (wd_clock w)\<rparr>)" by simp
  then have "fst (rl_allows n k rl w) = fst (rl_allows n k ?rl (w\<lparr>wd_clock := stl (wd_clock w)\<rparr>))"
    by (cases n) simp_all
  moreover have "fst (rl_allows n k ?rl (w\<lparr>wd_clock := stl (wd_clock w)\<rparr>))
      = replicate (min n (nat b)) True @ replicate (n - nat b) False"
    using assms(3-5) now(2) by (intro allows_at_instant) simp_all
  ultimately show ?thesis by simp
qed

theorem burst_exact_witness:
  "fst (rl_allows 22 ''k'' server_limiter (still 7)) = replicate 20 True @ [False, False]"
  using burst_exact [of server_limiter "''k''" "still 7" 7 20 22]
  by (simp add: still_def snth_sconst numeral_2_eq_2)

lemma allowed_Suc:
  assumes "rl_allow k rl w = (ok, rl1, w1)"
  shows "(of_nat (length (filter id (fst (rl_allows (Suc n) k rl w)))) :: rat)
    = of_bool ok + of_nat (length (filter id (fst (rl_allows n k rl1 w1))))"
  by (cases "rl_allows n k rl1 w1") (simp add: assms)

lemma allows_potential:
  assumes "rl_keys rl k = Some kl" "kl_ok 20 t kl" "clock_from t w" "rl_rate rl = 5" "rl_burst rl = 20"
  shows "of_nat (length (filter id (fst (rl_allows n k rl w)))) \<le> kl_tokens kl
     + (if n = 0 then 0 else 5 * of_int (wd_clock w !! (n - 1) - kl_last kl) / 1000000000) + of_nat n / 2 ^ 42"
  using assms
proof (induction n arbitrary: rl w kl t)
  case 0
  then show ?case by (simp add: kl_ok_def)
next
  case (Suc n)
  let ?now = "shd (wd_clock w)" and ?w1 = "w\<lparr>wd_clock := stl (wd_clock w)\<rparr>"
  obtain ok kl' where s: "kl_allow_at 5 20 ?now kl = (ok, kl')" by fastforce
  let ?rl1 = "rl\<lparr>rl_keys := (rl_keys rl)(k \<mapsto> kl')\<rparr>"
  have run: "rl_allow k rl w = (ok, ?rl1, ?w1)" using rl_allow_existing Suc.prems(1,4,5) s by simp
  note c = clock_from_tail [OF Suc.prems(3)]
  have k': "kl_ok 20 ?now kl'" "kl_last kl' = ?now"
    using kl_step_ok [of 20 t kl ?now 5 ok kl'] Suc.prems(2) c(1) s by simp_all
  note pot = kl_step_potential [OF Suc.prems(2) c(1) s]
  let ?l = "length (filter id (fst (rl_allows n k ?rl1 ?w1)))"
  have IH: "of_nat ?l \<le> kl_tokens kl' + (if n = 0 then 0
      else 5 * of_int (wd_clock ?w1 !! (n - 1) - kl_last kl') / 1000000000) + of_nat n / 2 ^ 42"
    by (rule Suc.IH [of ?rl1 kl' ?now ?w1]) (simp_all add: k' c Suc.prems)
  note len = allowed_Suc [OF run, of n]
  show ?case
  proof (cases n)
    case 0
    then show ?thesis using IH pot unfolding len by (cases ok) simp_all
  next
    case (Suc m)
    then have "wd_clock ?w1 !! (n - 1) = wd_clock w !! n" by simp
    then show ?thesis using IH pot k'(2) Suc unfolding len by (simp add: field_simps)
  qed
qed

lemma kl_allow_True:
  assumes "kl_allow_at rate burst now l = (True, l')"
  shows "\<exists>x\<le>burst. kl_tokens l' = round64 (x - 1)"
proof -
  let ?t1 = "round64 (kl_tokens l + round64 (Seconds (Sub now (kl_last l)) * rate))"
  let ?t2 = "if ?t1 > burst then burst else ?t1"
  have "kl_tokens l' = round64 (?t2 - 1)"
    using assms unfolding kl_allow_at_def Let_def by (cases "?t2 < 1") auto
  then show ?thesis by (intro exI [of _ ?t2]) simp
qed

text \<open>
  C33. The sustained rate: between a key's first and last of \<open>n + 1\<close> consecutive calls, whatever
  the bucket held, at most 20 calls plus five for every second in between are allowed, up to a
  rounding error of \<open>2 ^ -42\<close> per call.
\<close>

theorem sustained_rate:
  assumes "rl_keys rl k = Some kl" "kl_ok 20 t kl" "clock_from t w" "rl_rate rl = 5" "rl_burst rl = 20"
  shows "of_nat (length (filter id (fst (rl_allows (Suc n) k rl w))))
     \<le> (20 :: rat) + 5 * of_int (wd_clock w !! n - wd_clock w !! 0) / 1000000000 + of_nat n / 2 ^ 42"
proof -
  let ?now = "shd (wd_clock w)" and ?w1 = "w\<lparr>wd_clock := stl (wd_clock w)\<rparr>"
  obtain ok kl' where s: "kl_allow_at 5 20 ?now kl = (ok, kl')" by fastforce
  let ?rl1 = "rl\<lparr>rl_keys := (rl_keys rl)(k \<mapsto> kl')\<rparr>"
  have run: "rl_allow k rl w = (ok, ?rl1, ?w1)" using rl_allow_existing assms(1,4,5) s by simp
  note c = clock_from_tail [OF assms(3)]
  have k': "kl_ok 20 ?now kl'" "kl_last kl' = ?now"
    using kl_step_ok [of 20 t kl ?now 5 ok kl'] assms(2) c(1) s by simp_all
  have "kl_tokens kl' + of_bool ok \<le> 20"
  proof (cases ok)
    case True
    then obtain x where x: "x \<le> 20" "kl_tokens kl' = round64 (x - 1)"
      using kl_allow_True [of 5 20 ?now kl kl'] s by auto
    have "round64 (x - 1) \<le> round64 19" using x(1) by (intro f64.rnd_mono) simp
    then show ?thesis using x True f64.rnd_numeral [of "num.Bit1 (num.Bit1 (num.Bit0 (num.Bit0 num.One)))"] by simp
  next
    case False
    then show ?thesis using k'(1) by (simp add: kl_ok_def)
  qed
  moreover have "of_nat (length (filter id (fst (rl_allows n k ?rl1 ?w1)))) \<le> kl_tokens kl' + (if n = 0 then 0
      else 5 * of_int (wd_clock ?w1 !! (n - 1) - kl_last kl') / 1000000000) + of_nat n / 2 ^ 42"
    by (rule allows_potential [of ?rl1 k kl' ?now ?w1]) (simp_all add: k' c assms)
  moreover have "wd_clock ?w1 !! (n - 1) = wd_clock w !! n" if "n \<noteq> 0" using that by (cases n) simp_all
  ultimately show ?thesis unfolding allowed_Suc [OF run] by (cases "n = 0") (simp_all add: k'(2))
qed

theorem sustained_rate_witness:
  "length (filter id (fst (rl_allows 22 ''k''
     (server_limiter\<lparr>rl_keys := [''k'' \<mapsto> \<lparr>kl_tokens = 20, kl_last = 7\<rparr>]\<rparr>) (still 7)))) \<le> 20"
proof -
  let ?rl = "server_limiter\<lparr>rl_keys := [''k'' \<mapsto> \<lparr>kl_tokens = 20, kl_last = 7\<rparr>]\<rparr>"
  have "(of_nat (length (filter id (fst (rl_allows (Suc 21) ''k'' ?rl (still 7))))) :: rat) \<le> 20 + 21 / 2 ^ 42"
    using sustained_rate [of ?rl "''k''" "\<lparr>kl_tokens = 20, kl_last = 7\<rparr>" 7 "still 7" 21] still_clock
    by (simp add: kl_ok_def still_def snth_sconst del: rl_allows.simps)
  then have "(of_nat (length (filter id (fst (rl_allows (Suc 21) ''k'' ?rl (still 7))))) :: rat) < of_nat 21"
    by (rule le_less_trans) simp
  then show ?thesis by (simp only: of_nat_less_iff) simp
qed

text \<open>
  C34. Pruning is invisible: with the server's limits (one hour idle before removal, refill of five per
  second) the next call for any key gets the same answer, and leaves the same number of tokens, whether
  or not \<^verbatim>\<open>prune\<close> ran before it.
\<close>

theorem prune_invisible:
  assumes "rl_ok t rl" "clock_from t w" "rl_rate rl = 5" "rl_burst rl = 20" "rl_ttl rl = Hour"
    and "prune rl w = (rl', w')" and "rl_keys rl k = Some kl"
    and "rl_allow k rl w' = (ok1, rl1, w1)" and "rl_allow k rl' w' = (ok2, rl2, w2)"
  shows "ok1 = ok2 \<and> map_option kl_tokens (rl_keys rl1 k) = map_option kl_tokens (rl_keys rl2 k)"
proof (cases "kl_last kl < shd (wd_clock w) - Hour")
  case False
  then have "rl_keys rl' k = rl_keys rl k" "rl_rate rl' = 5" "rl_burst rl' = 20"
    using assms(3-7) by (auto simp: prune_def time_Now_def)
  then show ?thesis using assms(3,4,7,8,9) by (auto simp: rl_allow_def split: prod.splits)
next
  case True
  have w': "w' = w\<lparr>wd_clock := stl (wd_clock w)\<rparr>" and gone: "rl_keys rl' k = None"
    and rl': "rl_rate rl' = 5" "rl_burst rl' = 20"
    using assms(3-7) True by (auto simp: prune_def time_Now_def)
  note c = clock_from_tail [OF assms(2)]
  let ?n1 = "shd (wd_clock w')"
  have c1: "shd (wd_clock w) \<le> ?n1" "clock_from ?n1 (w'\<lparr>wd_clock := stl (wd_clock w')\<rparr>)"
    using clock_from_tail [OF c(2)] by (simp_all add: w')
  let ?n2 = "shd (stl (wd_clock w'))"
  have n2: "?n1 \<le> ?n2" using clock_from_tail(1) [OF c1(2)] by simp
  have full: "kl_allow_at 5 20 now l = (True, \<lparr>kl_tokens = 19, kl_last = now\<rparr>)"
    if "20 \<le> round64 (kl_tokens l + round64 (Seconds (Sub now (kl_last l)) * 5))" for now l
    using that f64.rnd_numeral [of "num.Bit1 (num.Bit1 (num.Bit0 (num.Bit0 num.One)))"]
    by (simp add: kl_allow_at_def Let_def)
  have tok: "0 \<le> kl_tokens kl" using assms(1,7) by (auto simp: rl_ok_def kl_ok_def)
  have "3600 * Second \<le> Sub ?n1 (kl_last kl)"
    using True c1(1) by (intro Sub_ge) (simp_all add: Hour_def Second_def)
  then have "of_int 3600 \<le> Seconds (Sub ?n1 (kl_last kl))" by (intro Seconds_ge) simp_all
  then have "round64 (of_int 18000) \<le> round64 (Seconds (Sub ?n1 (kl_last kl)) * 5)"
    by (intro f64.rnd_mono) simp
  then have "18000 \<le> round64 (Seconds (Sub ?n1 (kl_last kl)) * 5)" using f64.rnd_int [of 18000] by simp
  then have "round64 (of_int 18000) \<le> round64 (kl_tokens kl + round64 (Seconds (Sub ?n1 (kl_last kl)) * 5))"
    using tok by (intro f64.rnd_mono) simp
  then have k1: "kl_allow_at 5 20 ?n1 kl = (True, \<lparr>kl_tokens = 19, kl_last = ?n1\<rparr>)"
    using f64.rnd_int [of 18000] by (intro full) simp
  have "0 \<le> round64 (Seconds (Sub ?n2 ?n1) * 5)"
    using n2 by (intro f64.rnd_nonneg mult_nonneg_nonneg Seconds_nonneg Sub_bounds) simp_all
  then have "round64 (of_int 20) \<le> round64 (20 + round64 (Seconds (Sub ?n2 ?n1) * 5))"
    by (intro f64.rnd_mono) simp
  then have k2: "kl_allow_at 5 20 ?n2 \<lparr>kl_tokens = 20, kl_last = ?n1\<rparr> = (True, \<lparr>kl_tokens = 19, kl_last = ?n2\<rparr>)"
    using f64.rnd_int [of 20] by (intro full) simp
  have "ok1 = True" "rl_keys rl1 k = Some \<lparr>kl_tokens = 19, kl_last = ?n1\<rparr>"
    using rl_allow_existing [of rl k kl w'] k1 assms(3,4,7,8) by auto
  moreover have "ok2 = True" "rl_keys rl2 k = Some \<lparr>kl_tokens = 19, kl_last = ?n2\<rparr>"
    using assms(9) gone k2 by (auto simp: rl_allow_def kl_allow_def time_Now_def rl')
  ultimately show ?thesis by simp
qed

theorem prune_invisible_witness:
  "let rl = server_limiter\<lparr>rl_keys := [''k'' \<mapsto> \<lparr>kl_tokens = 3, kl_last = 0\<rparr>]\<rparr>;
       (rl', w') = prune rl (still (2 * Hour))
   in rl_keys rl' ''k'' = None \<and> fst (rl_allow ''k'' rl w') = fst (rl_allow ''k'' rl' w')"
proof -
  let ?kl = "\<lparr>kl_tokens = 3, kl_last = 0\<rparr> :: keyLimiter"
  let ?rl = "server_limiter\<lparr>rl_keys := [''k'' \<mapsto> ?kl]\<rparr>"
  obtain rl' w' where p: "prune ?rl (still (2 * Hour)) = (rl', w')" by fastforce
  obtain ok1 rl1 w1 where a1: "rl_allow ''k'' ?rl w' = (ok1, rl1, w1)" using prod_cases3 by blast
  obtain ok2 rl2 w2 where a2: "rl_allow ''k'' rl' w' = (ok2, rl2, w2)" using prod_cases3 by blast
  have "rl_ok (2 * Hour) ?rl" by (auto simp: rl_ok_def kl_ok_def Hour_def Second_def)
  from prune_invisible [OF this still_clock _ _ _ p _ a1 a2]
  have "ok1 = ok2" by simp
  moreover have "rl_keys rl' ''k'' = None" using p
    by (auto simp: prune_def time_Now_def still_def Hour_def Second_def)
  ultimately show ?thesis by (simp add: p a1 a2)
qed

end
