(* ===== verification/Server.thy ===== *)
theory Server
  imports Store Json Hub Ratelimit Nano_Amount Nano_Crypto
begin

text \<open>
  File \<^verbatim>\<open>cmd/relay/http.go\<close>: enrolment of devices, the control messages of enrolled devices, and the
  HTTP handlers for external callers, over any implementation \<open>S\<close> of the store. A handler is a function
  of the request and the server state; where it waits for a device, the wait is an argument. The body of
  a response is kept as the value that is encoded into it.
\<close>

section \<open>The server\<close>

record Config =
  cfg_Listen :: string
  cfg_RequestTimeoutSeconds :: int
  cfg_SQLitePath :: string

record 's server =
  sv_cfg :: Config
  sv_hub :: Hub
  sv_store :: 's
  sv_rl :: rateLimiter
  sv_world :: World

definition maxRequestBodyBytes :: nat where
  "maxRequestBodyBytes = 2 ^ 16"

definition newServer :: "Config \<Rightarrow> 's \<Rightarrow> World \<Rightarrow> 's server" where
  "newServer cfg store w =
     \<lparr>sv_cfg = cfg, sv_hub = newHub, sv_store = store, sv_rl = newRateLimiter 5 20 Hour, sv_world = w\<rparr>"

fun contains :: "string list \<Rightarrow> string \<Rightarrow> bool" where
  "contains [] v = False"
| "contains (x # xs) v = (if x = v then True else contains xs v)"

definition errString :: "string \<Rightarrow> go_error" where
  "errString s = GoErr s"

section \<open>Enrolment\<close>

text \<open>
  What a device sends is a list; \<open>None\<close> is a read that fails (a closed connection, a missed deadline,
  text that is not an envelope), and so is reading past the end.
\<close>

type_synonym inbound = "Envelope option list"

definition verifyAccountSig ::
  "blake2b \<Rightarrow> ('e, 'p) edwards \<Rightarrow> string \<Rightarrow> byte list \<Rightarrow> string \<Rightarrow> go_error + bool" where
  "verifyAccountSig B E addr nonce sigHex =
     (case ParseAddress B addr of
        Inl (GoPanic p) \<Rightarrow> Inl (GoPanic p)
      | Inl (GoErr _) \<Rightarrow> Inr False
      | Inr pub \<Rightarrow>
          (case DecodeString sigHex of
             None \<Rightarrow> Inr False
           | Some raw \<Rightarrow>
               if length raw \<noteq> 64 then Inr False
               else VerifyChallenge B E pub nonce (copy_into 64 raw)))"

fun prove_loop :: "blake2b \<Rightarrow> ('e, 'p) edwards \<Rightarrow> byte list \<Rightarrow> (string \<times> string) list \<Rightarrow>
    string list \<Rightarrow> string list \<Rightarrow> go_error + string list" where
  "prove_loop B E nonce sigs [] proven = Inr proven"
| "prove_loop B E nonce sigs (addr # addrs) proven =
     (case map_of sigs addr of
        None \<Rightarrow> prove_loop B E nonce sigs addrs proven
      | Some sigHex \<Rightarrow>
          (case verifyAccountSig B E addr nonce sigHex of
             Inl e \<Rightarrow> Inl e
           | Inr ok \<Rightarrow>
               prove_loop B E nonce sigs addrs (if ok then proven @ [addr] else proven)))"

text \<open>\<open>werr\<close> is the text of the error that a failing write returns.\<close>

definition enroll :: "blake2b \<Rightarrow> ('e, 'p) edwards \<Rightarrow> string \<Rightarrow> nat \<Rightarrow> inbound \<Rightarrow> World \<Rightarrow>
    (go_error + agentConn) \<times> inbound \<times> World" where
  "enroll B E werr ws msgs w =
     (case msgs of
        Some hello # msgs1 \<Rightarrow>
          (if e_Type hello \<noteq> TypeHello then (Inl (errString ''expected hello''), msgs1, w)
           else case e_Hello hello of
             None \<Rightarrow> (Inl (errString ''expected hello''), msgs1, w)
           | Some h \<Rightarrow>
               if length (h_Accounts h) = 0 then
                 (Inl (errString ''hello announced no accounts''), msgs1, w)
               else
                 let (nonce, w1) = randomBytes 32 w;
                     (ok, w2) = ws_WriteJSON ws
                       ((envelope TypeChallenge)\<lparr>e_Challenge := Some \<lparr>ch_Nonce = nonce\<rparr>\<rparr>) w1
                 in if \<not> ok then (Inl (GoErr werr), msgs1, w2)
                    else
                      (case msgs1 of
                         Some auth # msgs2 \<Rightarrow>
                           (if e_Type auth \<noteq> TypeAuth then (Inl (errString ''expected auth''), msgs2, w2)
                            else case e_Auth auth of
                              None \<Rightarrow> (Inl (errString ''expected auth''), msgs2, w2)
                            | Some a \<Rightarrow>
                                (case prove_loop B E nonce (au_Signatures a) (h_Accounts h) [] of
                                   Inl e \<Rightarrow> (Inl e, msgs2, w2)
                                 | Inr proven \<Rightarrow>
                                     if length proven = 0 then
                                       (Inl (errString ''no account proved control''), msgs2, w2)
                                     else
                                       (Inr \<lparr>ac_deviceID = h_DeviceID h, ac_accounts = proven, ac_ws = ws\<rparr>,
                                        msgs2, w2)))
                       | None # msgs2 \<Rightarrow> (Inl (errString ''expected auth''), msgs2, w2)
                       | [] \<Rightarrow> (Inl (errString ''expected auth''), [], w2)))
      | None # msgs1 \<Rightarrow> (Inl (errString ''expected hello''), msgs1, w)
      | [] \<Rightarrow> (Inl (errString ''expected hello''), [], w))"

section \<open>Control messages\<close>

definition not_controlled :: string where
  "not_controlled = ''you do not control that account on this device''"

definition control_reply :: "Control \<Rightarrow> Control" where
  "control_reply c = zero_Control\<lparr>c_Op := ''result'', c_CorrID := c_CorrID c\<rparr>"

definition ctl_register_key :: "'s Store \<Rightarrow> agentConn \<Rightarrow> Control \<Rightarrow> 's \<Rightarrow> Control \<times> 's" where
  "ctl_register_key S a c st =
     (let reply = control_reply c in
      if \<not> contains (ac_accounts a) (c_Account c) then (reply\<lparr>c_Error := not_controlled\<rparr>, st)
      else if c_KeyID c = [] \<or> c_Hash c = [] then
        (reply\<lparr>c_Error := ''register_key requires key_id and hash''\<rparr>, st)
      else
        (case RegisterAPIKey S st (c_KeyID c) (c_Account c) (c_Hash c) of
           (Some e, st1) \<Rightarrow> (reply\<lparr>c_Error := error_text e\<rparr>, st1)
         | (None, st1) \<Rightarrow>
             let st2 = (if length (c_AllowedOrigins c) > 0
                        then snd (UpdateKeyOrigins S st1 (c_KeyID c) (c_Account c) (c_AllowedOrigins c))
                        else st1)
             in (reply\<lparr>c_KeyID := c_KeyID c, c_Account := c_Account c\<rparr>, st2)))"

fun rebind_loop :: "'s Store \<Rightarrow> string \<Rightarrow> string \<Rightarrow> string list \<Rightarrow> 's \<Rightarrow> bool \<times> 's" where
  "rebind_loop S keyID newAcc [] st = (False, st)"
| "rebind_loop S keyID newAcc (acc # accs) st =
     (case RebindAPIKey S st keyID acc newAcc of
        (None, st1) \<Rightarrow> (True, st1)
      | (Some _, st1) \<Rightarrow> rebind_loop S keyID newAcc accs st1)"

definition ctl_rebind_key :: "'s Store \<Rightarrow> agentConn \<Rightarrow> Control \<Rightarrow> 's \<Rightarrow> Control \<times> 's" where
  "ctl_rebind_key S a c st =
     (let reply = control_reply c in
      if \<not> contains (ac_accounts a) (c_Account c) then (reply\<lparr>c_Error := not_controlled\<rparr>, st)
      else if c_KeyID c = [] then (reply\<lparr>c_Error := ''rebind_key requires key_id''\<rparr>, st)
      else
        let (rebound, st1) = rebind_loop S (c_KeyID c) (c_Account c) (ac_accounts a) st
        in if \<not> rebound then (reply\<lparr>c_Error := ''key not found''\<rparr>, st1)
           else (reply\<lparr>c_KeyID := c_KeyID c, c_Account := c_Account c\<rparr>, st1))"

fun revoke_loop :: "'s Store \<Rightarrow> string \<Rightarrow> string list \<Rightarrow> 's \<Rightarrow> bool \<times> 's" where
  "revoke_loop S keyID [] st = (False, st)"
| "revoke_loop S keyID (acc # accs) st =
     (case RevokeAPIKey S st acc keyID of
        (None, st1) \<Rightarrow> (True, st1)
      | (Some _, st1) \<Rightarrow> revoke_loop S keyID accs st1)"

definition ctl_revoke_key :: "'s Store \<Rightarrow> agentConn \<Rightarrow> Control \<Rightarrow> 's \<Rightarrow> Control \<times> 's" where
  "ctl_revoke_key S a c st =
     (let reply = control_reply c;
          (revoked, st1) = revoke_loop S (c_KeyID c) (ac_accounts a) st
      in (if \<not> revoked then reply\<lparr>c_Error := ''key not found''\<rparr> else reply, st1))"

definition ctl_update_origins :: "'s Store \<Rightarrow> agentConn \<Rightarrow> Control \<Rightarrow> 's \<Rightarrow> Control \<times> 's" where
  "ctl_update_origins S a c st =
     (let reply = control_reply c in
      if \<not> contains (ac_accounts a) (c_Account c) then (reply\<lparr>c_Error := not_controlled\<rparr>, st)
      else if c_KeyID c = [] then (reply\<lparr>c_Error := ''update_origins requires key_id''\<rparr>, st)
      else
        (case UpdateKeyOrigins S st (c_KeyID c) (c_Account c) (c_AllowedOrigins c) of
           (Some e, st1) \<Rightarrow> (reply\<lparr>c_Error := error_text e\<rparr>, st1)
         | (None, st1) \<Rightarrow> (reply\<lparr>c_KeyID := c_KeyID c\<rparr>, st1)))"

definition ctl_put_policy :: "'s Store \<Rightarrow> agentConn \<Rightarrow> Control \<Rightarrow> 's \<Rightarrow> Control \<times> 's" where
  "ctl_put_policy S a c st =
     (let reply = control_reply c in
      if \<not> contains (ac_accounts a) (c_Account c) then (reply\<lparr>c_Error := not_controlled\<rparr>, st)
      else
        (case PutPolicy S st (c_Account c) (c_Version c) (c_Blob c) of
           (Some e, st1) \<Rightarrow> (reply\<lparr>c_Error := error_text e\<rparr>, st1)
         | (None, st1) \<Rightarrow> (reply, st1)))"

definition ctl_get_policy :: "'s Store \<Rightarrow> agentConn \<Rightarrow> Control \<Rightarrow> 's \<Rightarrow> Control \<times> 's" where
  "ctl_get_policy S a c st =
     (let reply = control_reply c in
      if \<not> contains (ac_accounts a) (c_Account c) then (reply\<lparr>c_Error := not_controlled\<rparr>, st)
      else
        (case GetPolicy S st (c_Account c) of
           ((ver, blob, found, Some e), st1) \<Rightarrow> (reply\<lparr>c_Error := error_text e\<rparr>, st1)
         | ((ver, blob, found, None), st1) \<Rightarrow>
             ((if found then reply\<lparr>c_Version := ver, c_Blob := blob\<rparr> else reply)
                \<lparr>c_Account := c_Account c\<rparr>, st1)))"

definition control_op :: "'s Store \<Rightarrow> agentConn \<Rightarrow> Control \<Rightarrow> 's \<Rightarrow> Control \<times> 's" where
  "control_op S a c st =
     (if c_Op c = ''register_key'' then ctl_register_key S a c st
      else if c_Op c = ''rebind_key'' then ctl_rebind_key S a c st
      else if c_Op c = ''revoke_key'' then ctl_revoke_key S a c st
      else if c_Op c = ''update_origins'' then ctl_update_origins S a c st
      else if c_Op c = ''put_policy'' then ctl_put_policy S a c st
      else if c_Op c = ''get_policy'' then ctl_get_policy S a c st
      else ((control_reply c)\<lparr>c_Error := ''unknown control op''\<rparr>, st))"

definition handleControl :: "'s Store \<Rightarrow> agentConn \<Rightarrow> Control \<Rightarrow> 's server \<Rightarrow> 's server" where
  "handleControl S a c s =
     (let (reply, st) = control_op S a c (sv_store s);
          (_, w) = writeJSON_conn a ((envelope TypeControl)\<lparr>e_Control := Some reply\<rparr>) (sv_world s)
      in s\<lparr>sv_store := st, sv_world := w\<rparr>)"

section \<open>The life of a connection\<close>

definition agent_message :: "'s Store \<Rightarrow> agentConn \<Rightarrow> Envelope \<Rightarrow> 's server \<Rightarrow> 's server" where
  "agent_message S a env s =
     (if e_Type env = TypeResult then
        (case e_Result env of
           None \<Rightarrow> s
         | Some r \<Rightarrow> s\<lparr>sv_hub := deliverResult r (sv_hub s)\<rparr>)
      else if e_Type env = TypeControl then
        (case e_Control env of None \<Rightarrow> s | Some c \<Rightarrow> handleControl S a c s)
      else if e_Type env = TypeQueryResult then
        (case e_QueryResult env of
           None \<Rightarrow> s
         | Some qr \<Rightarrow> s\<lparr>sv_hub := deliverQueryResult (e_ID env) qr (sv_hub s)\<rparr>)
      else s)"

fun agentReadLoop :: "'s Store \<Rightarrow> agentConn \<Rightarrow> inbound \<Rightarrow> 's server \<Rightarrow> 's server" where
  "agentReadLoop S a [] s = s"
| "agentReadLoop S a (None # msgs) s = s"
| "agentReadLoop S a (Some env # msgs) s = agentReadLoop S a msgs (agent_message S a env s)"

definition writeWSError :: "nat \<Rightarrow> string \<Rightarrow> World \<Rightarrow> World" where
  "writeWSError ws msg w = snd (ws_WriteJSON ws ((envelope TypeError)\<lparr>e_Error := msg\<rparr>) w)"

text \<open>
  \<^verbatim>\<open>handleAgent\<close> on an upgraded connection. A panic leaves through \<^verbatim>\<open>net/http\<close>, which recovers it.
\<close>

definition handleAgent :: "'s Store \<Rightarrow> blake2b \<Rightarrow> ('e, 'p) edwards \<Rightarrow> string \<Rightarrow> nat \<Rightarrow> inbound \<Rightarrow>
    's server \<Rightarrow> 's server" where
  "handleAgent S B E werr ws msgs s =
     (case enroll B E werr ws msgs (sv_world s) of
        (Inl (GoPanic p), _, w) \<Rightarrow> s\<lparr>sv_world := w\<rparr>
      | (Inl (GoErr e), _, w) \<Rightarrow> s\<lparr>sv_world := writeWSError ws e w\<rparr>
      | (Inr a, rest, w) \<Rightarrow>
          let s1 = s\<lparr>sv_hub := bind a (sv_hub s), sv_world := w\<rparr>;
              (_, w2) = writeJSON_conn a
                ((envelope TypeWelcome)\<lparr>e_Welcome := Some \<lparr>w_Accounts = ac_accounts a\<rparr>\<rparr>) (sv_world s1);
              s2 = agentReadLoop S a rest (s1\<lparr>sv_world := w2\<rparr>)
          in s2\<lparr>sv_hub := unbind a (sv_hub s2)\<rparr>)"

end
