(* ===== verification/Http.thy ===== *)
theory Http
  imports Server "HOL-Library.Monad_Syntax"
begin

text \<open>
  File \<^verbatim>\<open>cmd/relay/http.go\<close>, continued: the API for external callers, the CORS middleware and the
  routes. A handler takes the request, the response written so far (the middleware may have set
  headers) and the server. \<open>S\<close> is the store, \<open>B\<close> the hash and \<open>E\<close> the curve.
\<close>

section \<open>Requests and responses\<close>

text \<open>
  \<open>rq_Header\<close> is \<^verbatim>\<open>Header.Get\<close>, the empty text for a header that is not there; \<open>rq_Path\<close> is a path
  written without percent escapes.
\<close>

record Request =
  rq_Method :: string
  rq_Path :: string
  rq_RawQuery :: string
  rq_Header :: "string \<Rightarrow> string"
  rq_Body :: string

text \<open>What the body of a response is made from.\<close>

datatype body =
    NoBody
  | ErrorJSON string
  | StatusJSON string string bool    \<comment> \<open>contact_id, account, device_online\<close>
  | ResultJSON TxResult
  | Bytes string
  | MovedTo string                   \<comment> \<open>the mux's redirect\<close>
  | Aborted string                   \<comment> \<open>a panic, which \<^verbatim>\<open>net/http\<close> turns into a broken connection\<close>

record Response =
  rs_Header :: "string \<rightharpoonup> string"
  rs_Status :: nat
  rs_Body :: body

definition newResponse :: Response where
  "newResponse = \<lparr>rs_Header = Map.empty, rs_Status = 0, rs_Body = NoBody\<rparr>"

definition setHeader :: "string \<Rightarrow> string \<Rightarrow> Response \<Rightarrow> Response" where
  "setHeader k v rw = rw\<lparr>rs_Header := (rs_Header rw)(k \<mapsto> v)\<rparr>"

definition respond :: "nat \<Rightarrow> body \<Rightarrow> Response \<Rightarrow> Response" where
  "respond status b rw = rw\<lparr>rs_Status := status, rs_Body := b\<rparr>"

definition writeJSON :: "nat \<Rightarrow> body \<Rightarrow> Response \<Rightarrow> Response" where
  "writeJSON status v rw = respond status v (setHeader ''Content-Type'' ''application/json'' rw)"

definition writeJSONError :: "nat \<Rightarrow> string \<Rightarrow> Response \<Rightarrow> Response" where
  "writeJSONError status msg rw = writeJSON status (ErrorJSON msg) rw"

section \<open>Building a transaction request\<close>

record createRequestBody =
  cb_Kind :: string
  cb_Destination :: string
  cb_AmountRaw :: string
  cb_Amount :: string
  cb_Counterparty :: string
  cb_Memo :: string
  cb_Nonce :: string
  cb_Action :: string

definition body_fields :: "(string \<times> json) list \<Rightarrow> createRequestBody option" where
  "body_fields ms = do {
     kind \<leftarrow> string_field ''kind'' ms [];
     destination \<leftarrow> string_field ''destination'' ms [];
     amount_raw \<leftarrow> string_field ''amount_raw'' ms [];
     amount \<leftarrow> string_field ''amount'' ms [];
     counterparty \<leftarrow> string_field ''counterparty'' ms [];
     memo \<leftarrow> string_field ''memo'' ms [];
     nonce \<leftarrow> string_field ''nonce'' ms [];
     action \<leftarrow> string_field ''action'' ms [];
     Some \<lparr>cb_Kind = kind, cb_Destination = destination, cb_AmountRaw = amount_raw,
       cb_Amount = amount, cb_Counterparty = counterparty, cb_Memo = memo, cb_Nonce = nonce,
       cb_Action = action\<rparr>
   }"

text \<open>\<^verbatim>\<open>Decode\<close> into a struct: \<^verbatim>\<open>null\<close> leaves it as it is, a value that is no object is an error.\<close>

definition decode_struct :: "nat \<Rightarrow> ((string \<times> json) list \<Rightarrow> 'a option) \<Rightarrow> string \<Rightarrow> 'a option" where
  "decode_struct limit get text =
     (case decode_body limit text of
        Some (JObj ms) \<Rightarrow> get ms
      | Some JNull \<Rightarrow> get []
      | _ \<Rightarrow> None)"

definition resolveAmount :: "createRequestBody \<Rightarrow> go_error + string" where
  "resolveAmount body =
     (if cb_AmountRaw body \<noteq> [] then Inr (cb_AmountRaw body)
      else if cb_Amount body \<noteq> [] then
        (case ParseNanoAmount (cb_Amount body) of
           Inl _ \<Rightarrow> Inl (errString ''invalid amount'')
         | Inr raw \<Rightarrow> Inr (Int_String raw))
      else Inl (errString ''amount_raw or amount is required''))"

definition buildTxRequest :: "blake2b \<Rightarrow> APIKey \<Rightarrow> createRequestBody \<Rightarrow> World \<Rightarrow>
    (go_error + TxRequest) \<times> World" where
  "buildTxRequest B key body w =
     (let (secret, w1) = randomSecret 12 w;
          (now, w2) = time_Now w1;
          req = zero_TxRequest
            \<lparr>tr_ID := ''req_'' @ secret, tr_ContactID := k_ID key, tr_Account := k_OwnerAccount key,
             tr_Counterparty := cb_Counterparty body, tr_Memo := cb_Memo body,
             tr_Nonce := cb_Nonce body, tr_CreatedAt := now\<rparr>;
          req = (if tr_Nonce req = [] then req\<lparr>tr_Nonce := tr_ID req\<rparr> else req)
      in if cb_Kind body \<noteq> KindSend then (Inl (errString ''kind must be \"send\"''), w2)
         else
           let req = req\<lparr>tr_Kind := KindSend\<rparr>
           in case ParseAddress B (cb_Destination body) of
                Inl (GoPanic p) \<Rightarrow> (Inl (GoPanic p), w2)
              | Inl (GoErr _) \<Rightarrow> (Inl (errString ''destination is not a valid nano_ address''), w2)
              | Inr _ \<Rightarrow>
                  let req = req\<lparr>tr_Destination := cb_Destination body\<rparr>
                  in case resolveAmount body of
                       Inl e \<Rightarrow> (Inl e, w2)
                     | Inr amount \<Rightarrow>
                         let req = req\<lparr>tr_AmountRaw := amount\<rparr>
                         in (Inr (if cb_Action body = ''sign_only''
                                  then req\<lparr>tr_ActionOverride := ''sign_only''\<rparr> else req), w2))"

section \<open>Authentication\<close>

definition authKey :: "'s Store \<Rightarrow> Request \<Rightarrow> 's \<Rightarrow> (APIKey \<times> bool) \<times> 's" where
  "authKey S r st =
     (let auth = rq_Header r ''Authorization'';
          plaintext = TrimSpace (TrimPrefix auth ''Bearer '')
      in if plaintext = [] \<or> plaintext = auth then ((zero_APIKey, False), st)
         else
           (case ResolveAPIKey S st plaintext of
              (Inl _, st') \<Rightarrow> ((zero_APIKey, False), st')
            | (Inr key, st') \<Rightarrow> ((key, True), st')))"

definition invalid_key :: "Response \<Rightarrow> Response" where
  "invalid_key rw = writeJSONError 401 ''invalid API key'' rw"

definition device_offline :: "Response \<Rightarrow> Response" where
  "device_offline rw = writeJSONError 503 ''the account's device is offline'' rw"

definition timed_out :: "Response \<Rightarrow> Response" where
  "timed_out rw = writeJSONError 504 ''timed out waiting for the device'' rw"

definition rate_limited :: "Response \<Rightarrow> Response" where
  "rate_limited rw = writeJSONError 429 ''rate limit exceeded'' (setHeader ''Retry-After'' ''1'' rw)"

definition aborted :: "string \<Rightarrow> Response \<Rightarrow> Response" where
  "aborted p rw = respond 0 (Aborted p) rw"

section \<open>Handlers\<close>

definition handleCreateRequest :: "'s Store \<Rightarrow> blake2b \<Rightarrow> wait \<Rightarrow> Request \<Rightarrow> Response \<Rightarrow> 's server \<Rightarrow>
    Response \<times> 's server" where
  "handleCreateRequest S B wt r rw s =
     (if rq_Method r \<noteq> ''POST'' then (writeJSONError 405 ''use POST'' rw, s)
      else
        let ((key, ok), st) = authKey S r (sv_store s);
            s = s\<lparr>sv_store := st\<rparr>
        in if \<not> ok then (invalid_key rw, s)
        else
          let (allowed, rl, w) = rl_allow (k_ID key) (sv_rl s) (sv_world s);
              s = s\<lparr>sv_rl := rl, sv_world := w\<rparr>
          in if \<not> allowed then (rate_limited rw, s)
          else
            case decode_struct maxRequestBodyBytes body_fields (rq_Body r) of
              None \<Rightarrow> (writeJSONError 400 ''invalid JSON body'' rw, s)
            | Some body \<Rightarrow>
                let (built, w) = buildTxRequest B key body (sv_world s);
                    s = s\<lparr>sv_world := w\<rparr>
                in case built of
                     Inl (GoPanic p) \<Rightarrow> (aborted p rw, s)
                   | Inl (GoErr e) \<Rightarrow> (writeJSONError 400 e rw, s)
                   | Inr req \<Rightarrow>
                       if \<not> accountOnline (sv_hub s) (k_OwnerAccount key) then (device_offline rw, s)
                       else
                         let (res, h, w) = sendRequest wt (k_OwnerAccount key) req (sv_hub s) (sv_world s);
                             s = s\<lparr>sv_hub := h, sv_world := w\<rparr>
                         in case res of
                              Inl e \<Rightarrow> (if e = errAccountOffline then device_offline rw else timed_out rw, s)
                            | Inr result \<Rightarrow> (writeJSON 200 (ResultJSON result) rw, s))"

text \<open>The tail that the queries share: online check, query, and the mapping of the device's answer.\<close>

definition raw_data :: "string \<Rightarrow> Response \<Rightarrow> Response" where
  "raw_data d rw = respond 200 (Bytes d) (setHeader ''Content-Type'' ''application/json'' rw)"

definition query_answer :: "string option \<Rightarrow> (go_error + QueryResult) \<Rightarrow> Response \<Rightarrow> Response" where
  "query_answer missing res rw =
     (case res of
        Inl e \<Rightarrow> if e = errAccountOffline then device_offline rw else timed_out rw
      | Inr qr \<Rightarrow>
          (case missing of
             Some msg \<Rightarrow>
               if qr_Error qr = ''not_found'' then writeJSONError 404 msg rw
               else if qr_Error qr \<noteq> [] then writeJSONError 502 (qr_Error qr) rw
               else raw_data (qr_Data qr) rw
           | None \<Rightarrow>
               if qr_Error qr \<noteq> [] then writeJSONError 502 (qr_Error qr) rw
               else raw_data (qr_Data qr) rw))"

definition run_query :: "wait \<Rightarrow> APIKey \<Rightarrow> string \<Rightarrow> string \<Rightarrow> string option \<Rightarrow> Response \<Rightarrow> 's server \<Rightarrow>
    Response \<times> 's server" where
  "run_query wt key op nonce missing rw s =
     (if \<not> accountOnline (sv_hub s) (k_OwnerAccount key) then (device_offline rw, s)
      else
        let (res, h, w) = sendQuery wt (k_OwnerAccount key)
              \<lparr>q_Op = op, q_ContactID = k_ID key, q_Account = k_OwnerAccount key, q_Nonce = nonce\<rparr>
              (sv_hub s) (sv_world s)
        in (query_answer missing res rw, s\<lparr>sv_hub := h, sv_world := w\<rparr>))"

text \<open>The dash in the first message is U+2014.\<close>

definition no_signed_block :: string where
  "no_signed_block = ''no signed block found for that nonce '' @ [CHR 0xE2, CHR 0x80, CHR 0x94]
     @ '' it may have already been broadcast, rejected, or never signed''"

definition no_completed_request :: string where
  "no_completed_request =
     ''no completed request with that nonce (it may be pending, rejected, or never submitted)''"

definition handleBroadcast :: "'s Store \<Rightarrow> wait \<Rightarrow> Request \<Rightarrow> Response \<Rightarrow> 's server \<Rightarrow>
    Response \<times> 's server" where
  "handleBroadcast S wt r rw s =
     (if rq_Method r \<noteq> ''POST'' then (writeJSONError 405 ''use POST'' rw, s)
      else
        let ((key, ok), st) = authKey S r (sv_store s);
            s = s\<lparr>sv_store := st\<rparr>
        in if \<not> ok then (invalid_key rw, s)
        else
          let (allowed, rl, w) = rl_allow (k_ID key) (sv_rl s) (sv_world s);
              s = s\<lparr>sv_rl := rl, sv_world := w\<rparr>
          in if \<not> allowed then (rate_limited rw, s)
          else
            case decode_struct 4096 (\<lambda>ms. string_field ''nonce'' ms []) (rq_Body r) of
              None \<Rightarrow> (writeJSONError 400 ''\"nonce\" is required'' rw, s)
            | Some nonce \<Rightarrow>
                if nonce = [] then (writeJSONError 400 ''\"nonce\" is required'' rw, s)
                else run_query wt key ''broadcast_nonce'' nonce (Some no_signed_block) rw s)"

definition handleStatus :: "'s Store \<Rightarrow> Request \<Rightarrow> Response \<Rightarrow> 's server \<Rightarrow> Response \<times> 's server" where
  "handleStatus S r rw s =
     (let ((key, ok), st) = authKey S r (sv_store s);
          s = s\<lparr>sv_store := st\<rparr>
      in if \<not> ok then (invalid_key rw, s)
         else (writeJSON 200 (StatusJSON (k_ID key) (k_OwnerAccount key)
                 (accountOnline (sv_hub s) (k_OwnerAccount key))) rw, s))"

definition deviceQuery :: "'s Store \<Rightarrow> wait \<Rightarrow> string \<Rightarrow> Request \<Rightarrow> Response \<Rightarrow> 's server \<Rightarrow>
    Response \<times> 's server" where
  "deviceQuery S wt op r rw s =
     (if rq_Method r \<noteq> ''GET'' then (writeJSONError 405 ''use GET'' rw, s)
      else
        let ((key, ok), st) = authKey S r (sv_store s);
            s = s\<lparr>sv_store := st\<rparr>
        in if \<not> ok then (invalid_key rw, s)
           else run_query wt key op [] None rw s)"

definition handleSettings :: "'s Store \<Rightarrow> wait \<Rightarrow> Request \<Rightarrow> Response \<Rightarrow> 's server \<Rightarrow>
    Response \<times> 's server" where
  "handleSettings S wt = deviceQuery S wt ''settings''"

definition handleBalance :: "'s Store \<Rightarrow> wait \<Rightarrow> Request \<Rightarrow> Response \<Rightarrow> 's server \<Rightarrow>
    Response \<times> 's server" where
  "handleBalance S wt = deviceQuery S wt ''balance''"

definition handleActivity :: "'s Store \<Rightarrow> wait \<Rightarrow> Request \<Rightarrow> Response \<Rightarrow> 's server \<Rightarrow>
    Response \<times> 's server" where
  "handleActivity S wt = deviceQuery S wt ''activity''"

section \<open>The query string\<close>

text \<open>
  \<^verbatim>\<open>url.QueryUnescape\<close> and \<^verbatim>\<open>url.ParseQuery\<close>: pairs are separated by \<open>&\<close>; a pair with a semicolon or a
  bad escape is dropped; \<^verbatim>\<open>Get\<close> returns the first value of a key.
\<close>

fun QueryUnescape :: "string \<Rightarrow> string option" where
  "QueryUnescape [] = Some []"
| "QueryUnescape (c # s) =
     (if c = CHR ''%'' then
        (case s of
           a # b # t \<Rightarrow>
             (case (from_hex_char a, from_hex_char b) of
                (Some x, Some y) \<Rightarrow> map_option ((#) (char_of (16 * x + y))) (QueryUnescape t)
              | _ \<Rightarrow> None)
         | _ \<Rightarrow> None)
      else map_option ((#) (if c = CHR ''+'' then CHR '' '' else c)) (QueryUnescape s))"

fun split_on :: "char \<Rightarrow> string \<Rightarrow> string list" where
  "split_on sep [] = [[]]"
| "split_on sep (c # s) =
     (if c = sep then [] # split_on sep s
      else (case split_on sep s of [] \<Rightarrow> [[c]] | p # ps \<Rightarrow> (c # p) # ps))"

definition query_pair :: "string \<Rightarrow> (string \<times> string) option" where
  "query_pair p =
     (if CHR '';'' \<in> set p \<or> p = [] then None
      else
        let (k, v) = (case Cut p CHR ''='' of Some (k, v) \<Rightarrow> (k, v) | None \<Rightarrow> (p, []))
        in do { k' \<leftarrow> QueryUnescape k; v' \<leftarrow> QueryUnescape v; Some (k', v') })"

definition query_get :: "string \<Rightarrow> string \<Rightarrow> string" where
  "query_get rawQuery key =
     (case map_of (List.map_filter query_pair (split_on CHR ''&'' rawQuery)) key of
        None \<Rightarrow> []
      | Some v \<Rightarrow> v)"

definition handleRequestStatus :: "'s Store \<Rightarrow> wait \<Rightarrow> Request \<Rightarrow> Response \<Rightarrow> 's server \<Rightarrow>
    Response \<times> 's server" where
  "handleRequestStatus S wt r rw s =
     (if rq_Method r \<noteq> ''GET'' then (writeJSONError 405 ''use GET'' rw, s)
      else
        let ((key, ok), st) = authKey S r (sv_store s);
            s = s\<lparr>sv_store := st\<rparr>
        in if \<not> ok then (invalid_key rw, s)
           else
             let nonce = TrimSpace (query_get (rq_RawQuery r) ''nonce'')
             in if nonce = [] then (writeJSONError 400 ''nonce query parameter is required'' rw, s)
                else run_query wt key ''request_status'' nonce (Some no_completed_request) rw s)"

definition handleHealthz :: "Response \<Rightarrow> Response" where
  "handleHealthz rw = respond 200 (Bytes ''ok'') rw"

section \<open>Routes\<close>

text \<open>
  \<^verbatim>\<open>path.Clean\<close> on a rooted path, and the mux's use of it, which keeps a final slash.
\<close>

fun clean_segments :: "string list \<Rightarrow> string list \<Rightarrow> string list" where
  "clean_segments acc [] = rev acc"
| "clean_segments acc (x # xs) =
     (if x = [] \<or> x = ''.'' then clean_segments acc xs
      else if x = ''..'' then clean_segments (tl acc) xs
      else clean_segments (x # acc) xs)"

definition cleanPath :: "string \<Rightarrow> string" where
  "cleanPath p =
     (if p = [] then ''/''
      else
        let p' = (if hd p = CHR ''/'' then p else CHR ''/'' # p);
            segs = clean_segments [] (split_on CHR ''/'' p');
            np = (if segs = [] then ''/'' else concat (map ((#) CHR ''/'') segs))
        in if last p' = CHR ''/'' \<and> np \<noteq> ''/'' then np @ ''/'' else np)"

text \<open>
  What \<^verbatim>\<open>/agent\<close> gets from the websocket package: the response it wrote because the request is no
  upgrade, or the connection's number, what the device will send, and the text of a write error.
\<close>

type_synonym upgrade = "Request \<Rightarrow> Response \<Rightarrow> Response + (nat \<times> inbound \<times> string)"

definition agent_endpoint :: "'s Store \<Rightarrow> blake2b \<Rightarrow> ('e, 'p) edwards \<Rightarrow> upgrade \<Rightarrow>
    Request \<Rightarrow> Response \<Rightarrow> 's server \<Rightarrow> Response \<times> 's server" where
  "agent_endpoint S B E up r rw s =
     (case up r rw of
        Inl rw' \<Rightarrow> (rw', s)
      | Inr (ws, msgs, werr) \<Rightarrow> (respond 101 NoBody rw, handleAgent S B E werr ws msgs s))"

definition redirect :: "Request \<Rightarrow> string \<Rightarrow> Response \<Rightarrow> Response" where
  "redirect r path rw =
     (let url = (if rq_RawQuery r = [] then path else path @ CHR ''?'' # rq_RawQuery r);
          rw = setHeader ''Location'' url rw
      in respond 301 (MovedTo url)
           (if rq_Method r = ''GET'' \<or> rq_Method r = ''HEAD''
            then setHeader ''Content-Type'' ''text/html; charset=utf-8'' rw else rw))"

definition not_found :: "Response \<Rightarrow> Response" where
  "not_found rw = respond 404 (Bytes ''404 page not found\<newline>'')
     (setHeader ''X-Content-Type-Options'' ''nosniff''
       (setHeader ''Content-Type'' ''text/plain; charset=utf-8'' rw))"

definition mux :: "'s Store \<Rightarrow> blake2b \<Rightarrow> ('e, 'p) edwards \<Rightarrow> upgrade \<Rightarrow> wait \<Rightarrow>
    Request \<Rightarrow> Response \<Rightarrow> 's server \<Rightarrow> Response \<times> 's server" where
  "mux S B E up wt r rw s =
     (let p = rq_Path r in
      if rq_Method r \<noteq> ''CONNECT'' \<and> cleanPath p \<noteq> p then
        (redirect r (cleanPath p) rw, s)
      else if p = ''/agent'' then agent_endpoint S B E up r rw s
      else if p = ''/v1/requests'' then handleCreateRequest S B wt r rw s
      else if p = ''/v1/requests/status'' then handleRequestStatus S wt r rw s
      else if p = ''/v1/broadcast'' then handleBroadcast S wt r rw s
      else if p = ''/v1/status'' then handleStatus S r rw s
      else if p = ''/v1/settings'' then handleSettings S wt r rw s
      else if p = ''/v1/balance'' then handleBalance S wt r rw s
      else if p = ''/v1/activity'' then handleActivity S wt r rw s
      else if p = ''/healthz'' then (handleHealthz rw, s)
      else (not_found rw, s))"

definition corsMiddleware :: "'s Store \<Rightarrow>
    (Request \<Rightarrow> Response \<Rightarrow> 's server \<Rightarrow> Response \<times> 's server) \<Rightarrow>
    Request \<Rightarrow> Response \<Rightarrow> 's server \<Rightarrow> Response \<times> 's server" where
  "corsMiddleware S next r rw s =
     (let origin = rq_Header r ''Origin'' in
      if origin = [] \<or> \<not> HasPrefix (rq_Path r) ''/v1/'' then next r rw s
      else
        let ((allowed, err), st) = OriginAllowed S (sv_store s) origin;
            s = s\<lparr>sv_store := st\<rparr>
        in if rq_Method r = ''OPTIONS'' then
             (if allowed then
                (respond 204 NoBody
                  (setHeader ''Access-Control-Max-Age'' ''86400''
                    (setHeader ''Access-Control-Allow-Headers'' ''Authorization, Content-Type''
                      (setHeader ''Access-Control-Allow-Methods'' ''GET, POST, OPTIONS''
                        (setHeader ''Access-Control-Allow-Origin'' origin rw)))), s)
              else (respond 403 NoBody rw, s))
           else
             let rw = (if allowed then
                         setHeader ''Access-Control-Allow-Headers'' ''Authorization, Content-Type''
                           (setHeader ''Access-Control-Allow-Origin'' origin rw)
                       else rw)
             in next r rw s)"

definition routes :: "'s Store \<Rightarrow> blake2b \<Rightarrow> ('e, 'p) edwards \<Rightarrow> upgrade \<Rightarrow> wait \<Rightarrow>
    Request \<Rightarrow> 's server \<Rightarrow> Response \<times> 's server" where
  "routes S B E up wt r s = corsMiddleware S (mux S B E up wt) r newResponse s"

end
