(* ===== verification/Server_Props.thy ===== *)
theory Server_Props
  imports Http Hub_Props Store_Props
begin

text \<open>
  The guarantees of enrolment and of the control messages: a device is bound to exactly the accounts
  whose keys signed this connection's challenge, and a control message changes only what belongs to
  those accounts. What holds of every store is proved inside \<open>store_contract\<close>; the properties are its
  facts at the two interpretations.
\<close>

section \<open>Enrolment\<close>

definition proves :: "blake2b \<Rightarrow> ('e, 'p) edwards \<Rightarrow> byte list \<Rightarrow> (string \<times> string) list \<Rightarrow> string \<Rightarrow> bool" where
  "proves B E nonce sigs addr \<longleftrightarrow>
     (\<exists>sigHex pub sig. map_of sigs addr = Some sigHex \<and> ParseAddress B addr = Inr pub
        \<and> DecodeString sigHex = Some sig \<and> length sig = 64
        \<and> VerifyChallenge B E pub nonce sig = Inr True)"

definition challenge_frame :: "byte list \<Rightarrow> Envelope" where
  "challenge_frame nonce = (envelope TypeChallenge)\<lparr>e_Challenge := Some \<lparr>ch_Nonce = nonce\<rparr>\<rparr>"

lemma verifyAccountSig_eq:
  assumes "blake2b_ok B"
  shows "verifyAccountSig B E addr nonce sigHex = Inr (\<exists>pub sig. ParseAddress B addr = Inr pub
    \<and> DecodeString sigHex = Some sig \<and> length sig = 64 \<and> VerifyChallenge B E pub nonce sig = Inr True)"
proof (cases "ParseAddress B addr")
  case (Inl e)
  then show ?thesis
    using ParseAddress_no_panic [OF assms, of addr] by (cases e) (simp_all add: verifyAccountSig_def)
next
  case pub: (Inr pub)
  show ?thesis
  proof (cases "DecodeString sigHex")
    case (Some sig)
    show ?thesis
    proof (cases "length sig = 64")
      case True
      obtain okay where "VerifyChallenge B E pub nonce sig = Inr okay"
        using VerifyChallenge_total [OF assms] by blast
      then show ?thesis using pub Some True by (simp add: verifyAccountSig_def)
    qed (simp add: verifyAccountSig_def pub Some)
  qed (simp add: verifyAccountSig_def pub)
qed

lemma prove_loop_eq:
  assumes "blake2b_ok B"
  shows "prove_loop B E nonce sigs addrs acc = Inr (acc @ filter (proves B E nonce sigs) addrs)"
  by (induction addrs arbitrary: acc)
     (auto simp: verifyAccountSig_eq [OF assms] proves_def split: option.split)

lemma enroll_eq:
  assumes "blake2b_ok B" "shd (wd_writes w)"
    and "e_Type hello = TypeHello" "e_Hello hello = Some h" "h_Accounts h \<noteq> []"
    and "e_Type auth = TypeAuth" "e_Auth auth = Some au"
  shows "enroll B E werr ws (Some hello # Some auth # rest) w =
    (let nonce = stake 32 (wd_entropy w); accs = filter (proves B E nonce (au_Signatures au)) (h_Accounts h);
         w' = w\<lparr>wd_entropy := sdrop 32 (wd_entropy w), wd_writes := stl (wd_writes w),
                wd_sent := wd_sent w @ [(ws, challenge_frame nonce)]\<rparr>
     in ((if accs = [] then Inl (errString ''no account proved control'')
          else Inr \<lparr>ac_deviceID = h_DeviceID h, ac_accounts = accs, ac_ws = ws\<rparr>), rest, w'))"
proof -
  have d: "randomBytes 32 w = (stake 32 (wd_entropy w), w\<lparr>wd_entropy := sdrop 32 (wd_entropy w)\<rparr>)"
    by (simp add: randomBytes_def rand_Read_def)
  show ?thesis
    unfolding enroll_def by (simp add: assms d ws_WriteJSON_def prove_loop_eq challenge_frame_def Let_def)
qed

lemma enroll_accepted:
  assumes "blake2b_ok B" and "enroll B E werr ws msgs w = (Inr a, rest, w')"
  shows "\<exists>hello h auth au nonce. msgs = Some hello # Some auth # rest
    \<and> e_Hello hello = Some h \<and> e_Auth auth = Some au \<and> nonce = stake 32 (wd_entropy w)
    \<and> wd_entropy w' = sdrop 32 (wd_entropy w) \<and> wd_sent w' = wd_sent w @ [(ws, challenge_frame nonce)]
    \<and> ac_accounts a = filter (proves B E nonce (au_Signatures au)) (h_Accounts h)
    \<and> ac_accounts a \<noteq> [] \<and> ac_ws a = ws \<and> ac_deviceID a = h_DeviceID h"
proof -
  obtain hello auth h au msgs2 where m: "msgs = Some hello # Some auth # msgs2" "e_Type hello = TypeHello"
    "e_Hello hello = Some h" "h_Accounts h \<noteq> []" "shd (wd_writes w)" "e_Type auth = TypeAuth"
    "e_Auth auth = Some au"
    using assms(2)
    by (auto simp: enroll_def Let_def ws_WriteJSON_def randomBytes_def rand_Read_def
        split: list.splits option.splits if_splits)
  note eq = enroll_eq [OF assms(1) m(5,2,3,4,6,7), of E werr ws msgs2]
  then show ?thesis using assms(2) unfolding m(1) eq
    by (auto simp: Let_def m(3,7) split: if_splits)
qed

text \<open>What an honest device announces and answers, for the private keys it holds.\<close>

definition key_address :: "blake2b \<Rightarrow> ('e, 'p) edwards \<Rightarrow> PrivateKey \<Rightarrow> string" where
  "key_address B E pk = (case PrivateKey_Address B E pk of Inl _ \<Rightarrow> [] | Inr a \<Rightarrow> a)"

definition key_signature :: "blake2b \<Rightarrow> ('e, 'p) edwards \<Rightarrow> byte list \<Rightarrow> PrivateKey \<Rightarrow> string" where
  "key_signature B E nonce pk =
     (case SignChallenge B E pk nonce of Inl _ \<Rightarrow> [] | Inr sig \<Rightarrow> EncodeToString sig)"

definition honest_hello :: "blake2b \<Rightarrow> ('e, 'p) edwards \<Rightarrow> string \<Rightarrow> PrivateKey list \<Rightarrow> Envelope" where
  "honest_hello B E dev keys = (envelope TypeHello)
     \<lparr>e_Hello := Some \<lparr>h_DeviceID = dev, h_Accounts = map (key_address B E) keys\<rparr>\<rparr>"

definition honest_auth :: "blake2b \<Rightarrow> ('e, 'p) edwards \<Rightarrow> byte list \<Rightarrow> PrivateKey list \<Rightarrow> Envelope" where
  "honest_auth B E nonce keys = (envelope TypeAuth)\<lparr>e_Auth := Some
     \<lparr>au_Signatures = map (\<lambda>pk. (key_address B E pk, key_signature B E nonce pk)) keys\<rparr>\<rparr>"

lemma honest_proves:
  assumes "blake2b_ok B" "ed_ok E" "pk \<in> set keys"
  shows "proves B E nonce (map (\<lambda>pk. (key_address B E pk, key_signature B E nonce pk)) keys)
    (key_address B E pk)"
proof -
  let ?sigs = "map (\<lambda>pk. (key_address B E pk, key_signature B E nonce pk)) keys"
  have key: "\<exists>pub sig. ParseAddress B (key_address B E k) = Inr pub
      \<and> key_signature B E nonce k = EncodeToString sig \<and> length sig = 64
      \<and> VerifyChallenge B E pub nonce sig = Inr True" for k
  proof -
    obtain pub sig where k: "Public B E k = Inr pub" "length pub = 32" "SignChallenge B E k nonce = Inr sig"
      "length sig = 64" "VerifyChallenge B E pub nonce sig = Inr True"
      using challenge_ok [OF assms(1,2)] by blast
    moreover obtain a where "Address B pub = Inr a" "ParseAddress B a = Inr pub"
      using parse_of_address [OF assms(1) k(2)] by blast
    ultimately show ?thesis
      by (simp add: key_address_def key_signature_def PrivateKey_Address_def)
  qed
  have "key_address B E pk \<in> fst ` set ?sigs" using assms(3) by force
  then obtain sigHex where m: "map_of ?sigs (key_address B E pk) = Some sigHex"
    by (cases "map_of ?sigs (key_address B E pk)") (auto simp: map_of_eq_None_iff)
  then have "(key_address B E pk, sigHex) \<in> set ?sigs" by (rule map_of_SomeD)
  then obtain k where "key_address B E pk = key_address B E k" "sigHex = key_signature B E nonce k"
    by auto
  then show ?thesis using key [of k] m unfolding proves_def by (metis Decode_Encode)
qed

lemma enroll_accepts:
  assumes "blake2b_ok B" "ed_ok E" "keys \<noteq> []" "shd (wd_writes w)"
  shows "fst (enroll B E werr ws
      (Some (honest_hello B E dev keys) # Some (honest_auth B E (stake 32 (wd_entropy w)) keys) # rest) w)
    = Inr \<lparr>ac_deviceID = dev, ac_accounts = map (key_address B E) keys, ac_ws = ws\<rparr>"
proof -
  let ?n = "stake 32 (wd_entropy w)"
  let ?sigs = "map (\<lambda>pk. (key_address B E pk, key_signature B E ?n pk)) keys"
  have "filter (proves B E ?n ?sigs) (map (key_address B E) keys) = map (key_address B E) keys"
    using honest_proves [OF assms(1,2)] by (auto simp: filter_id_conv)
  then show ?thesis
    using assms(3) by (subst enroll_eq [OF assms(1,4)]) (auto simp: honest_hello_def honest_auth_def Let_def)
qed

definition sample_keys :: "PrivateKey list" where
  "sample_keys = [replicate 32 7, replicate 32 9]"

definition sample_msgs :: inbound where
  "sample_msgs = [Some (honest_hello pad_hash toy ''d'' sample_keys),
     Some (honest_auth pad_hash toy (stake 32 (wd_entropy world1)) sample_keys)]"

lemma sample_enroll:
  "fst (enroll pad_hash toy [] 4 sample_msgs world1)
     = Inr \<lparr>ac_deviceID = ''d'', ac_accounts = map (key_address pad_hash toy) sample_keys, ac_ws = 4\<rparr>"
  unfolding sample_msgs_def
  by (rule enroll_accepts [OF pad_hash_ok toy_ok]) (simp_all add: sample_keys_def world1_def)

text \<open>
  C7. Enrolment is sound. Whatever a connection sends, if it is accepted then it announced a
  nonempty list of accounts, was challenged with 32 bytes freshly drawn for it, and is bound to
  exactly those announced accounts, in that order, for which its answer holds a valid signature of
  this challenge under the account's own key; at least one is. A signature made for another
  challenge or another account proves nothing.
\<close>

theorem enroll_sound:
  assumes "blake2b_ok B" and "enroll B E werr ws msgs w = (Inr a, rest, w')"
  shows "\<exists>hello h auth au nonce. msgs = Some hello # Some auth # rest
    \<and> e_Hello hello = Some h \<and> e_Auth auth = Some au \<and> nonce = stake 32 (wd_entropy w)
    \<and> wd_entropy w' = sdrop 32 (wd_entropy w) \<and> wd_sent w' = wd_sent w @ [(ws, challenge_frame nonce)]
    \<and> ac_accounts a = filter (proves B E nonce (au_Signatures au)) (h_Accounts h)
    \<and> ac_accounts a \<noteq> [] \<and> ac_ws a = ws \<and> ac_deviceID a = h_DeviceID h"
  using assms by (rule enroll_accepted)

theorem enroll_sound_witness:
  "wd_sent (snd (snd (enroll pad_hash toy [] 4 sample_msgs world1)))
     = [(4, challenge_frame (replicate 32 0))]"
proof -
  obtain q rest w' where run: "enroll pad_hash toy [] 4 sample_msgs world1 = (q, rest, w')"
    using prod_cases3 by blast
  then have q: "q = Inr \<lparr>ac_deviceID = ''d'', ac_accounts = map (key_address pad_hash toy) sample_keys, ac_ws = 4\<rparr>"
    using sample_enroll by simp
  then obtain nonce where "nonce = stake 32 (wd_entropy world1)"
    "wd_sent w' = wd_sent world1 @ [(4, challenge_frame nonce)]"
    using enroll_sound [OF pad_hash_ok run [unfolded q]] by blast
  then have "wd_sent w' = [(4, challenge_frame (replicate 32 0))]"
    by (simp add: world1_def map_replicate_const)
  then show ?thesis by (simp add: run)
qed

text \<open>
  C26. Enrolment is complete. A device that announces the addresses of private keys it holds and signs
  the relay's challenge with each of them is accepted with all of them, in the order announced, if
  the challenge reaches it; it never panics the relay.
\<close>

theorem enroll_honest:
  assumes "blake2b_ok B" "ed_ok E" "keys \<noteq> []" "shd (wd_writes w)"
  shows "fst (enroll B E werr ws
      (Some (honest_hello B E dev keys) # Some (honest_auth B E (stake 32 (wd_entropy w)) keys) # rest) w)
    = Inr \<lparr>ac_deviceID = dev, ac_accounts = map (key_address B E) keys, ac_ws = ws\<rparr>"
  using assms by (rule enroll_accepts)

theorem enroll_honest_witness:
  "fst (enroll pad_hash toy [] 4 (Some (honest_hello pad_hash toy ''d'' sample_keys)
      # Some (honest_auth pad_hash toy (stake 32 (wd_entropy world1)) sample_keys) # []) world1)
   = Inr \<lparr>ac_deviceID = ''d'', ac_accounts = map (key_address pad_hash toy) sample_keys, ac_ws = 4\<rparr>"
  by (rule enroll_honest [OF pad_hash_ok toy_ok]) (simp_all add: sample_keys_def world1_def)

section \<open>Control messages\<close>

text \<open>
  \<open>confined v v' accs c\<close>: what a message \<open>c\<close> of a device that proved the accounts \<open>accs\<close> may do to the
  store's content. Only the key the message names can change, it belongs to one of the device's
  accounts afterwards, and it did so before as well unless the message registers it for one of them; a
  secret changes hands only to or from that key; policies change only for the message's account, if the
  device proved it, and a version never goes down.
\<close>

definition may_touch :: "abs_store \<Rightarrow> string list \<Rightarrow> Control \<Rightarrow> bool" where
  "may_touch v accs c \<longleftrightarrow>
     (if c_Op c = ''register_key'' then c_Account c \<in> set accs else \<exists>acc\<in>set accs. owned v (c_KeyID c) acc)"

definition confined :: "abs_store \<Rightarrow> abs_store \<Rightarrow> string list \<Rightarrow> Control \<Rightarrow> bool" where
  "confined v v' accs c \<longleftrightarrow>
     (\<forall>kid. a_keys v' kid \<noteq> a_keys v kid \<longrightarrow> kid = c_KeyID c
        \<and> (\<forall>k. a_keys v' kid = Some k \<longrightarrow> k_OwnerAccount k \<in> set accs)
        \<and> may_touch v accs c)
     \<and> (\<forall>h. a_hash v' h \<noteq> a_hash v h \<longrightarrow>
          (a_hash v h = Some (c_KeyID c) \<and> a_hash v' h = None \<and> may_touch v accs c)
          \<or> (c_Op c = ''register_key'' \<and> c_Account c \<in> set accs \<and> h = c_Hash c \<and> a_hash v' h = Some (c_KeyID c)))
     \<and> (\<forall>acc. a_policy v' acc \<noteq> a_policy v acc \<longrightarrow> c_Op c = ''put_policy'' \<and> acc = c_Account c \<and> acc \<in> set accs
          \<and> a_policy v' acc = Some (c_Version c, c_Blob c)
          \<and> (\<forall>ver b. a_policy v acc = Some (ver, b) \<longrightarrow> ver < c_Version c))"

lemma contains_set: "contains xs v \<longleftrightarrow> v \<in> set xs"
  by (induction xs) auto

lemma confined_refl: "confined v v accs c"
  by (simp add: confined_def)

lemma confined_rebind:
  "c_Op c = ''rebind_key'' \<Longrightarrow> owned v (c_KeyID c) old \<Longrightarrow> old \<in> set accs \<Longrightarrow> c_Account c \<in> set accs \<Longrightarrow>
     confined v (abs_rebind v (c_KeyID c) (c_Account c)) accs c"
  by (auto simp: confined_def may_touch_def abs_rebind_def)

lemma confined_revoke:
  "c_Op c = ''revoke_key'' \<Longrightarrow> owned v (c_KeyID c) acc \<Longrightarrow> acc \<in> set accs \<Longrightarrow> confined v (abs_revoke v (c_KeyID c)) accs c"
  by (auto simp: confined_def may_touch_def abs_revoke_def)

lemma confined_origins:
  "c_Op c = ''update_origins'' \<Longrightarrow> owned v (c_KeyID c) acc \<Longrightarrow> acc \<in> set accs \<Longrightarrow>
     confined v (abs_origins v (c_KeyID c) os) accs c"
  by (auto simp: confined_def may_touch_def abs_origins_def owned_def)

lemma confined_register:
  "c_Op c = ''register_key'' \<Longrightarrow> c_Account c \<in> set accs \<Longrightarrow>
     confined v (abs_register v (c_KeyID c) (c_Account c) (c_Hash c)) accs c
     \<and> confined v (abs_origins (abs_register v (c_KeyID c) (c_Account c) (c_Hash c)) (c_KeyID c) os) accs c"
  by (auto simp: confined_def may_touch_def abs_register_def abs_origins_def)

lemma confined_put:
  "c_Op c = ''put_policy'' \<Longrightarrow> c_Account c \<in> set accs \<Longrightarrow>
     confined v (abs_put_policy v (c_Account c) (c_Version c) (c_Blob c)) accs c"
  by (auto simp: confined_def abs_put_policy_def split: option.splits if_splits)

text \<open>
  The effect of many messages: \<open>limited_to v v' accs cs\<close> says what the control messages \<open>cs\<close> of a
  device that proved \<open>accs\<close> can have made of the content \<open>v\<close>. A key that is new, changed or gone belonged to
  one of the accounts or was registered for one of them by a message, and if it exists it belongs to one
  of them. A secret that opens a key now and did not before was registered for that key by a message; the key that a
  changed secret opened before belonged to one of the accounts or was registered, or else the secret itself was
  registered. A policy changed only for one of the accounts, to the version and blob of a message
  that puts it, and never to an older version.
\<close>

definition registers :: "string list \<Rightarrow> Control list \<Rightarrow> string \<Rightarrow> string \<Rightarrow> bool" where
  "registers accs cs kid h \<longleftrightarrow>
     (\<exists>c\<in>set cs. c_Op c = ''register_key'' \<and> c_Account c \<in> set accs \<and> c_KeyID c = kid \<and> c_Hash c = h)"

definition reaches :: "abs_store \<Rightarrow> string list \<Rightarrow> Control list \<Rightarrow> string \<Rightarrow> bool" where
  "reaches v accs cs kid \<longleftrightarrow> (\<exists>acc\<in>set accs. owned v kid acc) \<or> (\<exists>h. registers accs cs kid h)"

definition limited_to :: "abs_store \<Rightarrow> abs_store \<Rightarrow> string list \<Rightarrow> Control list \<Rightarrow> bool" where
  "limited_to v v' accs cs \<longleftrightarrow>
     (\<forall>kid. a_keys v' kid \<noteq> a_keys v kid \<longrightarrow> reaches v accs cs kid
        \<and> (\<forall>k. a_keys v' kid = Some k \<longrightarrow> k_OwnerAccount k \<in> set accs))
     \<and> (\<forall>h. a_hash v' h \<noteq> a_hash v h \<longrightarrow>
          (\<forall>kid. a_hash v h = Some kid \<longrightarrow> reaches v accs cs kid \<or> (\<exists>kid'. registers accs cs kid' h))
          \<and> (\<forall>kid. a_hash v' h = Some kid \<longrightarrow> registers accs cs kid h))
     \<and> (\<forall>acc. a_policy v' acc \<noteq> a_policy v acc \<longrightarrow> acc \<in> set accs
          \<and> (\<exists>c\<in>set cs. c_Op c = ''put_policy'' \<and> c_Account c = acc \<and> a_policy v' acc = Some (c_Version c, c_Blob c)))
     \<and> (\<forall>acc ver b. a_policy v acc = Some (ver, b) \<longrightarrow>
          (\<exists>ver' b'. a_policy v' acc = Some (ver', b') \<and> ver \<le> ver'))"

lemma limited_refl: "limited_to v v accs cs"
  by (simp add: limited_to_def)

lemma registers_mono: "registers accs cs kid h \<Longrightarrow> set cs \<subseteq> set ds \<Longrightarrow> registers accs ds kid h"
  by (auto simp: registers_def)

lemma limited_mono:
  assumes "limited_to v v' accs cs" "set cs \<subseteq> set ds"
  shows "limited_to v v' accs ds"
proof -
  have "reaches v accs ds kid" if "reaches v accs cs kid" for kid
    using that registers_mono [OF _ assms(2)] unfolding reaches_def by blast
  then show ?thesis using assms registers_mono [OF _ assms(2)] unfolding limited_to_def
    by (meson subsetD)
qed

text \<open>A key that can be reached after some of the messages could be reached before.\<close>

lemma reaches_back:
  assumes "limited_to v v1 accs cs" "reaches v1 accs cs kid"
  shows "reaches v accs cs kid"
proof (cases "a_keys v1 kid = a_keys v kid")
  case True
  then have "owned v1 kid acc = owned v kid acc" for acc by (simp add: owned_def)
  then show ?thesis using assms(2) by (simp add: reaches_def)
qed (use assms(1) in \<open>simp add: limited_to_def\<close>)

lemma limited_trans:
  assumes l: "limited_to v v1 accs cs" "limited_to v1 v2 accs cs"
  shows "limited_to v v2 accs cs"
proof -
  have keys: "reaches v accs cs kid \<and> (\<forall>k. a_keys v2 kid = Some k \<longrightarrow> k_OwnerAccount k \<in> set accs)"
    if "a_keys v2 kid \<noteq> a_keys v kid" for kid
  proof (cases "a_keys v2 kid = a_keys v1 kid")
    case True
    then show ?thesis using l(1) that unfolding limited_to_def by simp
  next
    case False
    then show ?thesis using l(2) reaches_back [OF l(1)] unfolding limited_to_def by blast
  qed
  have old: "reaches v accs cs kid \<or> (\<exists>kid'. registers accs cs kid' h)"
    if "a_hash v2 h \<noteq> a_hash v h" "a_hash v h = Some kid" for h kid
  proof (cases "a_hash v1 h = a_hash v h")
    case True
    then show ?thesis using that l(2) reaches_back [OF l(1)] unfolding limited_to_def by metis
  next
    case False
    then show ?thesis using that l(1) unfolding limited_to_def by blast
  qed
  have new: "registers accs cs kid h" if "a_hash v2 h \<noteq> a_hash v h" "a_hash v2 h = Some kid" for h kid
    using that l unfolding limited_to_def by (cases "a_hash v2 h = a_hash v1 h") metis+
  have pol: "acc \<in> set accs \<and> (\<exists>c\<in>set cs. c_Op c = ''put_policy'' \<and> c_Account c = acc
      \<and> a_policy v2 acc = Some (c_Version c, c_Blob c))" if "a_policy v2 acc \<noteq> a_policy v acc" for acc
  proof (cases "a_policy v2 acc = a_policy v1 acc")
    case True
    then show ?thesis using that l(1) unfolding limited_to_def by simp
  next
    case False
    then show ?thesis using l(2) unfolding limited_to_def by blast
  qed
  have "\<exists>ver' b'. a_policy v2 acc = Some (ver', b') \<and> ver \<le> ver'"
    if "a_policy v acc = Some (ver, b)" for acc ver b
    using l that unfolding limited_to_def by (meson order_trans)
  then show ?thesis using keys old new pol unfolding limited_to_def by blast
qed

lemma confined_limited:
  assumes "confined v v' accs c"
  shows "limited_to v v' accs [c]"
proof -
  have reg: "registers accs [c] kid h \<longleftrightarrow> c_Op c = ''register_key'' \<and> c_Account c \<in> set accs \<and> c_KeyID c = kid \<and> c_Hash c = h"
    for kid h by (simp add: registers_def)
  have own: "reaches v accs [c] (c_KeyID c)" if "may_touch v accs c"
    using that by (auto simp: may_touch_def reaches_def reg split: if_splits)
  have keys: "reaches v accs [c] kid \<and> (\<forall>k. a_keys v' kid = Some k \<longrightarrow> k_OwnerAccount k \<in> set accs)"
    if "a_keys v' kid \<noteq> a_keys v kid" for kid
  proof -
    have "kid = c_KeyID c" "\<forall>k. a_keys v' kid = Some k \<longrightarrow> k_OwnerAccount k \<in> set accs" "may_touch v accs c"
      using assms that unfolding confined_def by blast+
    then show ?thesis using own by simp
  qed
  have hash: "(\<forall>kid. a_hash v h = Some kid \<longrightarrow> reaches v accs [c] kid \<or> (\<exists>kid'. registers accs [c] kid' h))
      \<and> (\<forall>kid. a_hash v' h = Some kid \<longrightarrow> registers accs [c] kid h)"
    if ne: "a_hash v' h \<noteq> a_hash v h" for h
  proof -
    consider (out) "a_hash v h = Some (c_KeyID c)" "a_hash v' h = None" "may_touch v accs c"
      | (new) "c_Op c = ''register_key''" "c_Account c \<in> set accs" "h = c_Hash c" "a_hash v' h = Some (c_KeyID c)"
      using assms [unfolded confined_def, THEN conjunct2, THEN conjunct1, rule_format, OF ne]
      by (elim disjE conjE) (rule out new; assumption)+
    then show ?thesis
    proof cases
      case out
      then show ?thesis using own by simp
    next
      case new
      then show ?thesis by (simp add: reg)
    qed
  qed
  have pol: "c_Op c = ''put_policy'' \<and> acc = c_Account c \<and> acc \<in> set accs \<and> a_policy v' acc = Some (c_Version c, c_Blob c)
      \<and> (\<forall>ver b. a_policy v acc = Some (ver, b) \<longrightarrow> ver < c_Version c)"
    if "a_policy v' acc \<noteq> a_policy v acc" for acc using assms that unfolding confined_def by blast
  have "\<exists>ver' b'. a_policy v' acc = Some (ver', b') \<and> ver \<le> ver'"
    if p: "a_policy v acc = Some (ver, b)" for acc ver b
  proof (cases "a_policy v' acc = a_policy v acc")
    case False
    have "a_policy v' acc = Some (c_Version c, c_Blob c)" "ver < c_Version c" using pol [OF False] p by blast+
    then show ?thesis by simp
  qed (simp add: p)
  then have up: "\<forall>acc ver b. a_policy v acc = Some (ver, b) \<longrightarrow> (\<exists>ver' b'. a_policy v' acc = Some (ver', b') \<and> ver \<le> ver')"
    by blast
  have "acc \<in> set accs \<and> (\<exists>x\<in>set [c]. c_Op x = ''put_policy'' \<and> c_Account x = acc
      \<and> a_policy v' acc = Some (c_Version x, c_Blob x))" if "a_policy v' acc \<noteq> a_policy v acc" for acc
    using pol [OF that] by (elim conjE) simp
  then show ?thesis unfolding limited_to_def using keys hash up by (intro conjI allI impI) blast+
qed

text \<open>JSON decoding yields only well-formed UTF-8; a message satisfies \<open>origins_ok\<close> for that reason.\<close>

definition origins_ok :: "(string \<Rightarrow> bool) \<Rightarrow> Envelope option \<Rightarrow> bool" where
  "origins_ok P m \<longleftrightarrow>
     (case m of None \<Rightarrow> True
      | Some env \<Rightarrow> (case e_Control env of None \<Rightarrow> True | Some c \<Rightarrow> list_all P (c_AllowedOrigins c)))"

text \<open>The control messages among what a connection sends.\<close>

fun controls :: "inbound \<Rightarrow> Control list" where
  "controls [] = []"
| "controls (None # msgs) = controls msgs"
| "controls (Some env # msgs) = (case e_Control env of None \<Rightarrow> [] | Some c \<Rightarrow> [c]) @ controls msgs"

definition frames_to :: "nat \<Rightarrow> World \<Rightarrow> World \<Rightarrow> bool" where
  "frames_to ws w w' \<longleftrightarrow> (\<exists>fs. wd_sent w' = wd_sent w @ fs \<and> fst ` set fs \<subseteq> {ws})"

lemma frames_to_trans: "frames_to ws w w1 \<Longrightarrow> frames_to ws w1 w2 \<Longrightarrow> frames_to ws w w2"
  unfolding frames_to_def by (metis append.assoc set_append image_Un Un_least)

lemma frames_to_refl: "frames_to ws w w"
  by (simp add: frames_to_def)

lemma frames_to_write: "ws_WriteJSON ws v w = (okay, w') \<Longrightarrow> frames_to ws w w'"
  by (auto simp: ws_WriteJSON_def frames_to_def Let_def split: if_splits)

lemma enroll_frames:
  assumes "enroll B E werr ws msgs w = (q, rest, w')"
  shows "frames_to ws w w'"
proof -
  have "frames_to ws w (snd (ws_WriteJSON ws v (w\<lparr>wd_entropy := x\<rparr>)))" for v x
    by (auto simp: ws_WriteJSON_def frames_to_def Let_def)
  moreover have "w' = w \<or> (\<exists>v x. w' = snd (ws_WriteJSON ws v (w\<lparr>wd_entropy := x\<rparr>)))"
    using assms by (auto simp: enroll_def randomBytes_def rand_Read_def Let_def
        split: list.splits option.splits if_splits sum.splits prod.splits) (metis snd_conv)+
  ultimately show ?thesis using frames_to_refl by metis
qed

text \<open>
  The specification of the control messages over the abstract content: what is answered and what the
  store holds afterwards when no store call fails for outside reasons. \<open>nil_err\<close> and \<open>dup_err\<close> are the store's
  answers to a policy without a blob and to a hash that belongs to another key.
\<close>

definition abs_control :: "go_error option \<Rightarrow> go_error option \<Rightarrow> string list \<Rightarrow> Control \<Rightarrow> abs_store \<Rightarrow> Control \<times> abs_store" where
  "abs_control nil_err dup_err accs c v =
     (let reply = control_reply c;
          fail = (\<lambda>msg. (reply\<lparr>c_Error := msg\<rparr>, v));
          mine = c_Account c \<in> set accs;
          held = (\<exists>acc\<in>set accs. owned v (c_KeyID c) acc)
      in if c_Op c = ''register_key'' then
           if \<not> mine then fail not_controlled
           else if c_KeyID c = [] \<or> c_Hash c = [] then fail ''register_key requires key_id and hash''
           else if taken v (c_KeyID c) (c_Hash c) \<and> dup_err \<noteq> None then fail (error_text (the dup_err))
           else (reply\<lparr>c_KeyID := c_KeyID c, c_Account := c_Account c\<rparr>,
             let v1 = abs_register v (c_KeyID c) (c_Account c) (c_Hash c)
             in if c_AllowedOrigins c = [] then v1 else abs_origins v1 (c_KeyID c) (c_AllowedOrigins c))
         else if c_Op c = ''rebind_key'' then
           if \<not> mine then fail not_controlled
           else if c_KeyID c = [] then fail ''rebind_key requires key_id''
           else if \<not> held then fail ''key not found''
           else (reply\<lparr>c_KeyID := c_KeyID c, c_Account := c_Account c\<rparr>,
             abs_rebind v (c_KeyID c) (c_Account c))
         else if c_Op c = ''revoke_key'' then
           if \<not> held then fail ''key not found'' else (reply, abs_revoke v (c_KeyID c))
         else if c_Op c = ''update_origins'' then
           if \<not> mine then fail not_controlled
           else if c_KeyID c = [] then fail ''update_origins requires key_id''
           else if \<not> owned v (c_KeyID c) (c_Account c) then fail (error_text ErrNotFound)
           else (reply\<lparr>c_KeyID := c_KeyID c\<rparr>, abs_origins v (c_KeyID c) (c_AllowedOrigins c))
         else if c_Op c = ''put_policy'' then
           if \<not> mine then fail not_controlled
           else if c_Blob c = None \<and> nil_err \<noteq> None then fail (error_text (the nil_err))
           else (reply, abs_put_policy v (c_Account c) (c_Version c) (c_Blob c))
         else if c_Op c = ''get_policy'' then
           if \<not> mine then fail not_controlled
           else ((case a_policy v (c_Account c) of
                    None \<Rightarrow> reply | Some (ver, b) \<Rightarrow> reply\<lparr>c_Version := ver, c_Blob := b\<rparr>)
                 \<lparr>c_Account := c_Account c\<rparr>, v)
         else fail ''unknown control op'')"

context store_contract
begin

lemma rebind_loop_inv:
  "inv s \<Longrightarrow> rebind_loop S kid new accs s = (done, s') \<Longrightarrow>
     inv s' \<and> (up s \<longrightarrow> up s') \<and>
     (if done then \<exists>old\<in>set accs. owned (view s) kid old \<and> view s' = abs_rebind (view s) kid new
      else view s' = view s)"
proof (induction accs arbitrary: s)
  case (Cons acc accs)
  obtain r s1 where r: "RebindAPIKey S s kid acc new = (r, s1)" by fastforce
  note c = rebind [OF Cons.prems(1) r]
  show ?case
  proof (cases r)
    case None
    then show ?thesis using Cons.prems(2) r c by auto
  next
    case (Some e)
    then have s1: "inv s1" "view s1 = view s" "up s \<longrightarrow> up s1" using c by auto
    have "rebind_loop S kid new accs s1 = (done, s')" using Cons.prems(2) r Some by simp
    from Cons.IH [OF s1(1) this] s1 show ?thesis by (auto split: if_splits)
  qed
qed simp

lemma revoke_loop_inv:
  "inv s \<Longrightarrow> revoke_loop S kid accs s = (done, s') \<Longrightarrow>
     inv s' \<and> (up s \<longrightarrow> up s') \<and>
     (if done then \<exists>acc\<in>set accs. owned (view s) kid acc \<and> view s' = abs_revoke (view s) kid
      else view s' = view s)"
proof (induction accs arbitrary: s)
  case (Cons acc accs)
  obtain r s1 where r: "RevokeAPIKey S s acc kid = (r, s1)" by fastforce
  note c = revoke [OF Cons.prems(1) r]
  show ?case
  proof (cases r)
    case None
    then show ?thesis using Cons.prems(2) r c by auto
  next
    case (Some e)
    then have s1: "inv s1" "view s1 = view s" "up s \<longrightarrow> up s1" using c by auto
    have "revoke_loop S kid accs s1 = (done, s')" using Cons.prems(2) r Some by simp
    from Cons.IH [OF s1(1) this] s1 show ?thesis by (auto split: if_splits)
  qed
qed simp

abbreviation confined_step :: "string list \<Rightarrow> Control \<Rightarrow> 's \<Rightarrow> 's \<Rightarrow> bool" where
  "confined_step accs c s s' \<equiv> inv s' \<and> (up s \<longrightarrow> up s') \<and> confined (view s) (view s') accs c"

lemma ctl_register_key_confined:
  assumes s: "inv s" and os: "list_all text_ok (c_AllowedOrigins c)"
    and op: "c_Op c = ''register_key''" and run: "ctl_register_key S a c s = (reply, s')"
  shows "confined_step (ac_accounts a) c s s'"
proof (cases "s' = s")
  case False
  then have acc: "c_Account c \<in> set (ac_accounts a)"
    using run by (auto simp: ctl_register_key_def contains_set Let_def split: if_splits)
  obtain r s1 where r: "RegisterAPIKey S s (c_KeyID c) (c_Account c) (c_Hash c) = (r, s1)" by fastforce
  obtain r2 s2 where r2: "UpdateKeyOrigins S s1 (c_KeyID c) (c_Account c) (c_AllowedOrigins c) = (r2, s2)"
    by fastforce
  note c1 = register [OF s r]
  then have "inv s1" by blast
  note c2 = origins [OF this os r2]
  note conf = confined_register [OF op acc] confined_refl [of "view s" "ac_accounts a" c]
  have "s' = s1 \<or> r = None \<and> s' = s2"
    using run r r2 False by (auto simp: ctl_register_key_def Let_def split: if_splits option.splits)
  then show ?thesis using c1 c2 conf by (cases r; cases r2) auto
qed (use s confined_refl in simp)

lemma ctl_rebind_key_confined:
  assumes s: "inv s"
    and op: "c_Op c = ''rebind_key''" and run: "ctl_rebind_key S a c s = (reply, s')"
  shows "confined_step (ac_accounts a) c s s'"
proof (cases "s' = s")
  case False
  obtain fin s1 where l: "rebind_loop S (c_KeyID c) (c_Account c) (ac_accounts a) s = (fin, s1)" by fastforce
  have "s' = s1" "c_Account c \<in> set (ac_accounts a)"
    using run l False by (auto simp: ctl_rebind_key_def contains_set Let_def split: if_splits)
  then show ?thesis using rebind_loop_inv [OF s l] confined_rebind [OF op] confined_refl
    by (cases fin) auto
qed (use s confined_refl in simp)

lemma ctl_revoke_key_confined:
  assumes s: "inv s"
    and op: "c_Op c = ''revoke_key''" and run: "ctl_revoke_key S a c s = (reply, s')"
  shows "confined_step (ac_accounts a) c s s'"
proof -
  obtain fin s1 where l: "revoke_loop S (c_KeyID c) (ac_accounts a) s = (fin, s1)" by fastforce
  have "s' = s1" using run l by (auto simp: ctl_revoke_key_def Let_def)
  then show ?thesis using revoke_loop_inv [OF s l] confined_revoke [OF op] confined_refl
    by (cases fin) auto
qed

lemma ctl_update_origins_confined:
  assumes s: "inv s" and os: "list_all text_ok (c_AllowedOrigins c)"
    and op: "c_Op c = ''update_origins''" and run: "ctl_update_origins S a c s = (reply, s')"
  shows "confined_step (ac_accounts a) c s s'"
proof (cases "s' = s")
  case False
  obtain r s1 where r: "UpdateKeyOrigins S s (c_KeyID c) (c_Account c) (c_AllowedOrigins c) = (r, s1)"
    by fastforce
  have "s' = s1" "c_Account c \<in> set (ac_accounts a)"
    using run r False
    by (auto simp: ctl_update_origins_def contains_set Let_def split: if_splits option.splits)
  then show ?thesis using origins [OF s os r] confined_origins [OF op] confined_refl by (cases r) auto
qed (use s confined_refl in simp)

lemma ctl_put_policy_confined:
  assumes s: "inv s"
    and op: "c_Op c = ''put_policy''" and run: "ctl_put_policy S a c s = (reply, s')"
  shows "confined_step (ac_accounts a) c s s'"
proof (cases "s' = s")
  case False
  obtain r s1 where r: "PutPolicy S s (c_Account c) (c_Version c) (c_Blob c) = (r, s1)" by fastforce
  have "s' = s1" "c_Account c \<in> set (ac_accounts a)"
    using run r False
    by (auto simp: ctl_put_policy_def contains_set Let_def split: if_splits option.splits)
  then show ?thesis using put_policy [OF s r] confined_put [OF op] confined_refl by (cases r) auto
qed (use s confined_refl in simp)

lemma ctl_get_policy_confined:
  assumes s: "inv s"
    and op: "c_Op c = ''get_policy''" and run: "ctl_get_policy S a c s = (reply, s')"
  shows "confined_step (ac_accounts a) c s s'"
proof (cases "s' = s")
  case False
  obtain ver blob found e s1 where r: "GetPolicy S s (c_Account c) = ((ver, blob, found, e), s1)"
    by (metis prod.exhaust)
  have "s' = s1"
    using run r False by (auto simp: ctl_get_policy_def Let_def split: if_splits option.splits)
  then show ?thesis using get_policy [OF s r] confined_refl by auto
qed (use s confined_refl in simp)

lemma control_op_confined:
  assumes s: "inv s" and os: "list_all text_ok (c_AllowedOrigins c)"
    and run: "control_op S a c s = (reply, s')"
  shows "inv s' \<and> (up s \<longrightarrow> up s') \<and> confined (view s) (view s') (ac_accounts a) c"
proof -
  consider "s' = s"
    | "c_Op c = ''register_key''" "ctl_register_key S a c s = (reply, s')"
    | "c_Op c = ''rebind_key''" "ctl_rebind_key S a c s = (reply, s')"
    | "c_Op c = ''revoke_key''" "ctl_revoke_key S a c s = (reply, s')"
    | "c_Op c = ''update_origins''" "ctl_update_origins S a c s = (reply, s')"
    | "c_Op c = ''put_policy''" "ctl_put_policy S a c s = (reply, s')"
    | "c_Op c = ''get_policy''" "ctl_get_policy S a c s = (reply, s')"
    using run by (auto simp: control_op_def split: if_splits)
  then show ?thesis
  proof cases
    case 1
    then show ?thesis using s confined_refl by simp
  next
    case 2
    then show ?thesis by (rule ctl_register_key_confined [OF s os])
  next
    case 3
    then show ?thesis by (rule ctl_rebind_key_confined [OF s])
  next
    case 4
    then show ?thesis by (rule ctl_revoke_key_confined [OF s])
  next
    case 5
    then show ?thesis by (rule ctl_update_origins_confined [OF s os])
  next
    case 6
    then show ?thesis by (rule ctl_put_policy_confined [OF s])
  next
    case 7
    then show ?thesis by (rule ctl_get_policy_confined [OF s])
  qed
qed

lemma rebind_loop_up:
  "inv s \<Longrightarrow> up s \<Longrightarrow> fst (rebind_loop S kid new accs s) \<longleftrightarrow> (\<exists>acc\<in>set accs. owned (view s) kid acc)"
proof (induction accs arbitrary: s)
  case (Cons acc accs)
  obtain r s1 where r: "RebindAPIKey S s kid acc new = (r, s1)" by fastforce
  note c = rebind [OF Cons.prems(1) r]
  have r': "r = (if owned (view s) kid acc then None else Some ErrNotFound)" "inv s1" "up s1"
    using c Cons.prems(2) by blast+
  have v1: "view s1 = (if r = None then abs_rebind (view s) kid new else view s)" using c by blast
  show ?case
  proof (cases "owned (view s) kid acc")
    case False
    then have "view s1 = view s" using r'(1) v1 by simp
    then show ?thesis using Cons.IH [OF r'(2,3)] r r'(1) False by simp
  qed (use r r'(1) in simp)
qed simp

lemma revoke_loop_up:
  "inv s \<Longrightarrow> up s \<Longrightarrow> fst (revoke_loop S kid accs s) \<longleftrightarrow> (\<exists>acc\<in>set accs. owned (view s) kid acc)"
proof (induction accs arbitrary: s)
  case (Cons acc accs)
  obtain r s1 where r: "RevokeAPIKey S s acc kid = (r, s1)" by fastforce
  note c = revoke [OF Cons.prems(1) r]
  have r': "r = (if owned (view s) kid acc then None else Some ErrNotFound)" "inv s1" "up s1"
    using c Cons.prems(2) by blast+
  have v1: "view s1 = (if r = None then abs_revoke (view s) kid else view s)" using c by blast
  show ?case
  proof (cases "owned (view s) kid acc")
    case False
    then have "view s1 = view s" using r'(1) v1 by simp
    then show ?thesis using Cons.IH [OF r'(2,3)] r r'(1) False by simp
  qed (use r r'(1) in simp)
qed simp

lemma owned_register: "owned (abs_register v kid acc h) kid acc"
  by (simp add: owned_def abs_register_def)

lemma register_key_refines:
  assumes s: "inv s" "up s" and os: "list_all text_ok (c_AllowedOrigins c)"
    and op: "c_Op c = ''register_key''" and run: "control_op S a c s = (reply, s')"
  shows "abs_control (nil_err s) (dup_err s) (ac_accounts a) c (view s) = (reply, view s')"
proof -
  obtain r s1 where r: "RegisterAPIKey S s (c_KeyID c) (c_Account c) (c_Hash c) = (r, s1)" by fastforce
  obtain r2 s2 where r2: "UpdateKeyOrigins S s1 (c_KeyID c) (c_Account c) (c_AllowedOrigins c) = (r2, s2)"
    by fastforce
  note c1 = register [OF s(1) r]
  then have r': "r = (if taken (view s) (c_KeyID c) (c_Hash c) then dup_err s else None)" and s1: "inv s1" "up s1"
    "view s1 = (if r = None then abs_register (view s) (c_KeyID c) (c_Account c) (c_Hash c) else view s)"
    using s(2) by blast+
  show ?thesis
  proof (cases r)
    case None
    have v1: "view s1 = abs_register (view s) (c_KeyID c) (c_Account c) (c_Hash c)" using s1(3) None by simp
    have "view s2 = abs_origins (view s1) (c_KeyID c) (c_AllowedOrigins c)"
      using origins [OF s1(1) os r2] s1(2) owned_register unfolding v1 by auto
    moreover have "\<not> (taken (view s) (c_KeyID c) (c_Hash c) \<and> dup_err s \<noteq> None)" using r' None by auto
    ultimately show ?thesis using run r r2 None v1
      by (auto simp: abs_control_def control_op_def ctl_register_key_def contains_set op Let_def split: if_splits)
  next
    case (Some e)
    then have "taken (view s) (c_KeyID c) (c_Hash c)" "dup_err s = Some e" using r' by (auto split: if_splits)
    then show ?thesis using run r Some s1(3)
      by (auto simp: abs_control_def control_op_def ctl_register_key_def contains_set op Let_def split: if_splits)
  qed
qed

lemma rebind_key_refines:
  assumes s: "inv s" "up s"
    and op: "c_Op c = ''rebind_key''" and run: "control_op S a c s = (reply, s')"
  shows "abs_control (nil_err s) (dup_err s) (ac_accounts a) c (view s) = (reply, view s')"
proof -
  obtain fin s1 where l: "rebind_loop S (c_KeyID c) (c_Account c) (ac_accounts a) s = (fin, s1)" by fastforce
  have held: "(\<exists>acc\<in>set (ac_accounts a). owned (view s) (c_KeyID c) acc) = fin"
    using rebind_loop_up [OF s, of "c_KeyID c" "c_Account c" "ac_accounts a"] l by simp
  have "view s1 = (if fin then abs_rebind (view s) (c_KeyID c) (c_Account c) else view s)"
    using rebind_loop_inv [OF s(1) l] by (auto split: if_splits)
  then show ?thesis using run l
    by (cases "c_Account c \<in> set (ac_accounts a)"; cases "c_KeyID c = []"; cases fin)
       (simp_all add: abs_control_def control_op_def ctl_rebind_key_def contains_set op held Let_def)
qed

lemma revoke_key_refines:
  assumes s: "inv s" "up s"
    and op: "c_Op c = ''revoke_key''" and run: "control_op S a c s = (reply, s')"
  shows "abs_control (nil_err s) (dup_err s) (ac_accounts a) c (view s) = (reply, view s')"
proof -
  obtain fin s1 where l: "revoke_loop S (c_KeyID c) (ac_accounts a) s = (fin, s1)" by fastforce
  have held: "(\<exists>acc\<in>set (ac_accounts a). owned (view s) (c_KeyID c) acc) = fin"
    using revoke_loop_up [OF s, of "c_KeyID c" "ac_accounts a"] l by simp
  have "view s1 = (if fin then abs_revoke (view s) (c_KeyID c) else view s)"
    using revoke_loop_inv [OF s(1) l] by (auto split: if_splits)
  then show ?thesis using run l
    by (cases fin) (simp_all add: abs_control_def control_op_def ctl_revoke_key_def op held Let_def)
qed

lemma update_origins_refines:
  assumes s: "inv s" "up s" and os: "list_all text_ok (c_AllowedOrigins c)"
    and op: "c_Op c = ''update_origins''" and run: "control_op S a c s = (reply, s')"
  shows "abs_control (nil_err s) (dup_err s) (ac_accounts a) c (view s) = (reply, view s')"
proof -
  obtain r s1 where r: "UpdateKeyOrigins S s (c_KeyID c) (c_Account c) (c_AllowedOrigins c) = (r, s1)"
    by fastforce
  have "view s1 = (if r = None then abs_origins (view s) (c_KeyID c) (c_AllowedOrigins c) else view s)"
    "r = (if owned (view s) (c_KeyID c) (c_Account c) then None else Some ErrNotFound)"
    using origins [OF s(1) os r] s(2) by blast+
  then show ?thesis using run r
    by (auto simp: abs_control_def control_op_def ctl_update_origins_def contains_set op Let_def split: if_splits)
qed

lemma put_policy_refines:
  assumes s: "inv s" "up s"
    and op: "c_Op c = ''put_policy''" and run: "control_op S a c s = (reply, s')"
  shows "abs_control (nil_err s) (dup_err s) (ac_accounts a) c (view s) = (reply, view s')"
proof -
  obtain r s1 where r: "PutPolicy S s (c_Account c) (c_Version c) (c_Blob c) = (r, s1)" by fastforce
  then show ?thesis using run put_policy [OF s(1) r] s(2)
    by (auto simp: abs_control_def control_op_def ctl_put_policy_def contains_set op Let_def split: if_splits)
qed

lemma get_policy_refines:
  assumes s: "inv s" "up s"
    and op: "c_Op c = ''get_policy''" and run: "control_op S a c s = (reply, s')"
  shows "abs_control (nil_err s) (dup_err s) (ac_accounts a) c (view s) = (reply, view s')"
proof -
  obtain ver blob found e s1 where r: "GetPolicy S s (c_Account c) = ((ver, blob, found, e), s1)"
    by (metis prod.exhaust)
  note g = get_policy [OF s(1) r]
  show ?thesis
  proof (cases "a_policy (view s) (c_Account c)")
    case None
    then have "e = None" "\<not> found" "view s1 = view s" using g s(2) by auto
    then show ?thesis using run r None
      by (auto simp: abs_control_def control_op_def ctl_get_policy_def contains_set op Let_def split: if_splits)
  next
    case (Some p)
    then obtain v b where p: "p = (v, b)" "a_policy (view s) (c_Account c) = Some (v, b)" by (cases p) auto
    then have "e = None" "found" "ver = v" "blob = b" "view s1 = view s" using g s(2) by auto
    then show ?thesis using run r p
      by (auto simp: abs_control_def control_op_def ctl_get_policy_def contains_set op Let_def split: if_splits)
  qed
qed

text \<open>Every control message is answered, and changes the store, as the specification says.\<close>

lemma control_refines:
  assumes s: "inv s" "up s" and os: "list_all text_ok (c_AllowedOrigins c)"
    and run: "control_op S a c s = (reply, s')"
  shows "abs_control (nil_err s) (dup_err s) (ac_accounts a) c (view s) = (reply, view s')"
proof -
  consider "c_Op c = ''register_key''" | "c_Op c = ''rebind_key''" | "c_Op c = ''revoke_key''"
    | "c_Op c = ''update_origins''" | "c_Op c = ''put_policy''" | "c_Op c = ''get_policy''"
    | "c_Op c \<notin> {''register_key'', ''rebind_key'', ''revoke_key'', ''update_origins'', ''put_policy'', ''get_policy''}"
    by blast
  then show ?thesis
  proof cases
    case 1
    show ?thesis by (rule register_key_refines [OF s(1,2) os 1 run])
  next
    case 2
    show ?thesis by (rule rebind_key_refines [OF s(1,2) 2 run])
  next
    case 3
    show ?thesis by (rule revoke_key_refines [OF s(1,2) 3 run])
  next
    case 4
    show ?thesis by (rule update_origins_refines [OF s(1,2) os 4 run])
  next
    case 5
    show ?thesis by (rule put_policy_refines [OF s(1,2) 5 run])
  next
    case 6
    show ?thesis by (rule get_policy_refines [OF s(1,2) 6 run])
  next
    case 7
    then show ?thesis using run by (auto simp: abs_control_def control_op_def Let_def)
  qed
qed

lemma handleControl_scope:
  fixes a :: agentConn
  assumes "inv (sv_store s)" "list_all text_ok (c_AllowedOrigins c)"
  defines "s' \<equiv> handleControl S a c s"
  shows "inv (sv_store s') \<and> (up (sv_store s) \<longrightarrow> up (sv_store s'))
    \<and> confined (view (sv_store s)) (view (sv_store s')) (ac_accounts a) c
    \<and> sv_hub s' = sv_hub s \<and> sv_rl s' = sv_rl s \<and> frames_to (ac_ws a) (sv_world s) (sv_world s')"
proof -
  obtain reply st where r: "control_op S a c (sv_store s) = (reply, st)" by fastforce
  obtain okay w where w: "writeJSON_conn a ((envelope TypeControl)\<lparr>e_Control := Some reply\<rparr>) (sv_world s)
      = (okay, w)" by fastforce
  have "frames_to (ac_ws a) (sv_world s) w" using w unfolding writeJSON_conn_def by (rule frames_to_write)
  then show ?thesis using control_op_confined [OF assms(1,2) r]
    by (simp add: s'_def handleControl_def r w)
qed

lemma agent_message_scope:
  fixes a :: agentConn
  assumes "inv (sv_store s)" "origins_ok text_ok (Some env)"
  defines "s' \<equiv> agent_message S a env s"
  shows "inv (sv_store s') \<and> (up (sv_store s) \<longrightarrow> up (sv_store s'))
    \<and> limited_to (view (sv_store s)) (view (sv_store s')) (ac_accounts a) (controls [Some env])
    \<and> (\<forall>acc. bound_to (sv_hub s') acc = bound_to (sv_hub s) acc)
    \<and> frames_to (ac_ws a) (sv_world s) (sv_world s')"
proof (cases "e_Type env = TypeControl")
  case ctl: True
  show ?thesis
  proof (cases "e_Control env")
    case None
    then show ?thesis using assms(1)
      by (simp add: s'_def agent_message_def ctl relay_simps limited_refl frames_to_refl)
  next
    case (Some c)
    then have "s' = handleControl S a c s" by (simp add: s'_def agent_message_def ctl relay_simps)
    moreover have "list_all text_ok (c_AllowedOrigins c)" using assms(2) Some by (simp add: origins_ok_def)
    note handleControl_scope [OF assms(1) this, of a]
    ultimately show ?thesis using confined_limited [of _ _ "ac_accounts a" c] Some by simp
  qed
next
  case False
  then have "sv_store s' = sv_store s \<and> sv_world s' = sv_world s
      \<and> (\<forall>acc. bound_to (sv_hub s') acc = bound_to (sv_hub s) acc)"
    by (auto simp: s'_def agent_message_def split: option.splits)
  then show ?thesis using assms(1) by (simp add: limited_refl frames_to_refl)
qed

lemma agentReadLoop_scope:
  "inv (sv_store s) \<Longrightarrow> list_all (origins_ok text_ok) msgs \<Longrightarrow> s' = agentReadLoop S a msgs s \<Longrightarrow>
     inv (sv_store s') \<and> (up (sv_store s) \<longrightarrow> up (sv_store s'))
     \<and> limited_to (view (sv_store s)) (view (sv_store s')) (ac_accounts a) (controls msgs)
     \<and> (\<forall>acc. bound_to (sv_hub s') acc = bound_to (sv_hub s) acc)
     \<and> frames_to (ac_ws a) (sv_world s) (sv_world s')"
proof (induction msgs arbitrary: s)
  case (Cons m msgs)
  show ?case
  proof (cases m)
    case None
    then show ?thesis using Cons.prems by (simp add: limited_refl frames_to_refl)
  next
    case (Some env)
    let ?s1 = "agent_message S a env s"
    have "origins_ok text_ok (Some env)" using Cons.prems(2) Some by simp
    note m = agent_message_scope [OF Cons.prems(1) this, of a]
    have "inv (sv_store ?s1)" "list_all (origins_ok text_ok) msgs" "s' = agentReadLoop S a msgs ?s1"
      using m Cons.prems Some by simp_all
    note rest = Cons.IH [OF this]
    have cs: "set (controls [Some env]) \<subseteq> set (controls (m # msgs))" "set (controls msgs) \<subseteq> set (controls (m # msgs))"
      by (auto simp: Some)
    have "limited_to (view (sv_store s)) (view (sv_store s')) (ac_accounts a) (controls (m # msgs))"
      using m rest cs limited_mono by (blast intro: limited_trans)
    then show ?thesis using m rest frames_to_trans by auto
  qed
qed (simp add: limited_refl frames_to_refl)

text \<open>
  What one connection can do from upgrade to close, whatever it sends: \<open>accs\<close> are the accounts it
  proved.
\<close>

lemma handleAgent_scope:
  assumes s: "inv (sv_store s)" and msgs: "list_all (origins_ok text_ok) msgs" and B: "blake2b_ok B"
    and run: "s' = handleAgent S B E werr ws msgs s"
  shows "\<exists>accs. (\<forall>acc\<in>set accs. \<exists>auth au. Some auth \<in> set msgs \<and> e_Auth auth = Some au
        \<and> proves B E (stake 32 (wd_entropy (sv_world s))) (au_Signatures au) acc)
    \<and> inv (sv_store s') \<and> (up (sv_store s) \<longrightarrow> up (sv_store s'))
    \<and> limited_to (view (sv_store s)) (view (sv_store s')) accs (controls msgs)
    \<and> frames_to ws (sv_world s) (sv_world s')
    \<and> (\<forall>acc d. d \<in> set (devicesForAccount (sv_hub s') acc) \<longrightarrow> d \<in> set (devicesForAccount (sv_hub s) acc))"
proof -
  obtain q rest w where e: "enroll B E werr ws msgs (sv_world s) = (q, rest, w)"
    using prod_cases3 by blast
  show ?thesis
  proof (cases q)
    case (Inl err)
    have "frames_to ws (sv_world s) w" using enroll_frames [OF e] .
    moreover have "frames_to ws w (writeWSError ws x w)" for x
      unfolding writeWSError_def by (metis frames_to_write prod.collapse)
    ultimately have "sv_store s' = sv_store s \<and> sv_hub s' = sv_hub s \<and> frames_to ws (sv_world s) (sv_world s')"
      unfolding run handleAgent_def e Inl by (cases err) (auto intro: frames_to_trans)
    then show ?thesis using s limited_refl by (intro exI [of _ "[]"]) simp
  next
    case (Inr a)
    note en = enroll_accepted [OF B e [unfolded Inr]]
    let ?s1 = "s\<lparr>sv_hub := Hub.bind a (sv_hub s), sv_world := w\<rparr>"
    obtain okay w2 where w2: "writeJSON_conn a
        ((envelope TypeWelcome)\<lparr>e_Welcome := Some \<lparr>w_Accounts = ac_accounts a\<rparr>\<rparr>) w = (okay, w2)"
      by fastforce
    let ?s2 = "agentReadLoop S a rest (?s1\<lparr>sv_world := w2\<rparr>)"
    have s': "s' = ?s2\<lparr>sv_hub := unbind a (sv_hub ?s2)\<rparr>"
      unfolding run handleAgent_def e Inr using w2 by (simp add: Let_def)
    have rest: "list_all (origins_ok text_ok) rest" "set (controls rest) \<subseteq> set (controls msgs)" using msgs en by auto
    have l: "inv (sv_store ?s2) \<and> (up (sv_store s) \<longrightarrow> up (sv_store ?s2))
      \<and> limited_to (view (sv_store s)) (view (sv_store ?s2)) (ac_accounts a) (controls msgs)
      \<and> (\<forall>acc. bound_to (sv_hub ?s2) acc = bound_to (Hub.bind a (sv_hub s)) acc)
      \<and> frames_to (ac_ws a) w2 (sv_world ?s2)"
      using agentReadLoop_scope [of "?s1\<lparr>sv_world := w2\<rparr>" rest ?s2 a] s rest(1) limited_mono [OF _ rest(2)] by simp
    have "frames_to ws w w2" using w2 en unfolding writeJSON_conn_def by (metis frames_to_write)
    then have "frames_to ws (sv_world s) (sv_world ?s2)"
      using enroll_frames [OF e] l en frames_to_trans by metis
    moreover have "d \<in> set (devicesForAccount (sv_hub s) acc)"
      if "d \<in> set (devicesForAccount (unbind a (sv_hub ?s2)) acc)" for acc d
      using that l by (auto simp: devices_rev unbind_bound bind_bound split: if_splits)
    ultimately show ?thesis using l en unfolding s'
      by (intro exI [of _ "ac_accounts a"]) (auto simp: list.set_intros)
  qed
qed

end

section \<open>Properties of the control messages\<close>

text \<open>
  C8. The control messages meet their specification: over the SQLite store every message of an
  enrolled device, each of the six operations with all its refusals and every unknown one, is
  answered as \<open>abs_control\<close> says and leaves exactly the content \<open>abs_control\<close> says, provided no
  statement fails in the driver. A put_policy message without a blob is answered with the text of the
  violated NOT NULL constraint, a register_key message with the hash of another key with that of the
  UNIQUE constraint, and both change nothing.
\<close>

theorem control_meets_spec:
  assumes "sql_inv s" "sql_up s" "list_all utf8_valid (c_AllowedOrigins c)"
    and "control_op sqlite_store a c s = (reply, s')"
  shows "abs_control (Some (GoErr (db_notnull_msg s))) (Some (GoErr (db_unique_msg s))) (ac_accounts a) c (sql_view s)
    = (reply, sql_view s')"
  using sq.control_refines [OF assms] by (simp add: sql_nil_err_def sql_dup_err_def)

definition dev_acc :: agentConn where
  "dev_acc = \<lparr>ac_deviceID = ''d'', ac_accounts = [''other'', ''acc''], ac_ws = 1\<rparr>"

definition ctl :: "string \<Rightarrow> string \<Rightarrow> string \<Rightarrow> string \<Rightarrow> Control" where
  "ctl op acc kid h = zero_Control\<lparr>c_Op := op, c_Account := acc, c_KeyID := kid, c_Hash := h\<rparr>"

lemma ctl_simps [simp]:
  "c_Op (ctl op acc kid h) = op" "c_Account (ctl op acc kid h) = acc" "c_KeyID (ctl op acc kid h) = kid"
  "c_Hash (ctl op acc kid h) = h" "c_AllowedOrigins (ctl op acc kid h) = []"
  "c_Blob (ctl op acc kid h) = None"
  by (simp_all add: ctl_def zero_Control_def)

theorem control_meets_spec_witness:
  "owned (sql_view (snd (control_op sqlite_store dev_acc (ctl ''rebind_key'' ''other'' ''k1'' []) sql_sample)))
       ''k1'' ''other''
   \<and> fst (control_op sqlite_store dev_acc (ctl ''rebind_key'' ''other'' ''k1'' []) sql_sample)
       = control_reply (ctl ''rebind_key'' ''other'' ''k1'' [])\<lparr>c_KeyID := ''k1'', c_Account := ''other''\<rparr>
   \<and> c_Error (fst (control_op sqlite_store dev_acc (ctl ''put_policy'' ''acc'' [] []) sql_sample)) = ''NOT NULL''"
proof -
  let ?c = "ctl ''rebind_key'' ''other'' ''k1'' []" and ?p = "ctl ''put_policy'' ''acc'' [] []"
  let ?errs = "\<lambda>s. abs_control (Some (GoErr (db_notnull_msg s))) (Some (GoErr (db_unique_msg s)))"
  obtain reply s' where run: "control_op sqlite_store dev_acc ?c sql_sample = (reply, s')" by fastforce
  obtain reply' t where put: "control_op sqlite_store dev_acc ?p sql_sample = (reply', t)" by fastforce
  have "?errs sql_sample [''other'', ''acc''] ?c (sql_view sql_sample) = (reply, sql_view s')"
    using control_meets_spec [OF sample_ok(2,3) _ run] by (simp add: dev_acc_def)
  then have "reply = control_reply ?c\<lparr>c_KeyID := ''k1'', c_Account := ''other''\<rparr>"
    "sql_view s' = abs_rebind (sql_view sql_sample) ''k1'' ''other''"
    using sample_owned(2) by (auto simp: abs_control_def Let_def split: if_splits)
  moreover have "owned (abs_rebind (sql_view sql_sample) ''k1'' ''other'') ''k1'' ''other''"
    using sample_owned(2) by (auto simp: owned_def abs_rebind_def)
  moreover have "?errs sql_sample [''other'', ''acc''] ?p (sql_view sql_sample) = (reply', sql_view t)"
    using control_meets_spec [OF sample_ok(2,3) _ put] by (simp add: dev_acc_def)
  then have "c_Error reply' = db_notnull_msg sql_sample" by (auto simp: abs_control_def Let_def)
  moreover have "db_notnull_msg sql_sample = ''NOT NULL''" by (simp add: sql_sample_def)
  ultimately show ?thesis using run put by simp
qed

text \<open>
  A control message is confined to the device's accounts, even when statements fail midway.
  Only the key it names changes, and only if it belonged to one of the accounts the device proved or
  is being registered; afterwards it belongs to one of them. A secret is only ever added for or
  removed from that key. A policy changes only for a proved account, and only to a higher version.
  The hub and the rate limiter are untouched, and at most one frame is written, to the device itself.
\<close>

theorem control_confined:
  assumes "sql_inv (sv_store s)" "list_all utf8_valid (c_AllowedOrigins c)"
    and "s' = handleControl sqlite_store a c s"
  shows "sql_inv (sv_store s') \<and> confined (sql_view (sv_store s)) (sql_view (sv_store s')) (ac_accounts a) c
    \<and> sv_hub s' = sv_hub s \<and> sv_rl s' = sv_rl s \<and> frames_to (ac_ws a) (sv_world s) (sv_world s')"
  using sq.handleControl_scope [OF assms(1,2), of a] assms(3) by simp

definition sql_server :: "sqliteStore server" where
  "sql_server = newServer \<lparr>cfg_Listen = [], cfg_RequestTimeoutSeconds = 45, cfg_SQLitePath = ''db''\<rparr>
     sql_sample world1"

lemma sql_server_sel [simp]:
  "sv_store sql_server = sql_sample" "sv_world sql_server = world1" "sv_hub sql_server = newHub"
  by (simp_all add: sql_server_def newServer_def)

theorem control_confined_witness:
  "confined (sql_view sql_sample)
     (sql_view (sv_store (handleControl sqlite_store dev_acc (ctl ''revoke_key'' [] ''k1'' []) sql_server)))
     [''other'', ''acc''] (ctl ''revoke_key'' [] ''k1'' [])"
  using control_confined [OF _ _ refl, of sql_server "ctl ''revoke_key'' [] ''k1'' []" dev_acc] sample_ok(2)
  by (simp add: dev_acc_def)

text \<open>
  C17. Registration takes over any key id. A device that proved only other accounts can register a
  key id that belongs to somebody else: the message is answered without an error, the key then
  belongs to the device's account, and every secret of the former owner's callers is refused.
\<close>

theorem register_takes_over:
  assumes "sql_inv s" "sql_up s" "owned (sql_view s) kid victim" "victim \<notin> set (ac_accounts a)"
    and "c_Op c = ''register_key''" "c_Account c \<in> set (ac_accounts a)" "c_KeyID c = kid" "kid \<noteq> []"
      "c_Hash c \<noteq> []" "a_hash (sql_view s) (c_Hash c) = None" "c_AllowedOrigins c = []"
    and "control_op sqlite_store a c s = (reply, s')"
  shows "c_Error reply = [] \<and> owned (sql_view s') kid (c_Account c) \<and> \<not> owned (sql_view s') kid victim
    \<and> (\<forall>p. a_hash (sql_view s) (hashSecret p) = Some kid \<longrightarrow> fst (sql_ResolveAPIKey s' p) = Inl ErrNotFound)"
proof -
  have spec: "abs_control (sql_nil_err s) (sql_dup_err s) (ac_accounts a) c (sql_view s) = (reply, sql_view s')"
    using assms(11) by (intro sq.control_refines [OF assms(1,2) _ assms(12)]) simp
  moreover have "\<not> taken (sql_view s) (c_KeyID c) (c_Hash c)" using assms(10) by (simp add: taken_def)
  ultimately have v: "sql_view s' = abs_register (sql_view s) kid (c_Account c) (c_Hash c)" and "c_Error reply = []"
    using assms(5-9,11) by (auto simp: abs_control_def control_reply_def zero_Control_def Let_def split: if_splits)
  have "sql_inv s'" "sql_up s'"
    using sq.control_op_confined [OF assms(1) _ assms(12)] assms(2,11) by simp_all
  then have "fst (sql_ResolveAPIKey s' p) = Inl ErrNotFound" if "a_hash (sql_view s) (hashSecret p) = Some kid" for p
    using sq.fst_resolve [of s' p] that assms(10) by (auto simp: v resolve_register)
  then show ?thesis using \<open>c_Error reply = []\<close> assms(4,6) by (auto simp: v owned_def abs_register_def)
qed

theorem register_takes_over_witness:
  "fst (sql_ResolveAPIKey sql_sample ''old'') \<noteq> Inl ErrNotFound
   \<and> fst (sql_ResolveAPIKey (snd (control_op sqlite_store dev1 (ctl ''register_key'' ''x'' ''k1'' ''h2'') sql_sample))
       ''old'') = Inl ErrNotFound"
proof -
  let ?c = "ctl ''register_key'' ''x'' ''k1'' ''h2''"
  obtain reply s' where run: "control_op sqlite_store dev1 ?c sql_sample = (reply, s')" by fastforce
  have "''acc'' \<notin> set (ac_accounts dev1)" "''x'' \<in> set (ac_accounts dev1)" by (simp_all add: dev1_def)
  moreover have "a_hash (sql_view sql_sample) ''h2'' = None"
    using sample_hash [of "''old''"] by (simp add: sample_ok)
  ultimately have "a_hash (sql_view sql_sample) (hashSecret ''old'') = Some ''k1''
      \<longrightarrow> fst (sql_ResolveAPIKey s' ''old'') = Inl ErrNotFound"
    using register_takes_over [OF sample_ok(2,3) sample_owned(2) _ _ _ _ _ _ _ _ run] by simp
  then show ?thesis using run by (simp add: sample_ok sample_resolve)
qed

text \<open>
  C4. The reach of a whole connection. Whatever a websocket sends, from its first frame to its last,
  and whatever statements fail on the way: let \<open>accs\<close> be accounts for which it sent a valid signature of the 32
  random bytes drawn for this connection. Then every key that is new, changed or gone afterwards belonged to
  one of \<open>accs\<close> before, or one of its own register_key messages named that key id for one of \<open>accs\<close>
  (which takes a foreign id over, see \<open>register_takes_over\<close>); and if it still exists it belongs to one of \<open>accs\<close>. A
  secret that now opens a key it did not open before was registered by this connection for that key, and a secret
  that no longer opens its key opened such a key, or was itself registered. So no other account's key
  is revoked, rebound or given other origins or secrets. Policies of all other accounts are as before; a
  changed one has the version and blob of a put_policy message of the connection, and none goes back to an
  older version. Frames are written only to this connection, and no device is bound afterwards that was not
  bound before.
\<close>

theorem connection_reach:
  assumes "sql_inv (sv_store s)" "blake2b_ok B" "list_all (origins_ok utf8_valid) msgs"
    and "s' = handleAgent sqlite_store B E werr ws msgs s"
  shows "\<exists>accs. (\<forall>acc\<in>set accs. \<exists>auth au. Some auth \<in> set msgs \<and> e_Auth auth = Some au
        \<and> proves B E (stake 32 (wd_entropy (sv_world s))) (au_Signatures au) acc)
    \<and> sql_inv (sv_store s') \<and> limited_to (sql_view (sv_store s)) (sql_view (sv_store s')) accs (controls msgs)
    \<and> frames_to ws (sv_world s) (sv_world s')
    \<and> (\<forall>acc d. d \<in> set (devicesForAccount (sv_hub s') acc) \<longrightarrow> d \<in> set (devicesForAccount (sv_hub s) acc))"
  using sq.handleAgent_scope [OF assms(1,3,2,4)] by blast

definition foreign_msgs :: inbound where
  "foreign_msgs = sample_msgs
     @ [Some ((envelope TypeControl)\<lparr>e_Control := Some (ctl ''revoke_key'' ''acc'' ''k1'' [])\<rparr>),
        Some ((envelope TypeControl)\<lparr>e_Control := Some (ctl ''put_policy'' ''acc'' [] [])\<rparr>)]"

lemma foreign_controls: "controls foreign_msgs = [ctl ''revoke_key'' ''acc'' ''k1'' [], ctl ''put_policy'' ''acc'' [] []]"
  by (simp add: foreign_msgs_def sample_msgs_def honest_hello_def honest_auth_def zero_Envelope_def)

theorem connection_reach_witness:
  "let v = sql_view (sv_store (handleAgent sqlite_store pad_hash toy [] 4 foreign_msgs sql_server)) in
     a_keys v ''k1'' = a_keys (sql_view sql_sample) ''k1''
     \<and> a_hash v (hashSecret ''old'') = Some ''k1'' \<and> a_policy v ''acc'' = None"
proof -
  let ?v = "sql_view (sv_store (handleAgent sqlite_store pad_hash toy [] 4 foreign_msgs sql_server))"
  have "list_all (origins_ok utf8_valid) foreign_msgs"
    by (simp add: foreign_msgs_def sample_msgs_def origins_ok_def honest_hello_def honest_auth_def zero_Envelope_def)
  then obtain accs where accs: "\<forall>acc\<in>set accs. \<exists>nonce sigs. proves pad_hash toy nonce sigs acc"
    "limited_to (sql_view sql_sample) ?v accs (controls foreign_msgs)"
    using connection_reach [OF _ pad_hash_ok _ refl, of sql_server foreign_msgs toy "[]" 4] sample_ok(2)
    unfolding sql_server_sel by blast
  have "ParseAddress pad_hash ''acc'' \<noteq> Inr pub" for pub
    by (simp add: ParseAddress_def HasPrefix_def)
  then have "''acc'' \<notin> set accs" using accs(1) unfolding proves_def by blast
  moreover have none: "\<not> registers accs (controls foreign_msgs) kid h" for kid h
    by (simp add: registers_def foreign_controls)
  moreover have "owned (sql_view sql_sample) ''k1'' acc \<longleftrightarrow> acc = ''acc''" for acc
    using sample_owned(2) by (auto simp: owned_def)
  ultimately have "\<not> reaches (sql_view sql_sample) accs (controls foreign_msgs) ''k1''" by (auto simp: reaches_def)
  moreover have "a_hash (sql_view sql_sample) (hashSecret ''old'') = Some ''k1''" by (simp add: sample_ok)
  moreover have "a_policy (sql_view sql_sample) ''acc'' = None" by (simp add: sql_view_def sql_sample_def)
  ultimately show ?thesis using accs(2) none \<open>''acc'' \<notin> set accs\<close> unfolding limited_to_def Let_def by metis
qed

text \<open>
  Apart from control messages it does not matter which connection a message came from: the relay accepts
  a result from any enrolled device that names the identifier of the request.
\<close>

lemma result_sender_unchecked:
  "e_Type env \<noteq> TypeControl \<Longrightarrow> agent_message S a env s = agent_message S a' env s"
  by (simp add: agent_message_def)

end
