(* ===== verification/Http_Body.thy ===== *)
theory Http_Body
  imports Http
begin

text \<open>
  The body of a creation request as a caller encodes it, and its round trip through the decoder: what
  \<^verbatim>\<open>json.Marshal\<close> makes of a \<^verbatim>\<open>createRequestBody\<close>, empty fields left out as the struct's tags say, is
  decoded to the same struct.
\<close>

section \<open>Objects of strings\<close>

definition marshal_member :: "string \<times> string \<Rightarrow> string" where
  "marshal_member m = marshal_string (fst m) @ CHR '':'' # marshal_string (snd m)"

fun marshal_members :: "(string \<times> string) list \<Rightarrow> string" where
  "marshal_members [] = [CHR 0x7D]"
| "marshal_members (m # ms) = CHR '','' # marshal_member m @ marshal_members ms"

fun marshal_object :: "(string \<times> string) list \<Rightarrow> string" where
  "marshal_object [] = [CHR 0x7B, CHR 0x7D]"
| "marshal_object (m # ms) = CHR 0x7B # marshal_member m @ marshal_members ms"

definition str_members :: "(string \<times> string) list \<Rightarrow> (string \<times> json) list" where
  "str_members ms = map (\<lambda>(k, v). (k, JStr v)) ms"

lemma str_members_simps [simp]:
  "str_members [] = []" "str_members (m # ms) = (fst m, JStr (snd m)) # str_members ms"
  "str_members (xs @ ys) = str_members xs @ str_members ys"
  by (auto simp: str_members_def split: prod.split)

abbreviation members_ok :: "(string \<times> string) list \<Rightarrow> bool" where
  "members_ok ms \<equiv> \<forall>m\<in>set ms. utf8_valid (fst m) \<and> utf8_valid (snd m)"

lemma length_marshal_members: "length ms < length (marshal_members ms)"
  by (induction ms) (auto simp: marshal_member_def marshal_string_def)

lemma parse_member:
  assumes "utf8_valid (fst m)" "utf8_valid (snd m)"
  shows "parse_members (Suc (Suc g)) d acc (marshal_member m @ c # x) =
    (case skip_ws (c # x) of
       [] \<Rightarrow> None
     | e # y \<Rightarrow>
         if e = CHR '','' then parse_members (Suc g) d (acc @ [(fst m, JStr (snd m))]) y
         else if e = CHR 0x7D then Some (JObj (acc @ [(fst m, JStr (snd m))]), y) else None)"
proof -
  let ?u = "marshal_string (snd m) @ c # x"
  have v: "parse_value (Suc g) d ?u = Some (JStr (snd m), c # x)"
    by (rule parse_value_string [OF assms(2)])
  have t: "marshal_member m @ c # x = CHR 0x22 # (escape_text (fst m) @ CHR 0x22 # CHR '':'' # ?u)"
    by (simp add: marshal_member_def marshal_string_def)
  show ?thesis
    unfolding t
    by (subst parse_members.simps)
       (simp add: parse_str_escape [OF assms(1)] v del: parse_members.simps parse_value.simps
          split: list.split)
qed

lemma parse_members_strings:
  "members_ok (m # ms) \<Longrightarrow> length ms + 2 \<le> f \<Longrightarrow>
   parse_members f d acc (marshal_member m @ marshal_members ms @ r)
     = Some (JObj (acc @ str_members (m # ms)), r)"
proof (induction ms arbitrary: m f acc)
  case Nil
  then obtain g where "f = Suc (Suc g)" by (cases f; cases "f - 1") auto
  with Nil show ?case by (simp add: parse_member del: parse_members.simps)
next
  case (Cons n ms)
  then obtain g where f: "f = Suc (Suc g)" "length ms + 2 \<le> Suc g" by (cases f; cases "f - 1") auto
  have "parse_members (Suc g) d (acc @ [(fst m, JStr (snd m))]) (marshal_member n @ marshal_members ms @ r)
      = Some (JObj ((acc @ [(fst m, JStr (snd m))]) @ str_members (n # ms)), r)"
    using Cons.prems f(2) by (intro Cons.IH) simp_all
  then show ?case using Cons.prems(1) unfolding f(1)
    by (simp add: parse_member del: parse_members.simps)
qed

lemma parse_marshal_object:
  assumes "members_ok ms"
  shows "parse_json (marshal_object ms @ r) = Some (JObj (str_members ms), r)"
proof (cases ms)
  case Nil
  have "parse_value (Suc (2 * length r + 5)) 0 ([CHR 0x7B, CHR 0x7D] @ r) = Some (JObj [], r)"
    by (subst parse_value.simps) (simp add: maxNestingDepth_def)
  then show ?thesis unfolding parse_json_def Nil by (simp add: maxNestingDepth_def)
next
  case (Cons m ns)
  let ?t = "marshal_member m @ marshal_members ns @ r"
  let ?f = "2 * length (marshal_object ms @ r) + 1"
  obtain t' where t': "?t = CHR 0x22 # t'" by (simp add: marshal_member_def marshal_string_def)
  have "length ns + 2 \<le> ?f" using length_marshal_members [of ns] Cons by simp
  then have p: "parse_members ?f 1 [] ?t = Some (JObj (str_members ms), r)"
    using parse_members_strings [of m ns ?f 1 "[]" r] assms Cons by simp
  have "parse_value (Suc ?f) 0 (CHR 0x7B # ?t) = parse_members ?f 1 [] ?t"
    by (subst parse_value.simps) (simp add: t' maxNestingDepth_def del: parse_members.simps)
  then show ?thesis using p by (simp add: Cons parse_json_def)
qed

section \<open>The body of a creation request\<close>

definition omitempty :: "string \<Rightarrow> string \<Rightarrow> (string \<times> string) list" where
  "omitempty k v = (if v = [] then [] else [(k, v)])"

definition body_members :: "createRequestBody \<Rightarrow> (string \<times> string) list" where
  "body_members b =
     [(''kind'', cb_Kind b)] @ omitempty ''destination'' (cb_Destination b)
     @ omitempty ''amount_raw'' (cb_AmountRaw b) @ omitempty ''amount'' (cb_Amount b)
     @ omitempty ''counterparty'' (cb_Counterparty b) @ omitempty ''memo'' (cb_Memo b)
     @ omitempty ''nonce'' (cb_Nonce b) @ omitempty ''action'' (cb_Action b)"

definition marshal_body :: "createRequestBody \<Rightarrow> string" where
  "marshal_body b = marshal_object (body_members b)"

definition body_ok :: "createRequestBody \<Rightarrow> bool" where
  "body_ok b \<longleftrightarrow> utf8_valid (cb_Kind b) \<and> utf8_valid (cb_Destination b) \<and> utf8_valid (cb_AmountRaw b)
     \<and> utf8_valid (cb_Amount b) \<and> utf8_valid (cb_Counterparty b) \<and> utf8_valid (cb_Memo b)
     \<and> utf8_valid (cb_Nonce b) \<and> utf8_valid (cb_Action b)"

lemma string_field_append:
  "string_field n (xs @ ys) cur = Option.bind (string_field n xs cur) (string_field n ys)"
  by (induction xs arbitrary: cur) (auto split: json.split)

lemma string_field_omitempty:
  "string_field n (str_members (omitempty k v)) cur
     = Some (if foldName k = foldName n \<and> v \<noteq> [] then v else cur)"
  by (simp add: omitempty_def)

lemma utf8_ascii: "list_all (\<lambda>c. ord c < 0x80) s \<Longrightarrow> utf8_valid s"
proof (induction s)
  case Nil
  show ?case by (subst utf8_valid.simps) simp
next
  case (Cons c s)
  then show ?case by (subst utf8_valid.simps) simp
qed

lemma field_names_ok:
  "utf8_valid ''kind''" "utf8_valid ''destination''" "utf8_valid ''amount_raw''" "utf8_valid ''amount''"
  "utf8_valid ''counterparty''" "utf8_valid ''memo''" "utf8_valid ''nonce''" "utf8_valid ''action''"
  by (rule utf8_ascii, simp)+

lemma body_members_ok: "body_ok b \<Longrightarrow> members_ok (body_members b)"
  by (simp add: body_ok_def body_members_def omitempty_def field_names_ok)

lemma body_fields_members: "body_fields (str_members (body_members b)) = Some b"
  by (simp add: body_fields_def body_members_def string_field_append string_field_omitempty)

lemma decode_marshal_body:
  assumes "body_ok b" "length (marshal_body b) \<le> limit"
  shows "decode_struct limit body_fields (marshal_body b @ rest) = Some b"
proof -
  have "take limit (marshal_body b @ rest) = marshal_object (body_members b) @ take (limit - length (marshal_body b)) rest"
    using assms(2) by (simp add: marshal_body_def)
  then show ?thesis
    using parse_marshal_object [OF body_members_ok [OF assms(1)]]
    by (simp add: decode_struct_def decode_body_def body_fields_members)
qed

lemma length_escape_text: "length (escape_text s) \<le> 6 * length s"
proof (induction s rule: escape_text.induct)
  case (1 s)
  show ?case
  proof (cases s)
    case Nil
    then show ?thesis by (subst escape_text.simps) simp
  next
    case (Cons c t)
    have a: "length (escape_ascii c) \<le> 6" by (simp add: escape_ascii_def hextable_def Let_def)
    have d: "length (escape_text (drop 3 s)) \<le> 6 * length (drop 3 s) \<Longrightarrow>
        6 + length (escape_text (drop 3 s)) \<le> 6 * length s"
      using Cons by (cases t) auto
    consider (ascii) "ord c < 0x80" | (bad) "\<not> ord c < 0x80" "rune_len s = 0"
      | (u2028) "\<not> ord c < 0x80" "rune_len s \<noteq> 0" "take 3 s = [CHR 0xE2, CHR 0x80, CHR 0xA8]"
      | (u2029) "\<not> ord c < 0x80" "rune_len s \<noteq> 0" "take 3 s \<noteq> [CHR 0xE2, CHR 0x80, CHR 0xA8]"
          "take 3 s = [CHR 0xE2, CHR 0x80, CHR 0xA9]"
      | (rune) "\<not> ord c < 0x80" "rune_len s \<noteq> 0" "take 3 s \<noteq> [CHR 0xE2, CHR 0x80, CHR 0xA8]"
          "take 3 s \<noteq> [CHR 0xE2, CHR 0x80, CHR 0xA9]"
      by blast
    then show ?thesis
    proof cases
      case ascii
      then have "escape_text s = escape_ascii c @ escape_text t" using Cons by (subst escape_text.simps) simp
      then show ?thesis using a "1.IH"(1) [OF Cons ascii] Cons by simp
    next
      case bad
      then have "escape_text s = CHR 0x5C # ''ufffd'' @ escape_text t"
        using Cons by (subst escape_text.simps) simp
      then show ?thesis using "1.IH"(2) [OF Cons bad] Cons by simp
    next
      case u2028
      then have "escape_text s = CHR 0x5C # ''u2028'' @ escape_text (drop 3 s)"
        using Cons by (subst escape_text.simps) (simp del: rune_len.simps)
      then show ?thesis using d "1.IH"(3) [OF Cons u2028] by simp
    next
      case u2029
      then have "escape_text s = CHR 0x5C # ''u2029'' @ escape_text (drop 3 s)"
        using Cons by (subst escape_text.simps) (simp del: rune_len.simps)
      then show ?thesis using d "1.IH"(4) [OF Cons u2029] by simp
    next
      case rune
      then have "escape_text s = take (rune_len s) s @ escape_text (drop (rune_len s) s)"
        using Cons by (subst escape_text.simps) (simp del: rune_len.simps take_Cons_numeral)
      then show ?thesis using "1.IH"(5) [OF Cons rune] rune_len_le [of s]
        by (simp del: rune_len.simps)
    qed
  qed
qed

lemma length_marshal_string: "length (marshal_string s) \<le> 6 * length s + 2"
  using length_escape_text [of s] by (simp add: marshal_string_def)

text \<open>
  The body of a request reaches the handler unchanged: for every well-formed body, whatever its
  fields hold and whatever follows it in the stream, decoding its JSON encoding gives the body back
  as long as the encoding is within the size limit.
\<close>

theorem create_body_roundtrip:
  assumes "body_ok b" "length (marshal_body b) \<le> maxRequestBodyBytes"
  shows "decode_struct maxRequestBodyBytes body_fields (marshal_body b @ rest) = Some b"
  using assms by (rule decode_marshal_body)

definition memo_body :: createRequestBody where
  "memo_body = \<lparr>cb_Kind = ''send'', cb_Destination = ''x'', cb_AmountRaw = ''1'', cb_Amount = [],
     cb_Counterparty = [], cb_Memo = ''<\"tea\">'', cb_Nonce = [], cb_Action = []\<rparr>"

theorem create_body_roundtrip_witness:
  "decode_struct maxRequestBodyBytes body_fields (marshal_body memo_body @ [CHR 0x0A]) = Some memo_body"
proof (rule create_body_roundtrip)
  have ok: "utf8_valid ''send''" "utf8_valid ''x''" "utf8_valid ''1''" "utf8_valid []" "utf8_valid ''<\"tea\">''"
    by (rule utf8_ascii, simp)+
  then show "body_ok memo_body" unfolding body_ok_def memo_body_def by simp
  note l = length_marshal_string [of "''kind''"] length_marshal_string [of "''send''"]
    length_marshal_string [of "''destination''"] length_marshal_string [of "''x''"]
    length_marshal_string [of "''amount_raw''"] length_marshal_string [of "''1''"]
    length_marshal_string [of "''memo''"] length_marshal_string [of "''<\"tea\">''"]
  show "length (marshal_body memo_body) \<le> maxRequestBodyBytes"
    using l by (simp add: marshal_body_def memo_body_def body_members_def omitempty_def marshal_member_def
        maxRequestBodyBytes_def)
qed

end
