(* ===== verification/Http_Props.thy ===== *)
theory Http_Props
  imports Http_Body Server_Props
begin

text \<open>
  The guarantees of the HTTP API: who is let in, what a request does and to whom it is sent, what the
  caller is answered on every path, and what a browser of another origin gets to see.
\<close>

section \<open>Building a request\<close>

text \<open>The request that is built, field by field.\<close>

definition tx_request :: "APIKey \<Rightarrow> createRequestBody \<Rightarrow> string \<Rightarrow> World \<Rightarrow> TxRequest" where
  "tx_request key body amount w =
     (let rid = ''req_'' @ EncodeToString (stake 12 (wd_entropy w))
      in \<lparr>tr_ID = rid, tr_ContactID = k_ID key, tr_ContactName = [], tr_Kind = KindSend,
          tr_Account = k_OwnerAccount key, tr_Counterparty = cb_Counterparty body,
          tr_Destination = cb_Destination body, tr_AmountRaw = amount, tr_Memo = cb_Memo body,
          tr_Nonce = (if cb_Nonce body = [] then rid else cb_Nonce body),
          tr_CreatedAt = shd (wd_clock w),
          tr_ActionOverride = (if cb_Action body = ''sign_only'' then ''sign_only'' else [])\<rparr>)"

lemma build_world:
  "snd (buildTxRequest B key body w) = w\<lparr>wd_entropy := sdrop 12 (wd_entropy w), wd_clock := stl (wd_clock w)\<rparr>"
  by (simp add: buildTxRequest_def randomSecret_def rand_Read_def time_Now_def Let_def
      split: sum.split go_error.split)

lemma build_result:
  "fst (buildTxRequest B key body w) =
    (if cb_Kind body \<noteq> KindSend then Inl (errString ''kind must be \"send\"'')
     else case ParseAddress B (cb_Destination body) of
            Inl (GoPanic p) \<Rightarrow> Inl (GoPanic p)
          | Inl (GoErr _) \<Rightarrow> Inl (errString ''destination is not a valid nano_ address'')
          | Inr _ \<Rightarrow> (case resolveAmount body of
                Inl e \<Rightarrow> Inl e
              | Inr amount \<Rightarrow> Inr (tx_request key body amount w)))"
  by (simp add: buildTxRequest_def randomSecret_def rand_Read_def time_Now_def zero_TxRequest_def
      tx_request_def Let_def split: sum.split go_error.split)

lemma resolveAmount_no_panic: "resolveAmount body \<noteq> Inl (GoPanic p)"
  by (simp add: resolveAmount_def errString_def split: sum.split)

lemma build_no_panic: "blake2b_ok B \<Longrightarrow> fst (buildTxRequest B key body w) \<noteq> Inl (GoPanic p)"
  using ParseAddress_no_panic [of B "cb_Destination body"] resolveAmount_no_panic [of body]
  by (auto simp: build_result errString_def split: sum.split go_error.split)

lemma build_accepts:
  "blake2b_ok B \<Longrightarrow> fst (buildTxRequest B key body w) = Inr req \<longleftrightarrow>
     cb_Kind body = KindSend \<and> (\<exists>pub. ParseAddress B (cb_Destination body) = Inr pub)
     \<and> (\<exists>amount. resolveAmount body = Inr amount \<and> req = tx_request key body amount w)"
  by (auto simp: build_result split: sum.split go_error.split)

section \<open>Creating a request\<close>

text \<open>A request sent on behalf of a key: the frames written for it, seen from the hub before and after.\<close>

definition request_trace :: "TxRequest \<Rightarrow> Hub \<Rightarrow> Hub \<Rightarrow> bool stream \<Rightarrow> (nat \<times> Envelope) list" where
  "request_trace req h h' ws =
     (let acc = tr_Account req in
      map (\<lambda>d. (ac_ws d, request_frame req)) (accepted (devicesForAccount h acc) ws)
      @ (if devicesForAccount h acc = [] then []
         else map (\<lambda>d. (ac_ws d, withdraw_frame (tr_ID req)))
           (accepted (devicesForAccount h' acc) (sdrop (length (devicesForAccount h acc)) ws))))"

lemma rl_allow_world:
  "rl_allow k rl w = (okay, rl', w') \<Longrightarrow>
     wd_sent w' = wd_sent w \<and> wd_writes w' = wd_writes w \<and> wd_entropy w' = wd_entropy w"
  by (auto simp: rl_allow_def kl_allow_def time_Now_def Let_def split: option.splits prod.splits)

lemma kl_allow_world:
  "kl_allow rate burst kl w = (okay, kl', w') \<Longrightarrow>
     wd_sent w' = wd_sent w \<and> wd_writes w' = wd_writes w \<and> wd_entropy w' = wd_entropy w"
  by (auto simp: kl_allow_def time_Now_def Let_def split: prod.splits)

lemma online_devices: "accountOnline h acc \<longleftrightarrow> devicesForAccount h acc \<noteq> []"
  by (simp add: accountOnline_def devices_rev)

text \<open>Every run of the handler that gets as far as the hub.\<close>

lemma create_reaches_hub:
  assumes "rq_Method r = ''POST''" "authKey S r (sv_store s) = ((key, True), st)"
    "rl_allow (k_ID key) (sv_rl s) (sv_world s) = (True, rl, w)"
    "decode_struct maxRequestBodyBytes body_fields (rq_Body r) = Some body"
    "fst (buildTxRequest B key body w) = Inr req" "accountOnline (sv_hub s) (k_OwnerAccount key)"
    "sendRequest wt (k_OwnerAccount key) req (sv_hub s) (snd (buildTxRequest B key body w)) = (res, h, w2)"
  shows "handleCreateRequest S B wt r rw s =
    (case res of
       Inl e \<Rightarrow> if e = errAccountOffline then device_offline rw else timed_out rw
     | Inr result \<Rightarrow> writeJSON 200 (ResultJSON result) rw,
     s\<lparr>sv_store := st, sv_rl := rl, sv_hub := h, sv_world := w2\<rparr>)"
proof -
  obtain w1 where "buildTxRequest B key body w = (Inr req, w1)" using assms(5) by (metis prod.collapse)
  with assms show ?thesis
    by (simp add: handleCreateRequest_def Let_def split: sum.split)
qed

lemma writeJSON_simps [simp]:
  "rs_Status (writeJSON n v rw) = n" "rs_Body (writeJSON n v rw) = v"
  "rs_Status (writeJSONError n m rw) = n" "rs_Body (writeJSONError n m rw) = ErrorJSON m"
  "rs_Status (raw_data d rw) = 200" "rs_Body (raw_data d rw) = Bytes d"
  "rs_Status (respond n v rw) = n" "rs_Body (respond n v rw) = v"
  by (simp_all add: writeJSON_def writeJSONError_def raw_data_def respond_def)

lemma refusals [simp]:
  "rs_Status (invalid_key rw) = 401" "rs_Body (invalid_key rw) = ErrorJSON ''invalid API key''"
  "rs_Status (device_offline rw) = 503"
  "rs_Body (device_offline rw) = ErrorJSON ''the account's device is offline''"
  "rs_Status (timed_out rw) = 504" "rs_Body (timed_out rw) = ErrorJSON ''timed out waiting for the device''"
  "rs_Status (rate_limited rw) = 429" "rs_Body (rate_limited rw) = ErrorJSON ''rate limit exceeded''"
  by (simp_all add: invalid_key_def device_offline_def timed_out_def rate_limited_def)

lemma outcome_not_offline: "outcome wt x = Inl e \<Longrightarrow> e \<noteq> errAccountOffline"
  by (cases "wt_ctx_err wt") (auto simp: outcome_def errAccountOffline_def split: option.splits if_splits)

text \<open>Every run that stops before the hub writes nothing and leaves the hub alone.\<close>

lemma create_stops:
  assumes "blake2b_ok B" "authKey S r (sv_store s) = ((key, ok), st)"
    "rl_allow (k_ID key) (sv_rl s) (sv_world s) = (allowed, rl, w)"
    "handleCreateRequest S B wt r rw s = (rw', s')"
    and stop: "\<not> (rq_Method r = ''POST'' \<and> ok \<and> allowed \<and>
      (\<exists>body req. decode_struct maxRequestBodyBytes body_fields (rq_Body r) = Some body
        \<and> fst (buildTxRequest B key body w) = Inr req \<and> accountOnline (sv_hub s) (k_OwnerAccount key)))"
  shows "sv_hub s' = sv_hub s \<and> wd_sent (sv_world s') = wd_sent (sv_world s)
    \<and> (rs_Status rw', rs_Body rw') =
    (if rq_Method r \<noteq> ''POST'' then (405, ErrorJSON ''use POST'')
     else if \<not> ok then (401, ErrorJSON ''invalid API key'')
     else if \<not> allowed then (429, ErrorJSON ''rate limit exceeded'')
     else case decode_struct maxRequestBodyBytes body_fields (rq_Body r) of
            None \<Rightarrow> (400, ErrorJSON ''invalid JSON body'')
          | Some body \<Rightarrow>
              (case fst (buildTxRequest B key body w) of
                 Inl e \<Rightarrow> (400, ErrorJSON (error_text e))
               | Inr req \<Rightarrow> (503, ErrorJSON ''the account's device is offline'')))"
proof (cases "rq_Method r = ''POST'' \<and> ok \<and> allowed")
  case False
  then show ?thesis using assms(2-4) rl_allow_world [OF assms(3)]
    by (auto simp: handleCreateRequest_def Let_def split: if_splits)
next
  case go: True
  note w = rl_allow_world [OF assms(3)]
  show ?thesis
  proof (cases "decode_struct maxRequestBodyBytes body_fields (rq_Body r)")
    case None
    then show ?thesis using assms(2-4) go w by (auto simp: handleCreateRequest_def Let_def)
  next
    case (Some body)
    obtain built w1 where b: "buildTxRequest B key body w = (built, w1)" by fastforce
    have w1: "wd_sent w1 = wd_sent w" using build_world [of B key body w] b by simp
    show ?thesis
    proof (cases built)
      case (Inl e)
      obtain msg where "e = GoErr msg"
        using build_no_panic [OF assms(1), of key body w] b Inl by (cases e) auto
      then show ?thesis using assms(2-4) go w w1 Some b Inl
        by (auto simp: handleCreateRequest_def Let_def)
    next
      case (Inr req)
      then have "\<not> accountOnline (sv_hub s) (k_OwnerAccount key)" using stop go Some b by auto
      then show ?thesis using assms(2-4) go w w1 Some b Inr
        by (auto simp: handleCreateRequest_def Let_def)
    qed
  qed
qed

subsection \<open>A sample run\<close>

text \<open>
  The device of account \<open>acc\<close> is bound, the key \<open>k1\<close> of that account has the secret \<open>old\<close>, and the
  caller asks for one raw to be sent; while the caller waits, the device answers.
\<close>

definition sample_dest :: string where
  "sample_dest = (case Address pad_hash (replicate 32 0) of Inl _ \<Rightarrow> [] | Inr a \<Rightarrow> a)"

lemma sample_dest_ok: "ParseAddress pad_hash sample_dest = Inr (replicate 32 0)"
  using parse_of_address [OF pad_hash_ok, of "replicate 32 0"] by (auto simp: sample_dest_def)

lemma sample_dest_text: "utf8_valid sample_dest \<and> length sample_dest = 65"
proof -
  obtain acc cs where a: "Address pad_hash (replicate 32 0) = Inr (''nano_'' @ acc @ cs)"
    "length acc = 52" "length cs = 8" "base32_text acc" "base32_text cs"
    using Address_parts [OF pad_hash_ok, of "replicate 32 0"] by (metis length_replicate)
  have "list_all (\<lambda>c. ord c < 0x80) t" if "base32_text t" for t
    using that nanoAlphabet_ascii by (auto simp: list_all_iff)
  then have "list_all (\<lambda>c. ord c < 0x80) (''nano_'' @ acc @ cs)" using a(4,5) by simp
  then show ?thesis using a(1-3) utf8_ascii by (simp add: sample_dest_def)
qed

definition sample_body :: createRequestBody where
  "sample_body = \<lparr>cb_Kind = ''send'', cb_Destination = sample_dest, cb_AmountRaw = ''1'', cb_Amount = [],
     cb_Counterparty = [], cb_Memo = [], cb_Nonce = ''n1'', cb_Action = []\<rparr>"

definition sample_request :: Request where
  "sample_request = \<lparr>rq_Method = ''POST'', rq_Path = ''/v1/requests'', rq_RawQuery = [],
     rq_Header = (\<lambda>k. if k = ''Authorization'' then ''Bearer old'' else []),
     rq_Body = marshal_body sample_body\<rparr>"

definition online_server :: "sqliteStore server" where
  "online_server = sql_server\<lparr>sv_hub := Hub.bind dev_acc newHub\<rparr>"

definition sample_key :: APIKey where
  "sample_key = \<lparr>k_ID = ''k1'', k_OwnerAccount = ''acc'', k_AllowedOrigins = []\<rparr>"

definition sample_id :: string where
  "sample_id = ''req_'' @ EncodeToString (replicate 12 0)"

definition sample_wait :: wait where
  "sample_wait = \<lparr>wt_events = [EvResult (result1 sample_id)], wt_ctx_first = False, wt_ctx_err = DeadlineExceeded\<rparr>"

lemma sample_decode: "decode_struct maxRequestBodyBytes body_fields (rq_Body sample_request) = Some sample_body"
proof -
  have ok: "utf8_valid ''send''" "utf8_valid ''1''" "utf8_valid ''n1''" "utf8_valid []"
    by (rule utf8_ascii, simp)+
  have "body_ok sample_body" by (simp add: body_ok_def sample_body_def ok sample_dest_text)
  moreover note l = length_marshal_string [of "''kind''"] length_marshal_string [of "''send''"]
    length_marshal_string [of "''destination''"] length_marshal_string [of sample_dest]
    length_marshal_string [of "''amount_raw''"] length_marshal_string [of "''1''"]
    length_marshal_string [of "''nonce''"] length_marshal_string [of "''n1''"]
  have "length (marshal_body sample_body) \<le> maxRequestBodyBytes"
    using l sample_dest_text by (simp add: marshal_body_def sample_body_def body_members_def omitempty_def
        marshal_member_def maxRequestBodyBytes_def)
  ultimately show ?thesis using decode_marshal_body [of sample_body maxRequestBodyBytes "[]"]
    by (simp add: sample_request_def)
qed

lemma trim_old: "TrimSpace ''old'' = ''old''"
proof -
  have "strip_any space_seqs ''old'' = None" "strip_any (map rev space_seqs) ''dlo'' = None"
    by (simp_all add: space_seqs_def HasPrefix_def)
  then have "trim_front space_seqs ''old'' = ''old''" "trim_front (map rev space_seqs) ''dlo'' = ''dlo''"
    by (subst trim_front.simps, simp)+
  then show ?thesis by (simp add: TrimSpace_def)
qed

lemma sample_auth:
  "authKey sqlite_store sample_request sql_sample = ((sample_key, True), snd (sql_ResolveAPIKey sql_sample ''old''))"
proof -
  have h: "rq_Header sample_request ''Authorization'' = ''Bearer '' @ ''old''" by (simp add: sample_request_def)
  have t: "TrimPrefix (''Bearer '' @ ''old'') ''Bearer '' = ''old''" by (rule TrimPrefix_append)
  obtain st where r: "sql_ResolveAPIKey sql_sample ''old'' = (Inr sample_key, st)"
    using sample_resolve(2) unfolding sample_key_def by (metis prod.collapse)
  show ?thesis unfolding authKey_def h Let_def t trim_old using r by simp
qed

lemma sample_limit:
  obtains rl where "rl_allow ''k1'' (sv_rl online_server) world1
    = (True, rl, world1\<lparr>wd_clock := stl (stl (wd_clock world1))\<rparr>)"
proof -
  have "round64 20 = 20" "round64 19 = 19" using f64.rnd_int [of 20] f64.rnd_int [of 19] by simp_all
  then have "kl_allow_at 5 20 0 \<lparr>kl_tokens = 20, kl_last = 0\<rparr> = (True, \<lparr>kl_tokens = 19, kl_last = 0\<rparr>)"
    by (simp add: kl_allow_at_def Sub_def)
  then show ?thesis using that
    by (simp add: online_server_def sql_server_def newServer_def newRateLimiter_def rl_allow_def kl_allow_def
        time_Now_def world1_def)
qed

lemma sample_devices: "devicesForAccount (sv_hub online_server) ''acc'' = [dev_acc]"
proof -
  have "bound_to newHub ''acc'' = []" by (simp add: bound_to_def newHub_def)
  then show ?thesis by (simp add: online_server_def devices_rev bind_bound dev_acc_def)
qed

lemma sample_build:
  "wd_entropy w = sconst 0 \<Longrightarrow> fst (buildTxRequest pad_hash sample_key sample_body w)
     = Inr (tx_request sample_key sample_body ''1'' w)"
  "wd_entropy w = sconst 0 \<Longrightarrow> tr_ID (tx_request sample_key sample_body ''1'' w) = sample_id"
  by (simp_all add: build_accepts [OF pad_hash_ok] sample_body_def KindSend_def sample_dest_ok
      resolveAmount_def tx_request_def sample_id_def map_replicate_const Let_def)

lemma online_server_sel [simp]:
  "sv_store online_server = sql_sample" "sv_world online_server = world1" "hub_wf (sv_hub online_server)"
  by (simp_all add: online_server_def hub_wf_def newHub_def)

text \<open>
  C6. What the caller is answered. The handler's answer as a function of the request: wrong method,
  no valid key, rate limit, undecodable body, request that cannot be built, no device that takes the
  request, no answer in time, and otherwise the first result a device delivered for this request's
  own identifier; in this order, each with its status and text.
\<close>

theorem create_answers:
  assumes "blake2b_ok B" "hub_wf (sv_hub s)" "authKey S r (sv_store s) = ((key, ok), st)"
    "rl_allow (k_ID key) (sv_rl s) (sv_world s) = (allowed, rl, w)"
    "handleCreateRequest S B wt r rw s = (rw', s')"
  shows "(rs_Status rw', rs_Body rw') =
    (if rq_Method r \<noteq> ''POST'' then (405, ErrorJSON ''use POST'')
     else if \<not> ok then (401, ErrorJSON ''invalid API key'')
     else if \<not> allowed then (429, ErrorJSON ''rate limit exceeded'')
     else case decode_struct maxRequestBodyBytes body_fields (rq_Body r) of
            None \<Rightarrow> (400, ErrorJSON ''invalid JSON body'')
          | Some body \<Rightarrow>
              (case fst (buildTxRequest B key body w) of
                 Inl e \<Rightarrow> (400, ErrorJSON (error_text e))
               | Inr req \<Rightarrow>
                   if accepted (devicesForAccount (sv_hub s) (k_OwnerAccount key)) (wd_writes w) = []
                   then (503, ErrorJSON ''the account's device is offline'')
                   else (case outcome wt (first_for (tr_ID req) (wt_events wt)) of
                           Inl e \<Rightarrow> (504, ErrorJSON ''timed out waiting for the device'')
                         | Inr result \<Rightarrow> (200, ResultJSON result))))"
proof (cases "rq_Method r = ''POST'' \<and> ok \<and> allowed \<and>
      (\<exists>body req. decode_struct maxRequestBodyBytes body_fields (rq_Body r) = Some body
        \<and> fst (buildTxRequest B key body w) = Inr req \<and> accountOnline (sv_hub s) (k_OwnerAccount key))")
  case False
  show ?thesis
  proof (cases "accountOnline (sv_hub s) (k_OwnerAccount key)")
    case True
    then show ?thesis using create_stops [OF assms(1,3,4,5) False] False
      by (auto split: option.splits sum.splits)
  next
    case off: False
    then show ?thesis using create_stops [OF assms(1,3,4,5) False]
      by (simp add: online_devices split: option.splits sum.splits)
  qed
next
  case True
  then obtain body req where go: "rq_Method r = ''POST''" "ok = True" "allowed = True"
    "decode_struct maxRequestBodyBytes body_fields (rq_Body r) = Some body"
    "fst (buildTxRequest B key body w) = Inr req" "accountOnline (sv_hub s) (k_OwnerAccount key)"
    by blast
  obtain res h w2 where send: "sendRequest wt (k_OwnerAccount key) req (sv_hub s)
      (snd (buildTxRequest B key body w)) = (res, h, w2)" using prod_cases3 by blast
  have auth: "authKey S r (sv_store s) = ((key, True), st)"
    and lim: "rl_allow (k_ID key) (sv_rl s) (sv_world s) = (True, rl, w)"
    using assms(3,4) go(2,3) by simp_all
  have "rw' = (case res of
       Inl e \<Rightarrow> if e = errAccountOffline then device_offline rw else timed_out rw
     | Inr result \<Rightarrow> writeJSON 200 (ResultJSON result) rw)"
    using create_reaches_hub [OF go(1) auth lim go(4-6) send] assms(5) by simp
  moreover have "wd_writes (snd (buildTxRequest B key body w)) = wd_writes w" by (simp add: build_world)
  then have "res = (if accepted (devicesForAccount (sv_hub s) (k_OwnerAccount key)) (wd_writes w) = []
      then Inl errAccountOffline else outcome wt (first_for (tr_ID req) (wt_events wt)))"
    using request_result [OF assms(2) send] by simp
  ultimately show ?thesis using go outcome_not_offline [of wt "first_for (tr_ID req) (wt_events wt)"]
    by (auto split: sum.split)
qed

theorem create_answers_witness:
  "rs_Status (fst (handleCreateRequest sqlite_store pad_hash sample_wait sample_request newResponse online_server)) = 200
   \<and> rs_Body (fst (handleCreateRequest sqlite_store pad_hash sample_wait sample_request newResponse online_server))
       = ResultJSON (result1 sample_id)"
proof -
  obtain rw' s' where run: "handleCreateRequest sqlite_store pad_hash sample_wait sample_request newResponse online_server
      = (rw', s')" by fastforce
  obtain rl where lim: "rl_allow (k_ID sample_key) (sv_rl online_server) (sv_world online_server)
      = (True, rl, world1\<lparr>wd_clock := stl (stl (wd_clock world1))\<rparr>)"
    using sample_limit by (auto simp: sample_key_def)
  let ?w = "world1\<lparr>wd_clock := stl (stl (wd_clock world1))\<rparr>"
  have e: "wd_entropy ?w = sconst 0" by (simp add: world1_def)
  have "(rs_Status rw', rs_Body rw') = (200, ResultJSON (result1 sample_id))"
    using create_answers [OF pad_hash_ok _ _ lim run] sample_auth
    by (simp add: sample_decode sample_build [OF e])
       (simp add: sample_key_def sample_devices sample_request_def world1_def outcome_def sample_wait_def
          first_for_def result1_def)
  then show ?thesis using run by simp
qed

text \<open>
  C5. What a caller can make the relay send. If the handler writes any frame, the request was a POST
  with a valid key within its rate limit; the frames are exactly one request and one withdrawal to
  each device of the account that owns the key (where the write succeeds); and the request names that key and that
  account, is a send to a well-formed address with an amount, carries a nonce, and its only override
  is to sign without broadcasting. No input of the caller changes the account or the key id.
\<close>

theorem create_sends:
  assumes "blake2b_ok B" "handleCreateRequest S B wt r rw s = (rw', s')"
    "wd_sent (sv_world s') \<noteq> wd_sent (sv_world s)"
  shows "\<exists>key st rl w body amount req. rq_Method r = ''POST'' \<and> authKey S r (sv_store s) = ((key, True), st)
    \<and> rl_allow (k_ID key) (sv_rl s) (sv_world s) = (True, rl, w)
    \<and> decode_struct maxRequestBodyBytes body_fields (rq_Body r) = Some body
    \<and> cb_Kind body = KindSend \<and> (\<exists>pub. ParseAddress B (cb_Destination body) = Inr pub)
    \<and> resolveAmount body = Inr amount \<and> req = tx_request key body amount w
    \<and> wd_sent (sv_world s') = wd_sent (sv_world s)
        @ request_trace req (sv_hub s) (sv_hub s') (wd_writes (sv_world s))"
proof -
  obtain key ok st where auth: "authKey S r (sv_store s) = ((key, ok), st)" by (metis prod.collapse)
  obtain allowed rl w where lim: "rl_allow (k_ID key) (sv_rl s) (sv_world s) = (allowed, rl, w)"
    using prod_cases3 by blast
  obtain body req where go: "rq_Method r = ''POST''" "ok = True" "allowed = True"
    "decode_struct maxRequestBodyBytes body_fields (rq_Body r) = Some body"
    "fst (buildTxRequest B key body w) = Inr req" "accountOnline (sv_hub s) (k_OwnerAccount key)"
    using create_stops [OF assms(1) auth lim assms(2)] assms(3) by blast
  obtain res h w2 where send: "sendRequest wt (k_OwnerAccount key) req (sv_hub s)
      (snd (buildTxRequest B key body w)) = (res, h, w2)" using prod_cases3 by blast
  have s': "sv_hub s' = h" "sv_world s' = w2"
    using create_reaches_hub [OF go(1) auth [unfolded go(2)] lim [unfolded go(3)] go(4-6) send] assms(2) by auto
  obtain amount where b: "cb_Kind body = KindSend" "\<exists>pub. ParseAddress B (cb_Destination body) = Inr pub"
    "resolveAmount body = Inr amount" "req = tx_request key body amount w"
    using go(5) unfolding build_accepts [OF assms(1)] by blast
  have "tr_Account req = k_OwnerAccount key" by (simp add: b(4) tx_request_def Let_def)
  then have "wd_sent w2 = wd_sent (sv_world s) @ request_trace req (sv_hub s) h (wd_writes (sv_world s))"
    using request_written [OF send] rl_allow_world [OF lim] by (simp add: build_world request_trace_def Let_def)
  then show ?thesis using auth lim go(1-4) b s' by blast
qed

lemma sample_sends:
  "wd_sent (sv_world (snd (handleCreateRequest sqlite_store pad_hash wt sample_request rw online_server))) \<noteq> []"
proof -
  obtain rl where lim: "rl_allow (k_ID sample_key) (sv_rl online_server) (sv_world online_server)
      = (True, rl, world1\<lparr>wd_clock := stl (stl (wd_clock world1))\<rparr>)"
    using sample_limit by (auto simp: sample_key_def)
  let ?w = "world1\<lparr>wd_clock := stl (stl (wd_clock world1))\<rparr>"
  let ?req = "tx_request sample_key sample_body ''1'' ?w"
  have e: "wd_entropy ?w = sconst 0" by (simp add: world1_def)
  have on: "accountOnline (sv_hub online_server) (k_OwnerAccount sample_key)"
    by (simp add: online_devices sample_devices sample_key_def)
  obtain res h w2 where send: "sendRequest wt (k_OwnerAccount sample_key) ?req (sv_hub online_server)
      (snd (buildTxRequest pad_hash sample_key sample_body ?w)) = (res, h, w2)" using prod_cases3 by blast
  have "rq_Method sample_request = ''POST''" by (simp add: sample_request_def)
  note run = create_reaches_hub [OF this _ lim sample_decode sample_build(1) [OF e] on send]
  have "wd_sent w2 \<noteq> []"
    using request_written [OF send] by (simp add: sample_key_def sample_devices build_world world1_def)
  then show ?thesis using run [of sqlite_store _ rw] sample_auth by simp
qed

theorem create_sends_witness:
  "\<exists>req rest. wd_sent (sv_world (snd (handleCreateRequest sqlite_store pad_hash sample_wait
       sample_request newResponse online_server)))
     = (1, request_frame req) # rest \<and> tr_Account req = ''acc'' \<and> tr_ContactID req = ''k1''
     \<and> tr_Destination req = sample_dest \<and> tr_AmountRaw req = ''1'' \<and> tr_Nonce req = ''n1''"
proof -
  obtain rw' s' where run: "handleCreateRequest sqlite_store pad_hash sample_wait sample_request newResponse online_server
      = (rw', s')" by fastforce
  have "wd_sent (sv_world s') \<noteq> wd_sent (sv_world online_server)"
    using sample_sends [of sample_wait newResponse] run by (simp add: world1_def)
  then obtain key st w body amount req where c: "authKey sqlite_store sample_request sql_sample = ((key, True), st)"
    "decode_struct maxRequestBodyBytes body_fields (rq_Body sample_request) = Some body"
    "resolveAmount body = Inr amount" "req = tx_request key body amount w"
    "wd_sent (sv_world s') = request_trace req (sv_hub online_server) (sv_hub s') (wd_writes world1)"
    using create_sends [OF pad_hash_ok run] by (auto simp: world1_def)
  have "key = sample_key" "body = sample_body" using c(1,2) sample_auth sample_decode by simp_all
  moreover from this have "amount = ''1''" using c(3) by (simp add: resolveAmount_def sample_body_def)
  ultimately have r: "tr_Account req = ''acc''" "tr_ContactID req = ''k1''" "tr_Destination req = sample_dest"
    "tr_AmountRaw req = ''1''" "tr_Nonce req = ''n1''"
    by (simp_all add: c(4) tx_request_def sample_key_def sample_body_def Let_def)
  have "accepted [dev_acc] (wd_writes world1) = [dev_acc]" "ac_ws dev_acc = 1"
    by (simp_all add: world1_def dev_acc_def)
  then have "\<exists>rest. wd_sent (sv_world s') = (1, request_frame req) # rest"
    using c(5) r(1) by (simp add: request_trace_def sample_devices)
  then show ?thesis using r by (simp add: run) blast
qed

section \<open>Queries\<close>

definition query_id :: "World \<Rightarrow> string" where
  "query_id w = ''qry_'' @ EncodeToString (stake 12 (wd_entropy w))"

definition query_effect :: "wait \<Rightarrow> APIKey \<Rightarrow> string \<Rightarrow> string \<Rightarrow> string option \<Rightarrow> Response \<Rightarrow>
    's server \<Rightarrow> Response \<times> 's server \<Rightarrow> bool" where
  "query_effect wt key op nonce missing rw s out \<longleftrightarrow>
     (let ds = devicesForAccount (sv_hub s) (k_OwnerAccount key);
          qid = query_id (sv_world s);
          query = \<lparr>q_Op = op, q_ContactID = k_ID key, q_Account = k_OwnerAccount key, q_Nonce = nonce\<rparr>;
          (rw', s') = out
      in sv_store s' = sv_store s \<and> sv_rl s' = sv_rl s \<and> hub_wf (sv_hub s')
        \<and> (case first_accepting ds (wd_writes (sv_world s)) of
             None \<Rightarrow> wd_sent (sv_world s') = wd_sent (sv_world s) \<and> rw' = device_offline rw
           | Some d \<Rightarrow> wd_sent (sv_world s') = wd_sent (sv_world s) @ [(ac_ws d, query_frame qid query)]
               \<and> (case outcome wt (first_query_for qid (wt_events wt)) of
                    Inl _ \<Rightarrow> rw' = timed_out rw
                  | Inr qr \<Rightarrow>
                      if missing \<noteq> None \<and> qr_Error qr = ''not_found'' then rw' = writeJSONError 404 (the missing) rw
                      else if qr_Error qr \<noteq> [] then rw' = writeJSONError 502 (qr_Error qr) rw
                      else rw' = raw_data (qr_Data qr) rw)))"

lemma run_query_effect:
  assumes "hub_wf (sv_hub s)"
  shows "query_effect wt key op nonce missing rw s (run_query wt key op nonce missing rw s)"
proof -
  define ds where "ds = devicesForAccount (sv_hub s) (k_OwnerAccount key)"
  define qid where "qid = query_id (sv_world s)"
  define query where "query = \<lparr>q_Op = op, q_ContactID = k_ID key, q_Account = k_OwnerAccount key, q_Nonce = nonce\<rparr>"
  note defs = ds_def [symmetric] qid_def [symmetric] query_def [symmetric]
  show ?thesis
  proof (cases "ds = []")
    case True
    then show ?thesis using assms
      by (simp add: query_effect_def run_query_def online_devices defs first_accepting_def)
  next
    case False
    obtain res h w where send: "sendQuery wt (k_OwnerAccount key) query (sv_hub s) (sv_world s) = (res, h, w)"
      using prod_cases3 by blast
    have run: "run_query wt key op nonce missing rw s
        = (query_answer missing res rw, s\<lparr>sv_hub := h, sv_world := w\<rparr>)"
      using False send by (simp add: run_query_def online_devices defs)
    note q = query_result [OF assms send False [unfolded ds_def], folded ds_def, unfolded Let_def, folded query_id_def, folded qid_def]
    show ?thesis
    proof (cases "first_accepting ds (wd_writes (sv_world s))")
      case None
      then show ?thesis using q by (simp add: run query_effect_def defs query_answer_def)
    next
      case (Some d)
      then have res: "res = outcome wt (first_query_for qid (wt_events wt))" using q by simp
      show ?thesis
      proof (cases res)
        case (Inl e)
        then have "e \<noteq> errAccountOffline" using res outcome_not_offline by metis
        then show ?thesis using q Some res [symmetric] Inl
          by (simp add: run query_effect_def defs query_answer_def)
      next
        case (Inr qr)
        then show ?thesis using q Some res [symmetric]
          by (auto simp: run query_effect_def defs query_answer_def split: option.split)
      qed
    qed
  qed
qed

text \<open>
  C20. The device-backed endpoints. Settings, balance, activity, the status of a request and the
  broadcast of a signed block all end in one query on behalf of the key: it is written to at most one
  device of the account that owns the key, with that key's id and account and a fresh identifier; the
  caller gets the device's payload unchanged, or 502 with the device's own error, 404 where the
  endpoint knows that answer, 504 when nothing arrives in time, and 503 when no device takes the
  query. Nothing but the hub and the outside world changes.
\<close>

theorem query_endpoints:
  assumes "hub_wf (sv_hub s)" "authKey S r (sv_store s) = ((key, True), st)"
  shows "(rq_Method r = ''GET'' \<longrightarrow>
      query_effect wt key op [] None rw (s\<lparr>sv_store := st\<rparr>) (deviceQuery S wt op r rw s))
    \<and> (rq_Method r = ''GET'' \<longrightarrow> TrimSpace (query_get (rq_RawQuery r) ''nonce'') = nonce \<longrightarrow> nonce \<noteq> [] \<longrightarrow>
      query_effect wt key ''request_status'' nonce (Some no_completed_request) rw (s\<lparr>sv_store := st\<rparr>)
        (handleRequestStatus S wt r rw s))
    \<and> (rq_Method r = ''POST'' \<longrightarrow> rl_allow (k_ID key) (sv_rl s) (sv_world s) = (True, rl, w) \<longrightarrow>
      decode_struct 4096 (\<lambda>ms. string_field ''nonce'' ms []) (rq_Body r) = Some nonce \<longrightarrow> nonce \<noteq> [] \<longrightarrow>
      query_effect wt key ''broadcast_nonce'' nonce (Some no_signed_block) rw
        (s\<lparr>sv_store := st, sv_rl := rl, sv_world := w\<rparr>) (handleBroadcast S wt r rw s))"
  using assms run_query_effect [where s = "s\<lparr>sv_store := st\<rparr>"] run_query_effect [where s = "s\<lparr>sv_store := st, sv_rl := rl, sv_world := w\<rparr>"]
  by (auto simp: deviceQuery_def handleRequestStatus_def handleBroadcast_def Let_def)

theorem query_endpoints_witness:
  "query_effect sample_wait sample_key ''balance'' [] None newResponse
     (online_server\<lparr>sv_store := snd (sql_ResolveAPIKey sql_sample ''old'')\<rparr>)
     (handleBalance sqlite_store sample_wait (sample_request\<lparr>rq_Method := ''GET''\<rparr>) newResponse online_server)"
proof -
  have "authKey sqlite_store (sample_request\<lparr>rq_Method := ''GET''\<rparr>) sql_sample
      = authKey sqlite_store sample_request sql_sample"
    by (simp add: authKey_def)
  then show ?thesis
    using query_endpoints [of online_server sqlite_store "sample_request\<lparr>rq_Method := ''GET''\<rparr>" sample_key] sample_auth
    by (simp add: handleBalance_def)
qed

section \<open>Authentication\<close>

text \<open>
  C18. Nothing happens without a key. A request to the API whose key is not accepted is refused (401,
  or 405, 404 and a redirect for a wrong method or path) before the rate limiter, the hub or the outside
  world is touched; the answer names no account.
\<close>

theorem unauthenticated_refused:
  assumes "HasPrefix (rq_Path r) ''/v1/''" "authKey S r (sv_store s) = ((key, False), st)"
    and "mux S B E up wt r rw s = (rw', s')"
  shows "rs_Status rw' \<in> {301, 401, 404, 405} \<and> (s' = s \<or> s' = s\<lparr>sv_store := st\<rparr>)
    \<and> (rs_Status rw' = 401 \<longrightarrow> rs_Body rw' = ErrorJSON ''invalid API key'')"
proof -
  have p: "rq_Path r \<noteq> ''/agent''" "rq_Path r \<noteq> ''/healthz''"
    using assms(1) by (auto simp: HasPrefix_def)
  have redir: "rs_Status (redirect r x rw) = 301" for x by (simp add: redirect_def Let_def)
  have "rs_Status (not_found rw) = 404" by (simp add: not_found_def)
  then show ?thesis using assms(2,3) p redir
    by (auto simp: mux_def Let_def handleCreateRequest_def handleRequestStatus_def handleBroadcast_def
        handleStatus_def handleSettings_def handleBalance_def handleActivity_def deviceQuery_def
        split: if_splits)
qed

theorem unauthenticated_refused_witness:
  "rs_Status (fst (mux sqlite_store pad_hash toy (\<lambda>_ rw. Inl rw) sample_wait (sample_request\<lparr>rq_Header := \<lambda>_. []\<rparr>)
     newResponse online_server)) \<in> {301, 401, 404, 405}
   \<and> sv_hub (snd (mux sqlite_store pad_hash toy (\<lambda>_ rw. Inl rw) sample_wait (sample_request\<lparr>rq_Header := \<lambda>_. []\<rparr>)
     newResponse online_server)) = sv_hub online_server"
proof -
  let ?r = "sample_request\<lparr>rq_Header := \<lambda>_. []\<rparr>"
  obtain rw' s' where run: "mux sqlite_store pad_hash toy (\<lambda>_ rw. Inl rw) sample_wait ?r newResponse online_server
      = (rw', s')" by fastforce
  have "strip_any ps [] = None" for ps by (induction ps) (auto simp: HasPrefix_def)
  then have "TrimSpace [] = []" by (simp add: TrimSpace_def trim_front.simps)
  then have "authKey sqlite_store ?r (sv_store online_server) = ((zero_APIKey, False), sql_sample)"
    by (simp add: authKey_def TrimPrefix_def)
  moreover have "HasPrefix (rq_Path ?r) ''/v1/''" by (simp add: sample_request_def HasPrefix_def)
  ultimately have "rs_Status rw' \<in> {301, 401, 404, 405}
      \<and> (s' = online_server \<or> s' = online_server\<lparr>sv_store := sql_sample\<rparr>)"
    using unauthenticated_refused [OF _ _ run] by blast
  then show ?thesis using run by auto
qed

text \<open>The secret a header carries, as the handler extracts it.\<close>

definition bearer :: "Request \<Rightarrow> string" where
  "bearer r = TrimSpace (TrimPrefix (rq_Header r ''Authorization'') ''Bearer '')"

text \<open>
  Who is let in. Over the SQLite store a caller is accepted only as the key whose hash its secret
  has, and when no statement fails it is accepted exactly if the secret is not empty, differs from
  the header and has the hash of a registered key. Looking a key up changes nothing in the store.
\<close>

theorem key_accepted:
  assumes "sql_inv s" "authKey sqlite_store r s = ((key, ok), s')"
  shows "sql_inv s' \<and> sql_view s' = sql_view s
    \<and> (ok \<longrightarrow> bearer r \<noteq> [] \<and> bearer r \<noteq> rq_Header r ''Authorization''
        \<and> abs_resolve (sql_view s) (hashSecret (bearer r)) = Some key)
    \<and> (sql_up s \<longrightarrow> (ok \<longleftrightarrow> bearer r \<noteq> [] \<and> bearer r \<noteq> rq_Header r ''Authorization''
        \<and> (\<exists>k. abs_resolve (sql_view s) (hashSecret (bearer r)) = Some k)))"
proof (cases "bearer r = [] \<or> bearer r = rq_Header r ''Authorization''")
  case True
  then show ?thesis using assms by (auto simp: authKey_def bearer_def Let_def)
next
  case False
  obtain q st where q: "sql_ResolveAPIKey s (bearer r) = (q, st)" by fastforce
  note c = sq.resolve [unfolded sqlite_ops, OF assms(1) q]
  have c': "sql_inv st" "sql_view st = sql_view s" using c by blast+
  show ?thesis
  proof (cases q)
    case (Inl e)
    then have "\<not> ok" "s' = st" using assms(2) q False by (simp_all add: authKey_def bearer_def Let_def)
    moreover have "abs_resolve (sql_view s) (hashSecret (bearer r)) = None" if "sql_up s"
    proof -
      have "q = (case abs_resolve (sql_view s) (hashSecret (bearer r)) of
          None \<Rightarrow> Inl ErrNotFound | Some k \<Rightarrow> Inr k)" using c that by blast
      then show ?thesis using Inl by (simp split: option.splits)
    qed
    ultimately show ?thesis using c' by simp
  next
    case (Inr k)
    then have "ok" "s' = st" "key = k" using assms(2) q False by (simp_all add: authKey_def bearer_def Let_def)
    moreover have "abs_resolve (sql_view s) (hashSecret (bearer r)) = Some k" using c Inr by blast
    ultimately show ?thesis using c' False by simp
  qed
qed

theorem key_accepted_witness:
  "abs_resolve (sql_view sql_sample) (hashSecret (bearer sample_request)) = Some sample_key"
  using key_accepted [OF sample_ok(2) sample_auth] by simp

text \<open>
  The scheme is not always required. A header that holds a registered secret after a no-break
  space (U+00A0, which is a space to \<^verbatim>\<open>TrimSpace\<close> but an ordinary character to HTTP) and no
  \<^verbatim>\<open>Bearer\<close> at all is accepted.
\<close>

theorem scheme_not_required:
  assumes "sql_inv s" "sql_up s" "TrimSpace secret = secret" "secret \<noteq> []"
    "abs_resolve (sql_view s) (hashSecret secret) = Some key"
    and "rq_Header r ''Authorization'' = CHR 0xC2 # CHR 0xA0 # secret"
  shows "fst (authKey sqlite_store r s) = (key, True)"
proof -
  have "TrimPrefix (CHR 0xC2 # CHR 0xA0 # secret) ''Bearer '' = CHR 0xC2 # CHR 0xA0 # secret"
    by (simp add: TrimPrefix_def HasPrefix_def)
  moreover have "strip_any space_seqs (CHR 0xC2 # CHR 0xA0 # secret) = Some secret"
    by (simp add: space_seqs_def HasPrefix_def)
  then have "trim_front space_seqs (CHR 0xC2 # CHR 0xA0 # secret) = trim_front space_seqs secret"
    by (subst trim_front.simps) simp
  ultimately have t: "TrimSpace (TrimPrefix (rq_Header r ''Authorization'') ''Bearer '') = secret"
    using assms(3,6) by (simp add: TrimSpace_def)
  obtain q st where q: "sql_ResolveAPIKey s secret = (q, st)" by fastforce
  then have "q = Inr key" using sq.fst_resolve [OF assms(1,2), of secret] assms(5) by simp
  moreover have "secret \<noteq> rq_Header r ''Authorization''"
    using arg_cong [of secret "CHR 0xC2 # CHR 0xA0 # secret" length] assms(6) by auto
  ultimately show ?thesis using t q assms(4) by (simp add: authKey_def Let_def)
qed

theorem scheme_not_required_witness:
  "fst (authKey sqlite_store (sample_request\<lparr>rq_Header := \<lambda>_. CHR 0xC2 # CHR 0xA0 # ''old''\<rparr>) sql_sample)
     = (sample_key, True)"
proof (rule scheme_not_required [OF sample_ok(2,3) trim_old])
  show "abs_resolve (sql_view sql_sample) (hashSecret ''old'') = Some sample_key"
    using sq.fst_resolve [OF sample_ok(2,3), of "''old''"] sample_resolve(2)
    by (auto simp: sample_key_def split: option.splits)
qed simp_all

section \<open>Other origins\<close>

abbreviation acao :: "Response \<Rightarrow> string option" where
  "acao rw \<equiv> rs_Header rw ''Access-Control-Allow-Origin''"

lemma acao_simps [simp]:
  "acao (respond n b rw) = acao rw" "acao (writeJSON n v rw) = acao rw" "acao (writeJSONError n m rw) = acao rw"
  "acao (raw_data d rw) = acao rw" "acao (invalid_key rw) = acao rw" "acao (device_offline rw) = acao rw"
  "acao (timed_out rw) = acao rw" "acao (rate_limited rw) = acao rw" "acao (aborted p rw) = acao rw"
  "acao (redirect r x rw) = acao rw" "acao (not_found rw) = acao rw" "acao (handleHealthz rw) = acao rw"
  by (simp_all add: respond_def writeJSON_def writeJSONError_def raw_data_def invalid_key_def device_offline_def
      timed_out_def rate_limited_def aborted_def redirect_def not_found_def handleHealthz_def setHeader_def Let_def)

lemma run_query_acao: "acao (fst (run_query wt key op nonce missing rw s)) = acao rw"
  by (auto simp: run_query_def query_answer_def Let_def split: prod.split sum.split option.split)

lemma mux_acao:
  assumes "rq_Path r \<noteq> ''/agent''"
  shows "acao (fst (mux S B E up wt r rw s)) = acao rw"
proof -
  have "acao (fst (handleCreateRequest S B wt r rw s)) = acao rw"
    by (auto simp: handleCreateRequest_def Let_def split: prod.split sum.split option.split go_error.split)
  moreover have "acao (fst (handleBroadcast S wt r rw s)) = acao rw"
    by (auto simp: handleBroadcast_def Let_def run_query_acao split: prod.split option.split)
  moreover have "acao (fst (handleRequestStatus S wt r rw s)) = acao rw"
    by (auto simp: handleRequestStatus_def Let_def run_query_acao split: prod.split)
  moreover have "acao (fst (handleStatus S r rw s)) = acao rw"
    by (auto simp: handleStatus_def Let_def split: prod.split)
  moreover have "acao (fst (deviceQuery S wt op r rw s)) = acao rw" for op
    by (auto simp: deviceQuery_def Let_def run_query_acao split: prod.split)
  ultimately show ?thesis using assms
    by (simp add: mux_def Let_def handleSettings_def handleBalance_def handleActivity_def)
qed

text \<open>
  C19. The origin allowlist is enforced. A response of the API names an allowed origin only if it is
  the request's own, the path is under \<^verbatim>\<open>/v1/\<close> and some registered key lists it; and when no statement
  fails such a request always gets the header. A preflight reaches no handler: it is answered 204 or
  403 and changes neither hub, limiter, outside world nor the content of the store.
\<close>

theorem cors_allowlist:
  assumes "sql_inv (sv_store s)" "rq_Path r \<noteq> ''/agent''" "routes sqlite_store B E up wt r s = (rw', s')"
  defines "org \<equiv> rq_Header r ''Origin''"
  shows "(\<forall>x. acao rw' = Some x \<longrightarrow> x = org \<and> org \<noteq> [] \<and> HasPrefix (rq_Path r) ''/v1/''
        \<and> abs_allowed (sql_view (sv_store s)) org)
    \<and> (sql_up (sv_store s) \<and> org \<noteq> [] \<and> HasPrefix (rq_Path r) ''/v1/''
        \<and> abs_allowed (sql_view (sv_store s)) org \<longrightarrow> acao rw' = Some org)
    \<and> (rq_Method r = ''OPTIONS'' \<and> org \<noteq> [] \<and> HasPrefix (rq_Path r) ''/v1/'' \<longrightarrow>
        rs_Status rw' \<in> {204, 403} \<and> s' = s\<lparr>sv_store := sv_store s'\<rparr>
        \<and> sql_view (sv_store s') = sql_view (sv_store s))"
proof (cases "org = [] \<or> \<not> HasPrefix (rq_Path r) ''/v1/''")
  case True
  then have "mux sqlite_store B E up wt r newResponse s = (rw', s')"
    using assms(3) by (auto simp: routes_def corsMiddleware_def org_def Let_def)
  then have "acao rw' = acao newResponse" using mux_acao [OF assms(2)] by (metis fst_conv)
  then have "acao rw' = None" by (simp add: newResponse_def)
  then show ?thesis using True by auto
next
  case False
  obtain b e st where o: "sql_OriginAllowed (sv_store s) org = ((b, e), st)" by (metis prod.exhaust)
  note c = sq.allowed [unfolded sqlite_ops, OF assms(1) o]
  show ?thesis
  proof (cases "rq_Method r = ''OPTIONS''")
    case True
    then have "s' = s\<lparr>sv_store := st\<rparr>" "rs_Status rw' \<in> {204, 403}" "acao rw' = (if b then Some org else None)"
      using assms(3) o False
      by (auto simp: routes_def corsMiddleware_def org_def Let_def newResponse_def setHeader_def split: if_splits)
    then show ?thesis using c False by auto
  next
    case m: False
    let ?rw = "if b then setHeader ''Access-Control-Allow-Headers'' ''Authorization, Content-Type''
        (setHeader ''Access-Control-Allow-Origin'' org newResponse) else newResponse"
    have "mux sqlite_store B E up wt r ?rw (s\<lparr>sv_store := st\<rparr>) = (rw', s')"
      using assms(3) o False m by (cases b) (simp_all add: routes_def corsMiddleware_def org_def Let_def)
    then have "acao rw' = acao ?rw" using mux_acao [OF assms(2)] by (metis fst_conv)
    then have "acao rw' = (if b then Some org else None)" by (simp add: newResponse_def setHeader_def)
    then show ?thesis using c False m by auto
  qed
qed

theorem cors_allowlist_witness:
  "acao (fst (routes sqlite_store pad_hash toy (\<lambda>_ rw. Inl rw) sample_wait
     (sample_request\<lparr>rq_Header := \<lambda>k. if k = ''Origin'' then ''https://evil'' else []\<rparr>) online_server)) = None"
proof -
  let ?r = "sample_request\<lparr>rq_Header := \<lambda>k. if k = ''Origin'' then ''https://evil'' else []\<rparr>"
  obtain rw' s' where run: "routes sqlite_store pad_hash toy (\<lambda>_ rw. Inl rw) sample_wait ?r online_server = (rw', s')"
    by fastforce
  have "rq_Path ?r \<noteq> ''/agent''" by (simp add: sample_request_def)
  moreover have "\<not> abs_allowed (sql_view sql_sample) x" for x
    by (auto simp: abs_allowed_def sql_view_def sql_sample_def row_key_def decodeOrigins_def split: if_splits)
  ultimately have "acao rw' \<noteq> Some x" for x
    using cors_allowlist [OF _ _ run] sample_ok(2) by auto
  then have "acao rw' = None" by (cases "acao rw'") auto
  then show ?thesis by (simp add: run)
qed

end
