(* ===== verification/Server_Calls.thy ===== *)
theory Server_Calls
  imports Server_Props
begin

text \<open>
  A control message as a sequence of store calls. The handlers of \<^verbatim>\<open>handleControl\<close>
  (\<^verbatim>\<open>cmd/relay/http.go\<close>) hold no lock across their store calls, so calls of other goroutines run in
  between. \<open>permitted\<close> says which calls a message of a device with given accounts can make;
  \<open>control_calls\<close> shows that handling the message makes only such calls, and \<open>permitted_effect\<close> what one
  of them does to the store, whatever it holds by then.
\<close>

fun permitted :: "string list \<Rightarrow> Control \<Rightarrow> store_cmd \<Rightarrow> bool" where
  "permitted accs c (CRegister kid acc h) \<longleftrightarrow> c_Op c = ''register_key'' \<and> kid = c_KeyID c \<and> h = c_Hash c
     \<and> acc = c_Account c \<and> acc \<in> set accs"
| "permitted accs c (CRebind kid old new) \<longleftrightarrow> c_Op c = ''rebind_key'' \<and> kid = c_KeyID c \<and> old \<in> set accs
     \<and> new = c_Account c \<and> new \<in> set accs"
| "permitted accs c (CRevoke acc kid) \<longleftrightarrow> c_Op c = ''revoke_key'' \<and> kid = c_KeyID c \<and> acc \<in> set accs"
| "permitted accs c (COrigins kid acc os) \<longleftrightarrow> c_Op c \<in> {''register_key'', ''update_origins''} \<and> kid = c_KeyID c
     \<and> acc = c_Account c \<and> acc \<in> set accs \<and> os = c_AllowedOrigins c"
| "permitted accs c (CPut acc ver blob) \<longleftrightarrow> c_Op c = ''put_policy'' \<and> acc = c_Account c \<and> acc \<in> set accs
     \<and> ver = c_Version c \<and> blob = c_Blob c"
| "permitted accs c (CGet acc) \<longleftrightarrow> c_Op c = ''get_policy'' \<and> acc = c_Account c \<and> acc \<in> set accs"
| "permitted accs c _ \<longleftrightarrow> False"

definition after_calls :: "'s Store \<Rightarrow> 's \<Rightarrow> store_cmd list \<Rightarrow> 's" where
  "after_calls S s cs = snd (run_cmds S s cs)"

lemma after_calls_simps [simp]:
  "after_calls S s [] = s"
  "after_calls S s (CRegister kid acc h # cs) = after_calls S (snd (RegisterAPIKey S s kid acc h)) cs"
  "after_calls S s (CRebind kid old new # cs) = after_calls S (snd (RebindAPIKey S s kid old new)) cs"
  "after_calls S s (CRevoke acc kid # cs) = after_calls S (snd (RevokeAPIKey S s acc kid)) cs"
  "after_calls S s (COrigins kid acc os # cs) = after_calls S (snd (UpdateKeyOrigins S s kid acc os)) cs"
  "after_calls S s (CPut acc ver blob # cs) = after_calls S (snd (PutPolicy S s acc ver blob)) cs"
  "after_calls S s (CGet acc # cs) = after_calls S (snd (GetPolicy S s acc)) cs"
  by (simp_all add: after_calls_def split: prod.splits)

lemma rebind_loop_calls:
  "set accs' \<subseteq> set accs \<Longrightarrow> c_Op c = ''rebind_key'' \<Longrightarrow> c_Account c \<in> set accs \<Longrightarrow>
     \<exists>cs. list_all (permitted accs c) cs
       \<and> snd (rebind_loop S (c_KeyID c) (c_Account c) accs' s) = after_calls S s cs"
proof (induction accs' arbitrary: s)
  case Nil
  show ?case by (rule exI [of _ "[]"]) simp
next
  case (Cons acc accs')
  obtain r s1 where r: "RebindAPIKey S s (c_KeyID c) acc (c_Account c) = (r, s1)" by fastforce
  let ?c = "CRebind (c_KeyID c) acc (c_Account c)"
  obtain cs where "list_all (permitted accs c) cs"
    "snd (rebind_loop S (c_KeyID c) (c_Account c) accs' s1) = after_calls S s1 cs"
    using Cons by auto
  then show ?case using Cons.prems r
    by (cases r) (auto intro!: exI [of _ "?c # (if r = None then [] else cs)"])
qed

lemma revoke_loop_calls:
  "set accs' \<subseteq> set accs \<Longrightarrow> c_Op c = ''revoke_key'' \<Longrightarrow>
     \<exists>cs. list_all (permitted accs c) cs \<and> snd (revoke_loop S (c_KeyID c) accs' s) = after_calls S s cs"
proof (induction accs' arbitrary: s)
  case Nil
  show ?case by (rule exI [of _ "[]"]) simp
next
  case (Cons acc accs')
  obtain r s1 where r: "RevokeAPIKey S s acc (c_KeyID c) = (r, s1)" by fastforce
  let ?c = "CRevoke acc (c_KeyID c)"
  obtain cs where "list_all (permitted accs c) cs"
    "snd (revoke_loop S (c_KeyID c) accs' s1) = after_calls S s1 cs"
    using Cons by auto
  then show ?case using Cons.prems r
    by (cases r) (auto intro!: exI [of _ "?c # (if r = None then [] else cs)"])
qed

lemma control_calls:
  assumes run: "control_op S a c s = (reply, s')"
  shows "\<exists>cs. list_all (permitted (ac_accounts a) c) cs \<and> s' = after_calls S s cs"
proof -
  let ?accs = "ac_accounts a"
  have same: ?thesis if "s' = s" using that by (intro exI [of _ "[]"]) simp
  consider "c_Op c = ''register_key''" | "c_Op c = ''rebind_key''" | "c_Op c = ''revoke_key''"
    | "c_Op c = ''update_origins''" | "c_Op c = ''put_policy''" | "c_Op c = ''get_policy''" | "s' = s"
    using run by (auto simp: control_op_def split: if_splits)
  then show ?thesis
  proof cases
    case 1
    let ?r = "CRegister (c_KeyID c) (c_Account c) (c_Hash c)"
    let ?o = "COrigins (c_KeyID c) (c_Account c) (c_AllowedOrigins c)"
    have "s' = s \<or> c_Account c \<in> set ?accs \<and> (s' = after_calls S s [?r] \<or> s' = after_calls S s [?r, ?o])"
      using run by (auto simp: control_op_def 1 ctl_register_key_def contains_set Let_def
          split: if_splits option.splits prod.splits)
    then show ?thesis
      using same by (elim disjE conjE) (auto simp: 1 intro: exI [of _ "[?r]"] exI [of _ "[?r, ?o]"])
  next
    case 2
    have "s' = s \<or> c_Account c \<in> set ?accs \<and> s' = snd (rebind_loop S (c_KeyID c) (c_Account c) ?accs s)"
      using run by (auto simp: control_op_def 2 ctl_rebind_key_def contains_set Let_def split: if_splits prod.splits)
    then show ?thesis using same rebind_loop_calls [OF subset_refl 2] by metis
  next
    case 3
    have "s' = snd (revoke_loop S (c_KeyID c) ?accs s)"
      using run by (auto simp: control_op_def 3 ctl_revoke_key_def Let_def split: prod.splits)
    then show ?thesis using revoke_loop_calls [OF subset_refl 3] by metis
  next
    case 4
    let ?o = "COrigins (c_KeyID c) (c_Account c) (c_AllowedOrigins c)"
    have "s' = s \<or> c_Account c \<in> set ?accs \<and> s' = after_calls S s [?o]"
      using run by (auto simp: control_op_def 4 ctl_update_origins_def contains_set Let_def
          split: if_splits option.splits prod.splits)
    then show ?thesis using same by (elim disjE conjE) (auto simp: 4 intro: exI [of _ "[?o]"])
  next
    case 5
    let ?p = "CPut (c_Account c) (c_Version c) (c_Blob c)"
    have "s' = s \<or> c_Account c \<in> set ?accs \<and> s' = after_calls S s [?p]"
      using run by (auto simp: control_op_def 5 ctl_put_policy_def contains_set Let_def
          split: if_splits option.splits prod.splits)
    then show ?thesis using same by (elim disjE conjE) (auto simp: 5 intro: exI [of _ "[?p]"])
  next
    case 6
    let ?g = "CGet (c_Account c)"
    have "s' = s \<or> c_Account c \<in> set ?accs \<and> s' = after_calls S s [?g]"
      using run by (auto simp: control_op_def 6 ctl_get_policy_def contains_set Let_def
          split: if_splits option.splits prod.splits)
    then show ?thesis using same by (elim disjE conjE) (auto simp: 6 intro: exI [of _ "[?g]"])
  next
    case 7
    then show ?thesis by (rule same)
  qed
qed

text \<open>
  One permitted call: a policy that is new is the one the message puts, for one of the device's
  accounts, no version goes back, and a key whose owner changed is the message's key, bound by a
  registration or a rebinding to the message's account.
\<close>

definition bound_by :: "string list \<Rightarrow> Control \<Rightarrow> string \<Rightarrow> string \<Rightarrow> bool" where
  "bound_by accs c kid acc \<longleftrightarrow> c_Op c \<in> {''register_key'', ''rebind_key''} \<and> c_KeyID c = kid
     \<and> c_Account c = acc \<and> acc \<in> set accs"

definition put_by :: "string list \<Rightarrow> Control \<Rightarrow> string \<Rightarrow> int \<times> blob \<Rightarrow> bool" where
  "put_by accs c acc p \<longleftrightarrow> c_Op c = ''put_policy'' \<and> c_Account c = acc \<and> acc \<in> set accs
     \<and> p = (c_Version c, c_Blob c)"

definition call_effect :: "string list \<Rightarrow> Control \<Rightarrow> abs_store \<Rightarrow> abs_store \<Rightarrow> bool" where
  "call_effect accs c v v' \<longleftrightarrow>
     (\<forall>kid k. a_keys v' kid = Some k \<longrightarrow> owned v kid (k_OwnerAccount k) \<or> bound_by accs c kid (k_OwnerAccount k))
     \<and> (\<forall>acc p. a_policy v' acc = Some p \<longrightarrow> a_policy v acc = Some p \<or> put_by accs c acc p)
     \<and> (\<forall>acc ver b. a_policy v acc = Some (ver, b) \<longrightarrow>
          (\<exists>ver' b'. a_policy v' acc = Some (ver', b') \<and> ver \<le> ver'))"

lemma effect_refl: "call_effect accs c v v"
  by (simp add: call_effect_def owned_def)

lemma effect_register: "bound_by accs c kid acc \<Longrightarrow> call_effect accs c v (abs_register v kid acc h)"
  by (auto simp: call_effect_def abs_register_def owned_def)

lemma effect_rebind: "bound_by accs c kid acc \<Longrightarrow> call_effect accs c v (abs_rebind v kid acc)"
  by (auto simp: call_effect_def abs_rebind_def owned_def)

lemma effect_revoke: "call_effect accs c v (abs_revoke v kid)"
  by (auto simp: call_effect_def abs_revoke_def owned_def)

lemma effect_origins: "call_effect accs c v (abs_origins v kid os)"
  by (auto simp: call_effect_def abs_origins_def owned_def)

lemma effect_put: "put_by accs c acc (ver, blob) \<Longrightarrow> call_effect accs c v (abs_put_policy v acc ver blob)"
  by (auto simp: call_effect_def abs_put_policy_def owned_def split: option.splits)

context store_contract
begin

lemma permitted_effect:
  assumes s: "inv s" and p: "permitted accs c cmd" and os: "list_all text_ok (c_AllowedOrigins c)"
    and run: "exec_cmd S s cmd = (ans, s')"
  shows "inv s' \<and> call_effect accs c (view s) (view s')"
proof (cases cmd)
  case (CRegister kid acc h)
  obtain r s1 where r: "RegisterAPIKey S s kid acc h = (r, s1)" by fastforce
  then have s': "s' = s1" using run by (simp add: CRegister)
  show ?thesis using register [OF s r] effect_refl effect_register [of accs c kid acc] p
    unfolding s' CRegister by (cases r) (auto simp: bound_by_def)
next
  case (CRevoke acc kid)
  obtain r s1 where r: "RevokeAPIKey S s acc kid = (r, s1)" by fastforce
  then have s': "s' = s1" using run by (simp add: CRevoke)
  show ?thesis using revoke [OF s r] effect_refl effect_revoke unfolding s' by (cases r) auto
next
  case (CRebind kid old new)
  obtain r s1 where r: "RebindAPIKey S s kid old new = (r, s1)" by fastforce
  then have s': "s' = s1" using run by (simp add: CRebind)
  show ?thesis using rebind [OF s r] effect_refl effect_rebind [of accs c kid new] p
    unfolding s' CRebind by (cases r) (auto simp: bound_by_def)
next
  case (COrigins kid acc os')
  obtain r s1 where r: "UpdateKeyOrigins S s kid acc os' = (r, s1)" by fastforce
  then have s': "s' = s1" using run by (simp add: COrigins)
  have "list_all text_ok os'" using os p by (simp add: COrigins)
  then show ?thesis using origins [OF s _ r] effect_refl effect_origins unfolding s' by (cases r) auto
next
  case (CPut acc ver blob)
  obtain r s1 where r: "PutPolicy S s acc ver blob = (r, s1)" by fastforce
  then have s': "s' = s1" using run by (simp add: CPut)
  show ?thesis using put_policy [OF s r] effect_refl effect_put [of accs c acc ver blob] p
    unfolding s' CPut by (cases r) (auto simp: put_by_def)
next
  case (CGet acc)
  obtain ver blob found e s1 where r: "GetPolicy S s acc = ((ver, blob, found, e), s1)"
    by (metis prod.exhaust)
  then have "s' = s1" using run by (simp add: CGet)
  then show ?thesis using get_policy [OF s r] effect_refl by auto
qed (use p in simp_all)

end

end
