(* ===== verification/Mailbox.thy ===== *)
theory Mailbox
  imports Hub
begin

text \<open>
  The rendezvous that \<^verbatim>\<open>sendRequest\<close> and \<^verbatim>\<open>sendQuery\<close> of \<^verbatim>\<open>cmd/relay/hub.go\<close> share, as an abstract machine:
  a thread puts a fresh channel of capacity one into a table under its identifier, other threads look
  the identifier up and later send to the channel they found, and the thread takes a value or not and
  removes its entry. The lookup and the send are separate steps, so a value can be under way to a
  channel whose entry is gone. \<open>mb_ok\<close> is the invariant; the locale \<open>mailbox_client\<close> gives it to every
  system whose steps are steps of this machine, and \<open>Hub_Concurrent\<close> interprets it twice.
\<close>

record 'v mailbox =
  mb_pend :: "string \<rightharpoonup> nat"
  mb_next :: nat                       \<comment> \<open>the next channel\<close>
  mb_chan :: "nat \<Rightarrow> 'v list"
  mb_wait :: "nat \<Rightarrow> nat option"       \<comment> \<open>the channel of a thread that has an entry\<close>
  mb_got :: "nat \<Rightarrow> 'v option"         \<comment> \<open>what a thread received\<close>
  mb_flight :: "(nat \<times> 'v) list"       \<comment> \<open>values about to be sent to a channel\<close>
  mb_seen :: "(string \<times> 'v) set"       \<comment> \<open>every value for which an identifier was looked up\<close>

inductive mb_step :: "(nat \<Rightarrow> string) \<Rightarrow> 'v mailbox \<Rightarrow> 'v mailbox \<Rightarrow> bool"
  for ids :: "nat \<Rightarrow> string"
where
  Idle: "mb_step ids m m"
| Alloc: "mb_step ids m (m\<lparr>mb_next := Suc (mb_next m)\<rparr>)"
| Register: "mb_wait m t = None \<Longrightarrow>
    mb_step ids m (m\<lparr>mb_next := Suc (mb_next m), mb_chan := (mb_chan m)(mb_next m := []),
      mb_pend := (mb_pend m)(ids t \<mapsto> mb_next m), mb_wait := (mb_wait m)(t \<mapsto> mb_next m)\<rparr>)"
| Lookup: "mb_pend m rid = Some ch \<Longrightarrow>
    mb_step ids m (m\<lparr>mb_flight := (ch, v) # mb_flight m, mb_seen := insert (rid, v) (mb_seen m)\<rparr>)"
| Send: "mb_flight m = l1 @ (ch, v) # l2 \<Longrightarrow>
    mb_step ids m (m\<lparr>mb_flight := l1 @ l2, mb_chan := (mb_chan m)(ch := offer (mb_chan m ch) v)\<rparr>)"
| Receive: "mb_wait m t = Some ch \<Longrightarrow> mb_chan m ch = v # rest \<Longrightarrow>
    mb_step ids m (m\<lparr>mb_chan := (mb_chan m)(ch := rest), mb_got := (mb_got m)(t \<mapsto> v)\<rparr>)"
| Delete: "mb_wait m t = Some ch \<Longrightarrow>
    mb_step ids m (m\<lparr>mb_pend := (mb_pend m)(ids t := None), mb_wait := (mb_wait m)(t := None)\<rparr>)"

inductive_cases mb_stepE: "mb_step ids m m'"

section \<open>The invariant\<close>

text \<open>The table holds exactly the entries of the waiting threads, each with a channel of its own.\<close>

definition entries_ok :: "(nat \<Rightarrow> string) \<Rightarrow> 'v mailbox \<Rightarrow> bool" where
  "entries_ok ids m \<longleftrightarrow>
     (\<forall>rid ch. mb_pend m rid = Some ch \<longleftrightarrow> (\<exists>t. ids t = rid \<and> mb_wait m t = Some ch))
     \<and> (\<forall>t ch. mb_wait m t = Some ch \<longrightarrow> ch < mb_next m)
     \<and> (\<forall>t t' ch. mb_wait m t = Some ch \<longrightarrow> mb_wait m t' = Some ch \<longrightarrow> t = t')
     \<and> (\<forall>ch v. (ch, v) \<in> set (mb_flight m) \<longrightarrow> ch < mb_next m)"

text \<open>What is in a waiting thread's channel, or on its way there, was sent under its identifier.\<close>

definition values_ok :: "(nat \<Rightarrow> string) \<Rightarrow> 'v mailbox \<Rightarrow> bool" where
  "values_ok ids m \<longleftrightarrow>
     (\<forall>ch. length (mb_chan m ch) \<le> 1)
     \<and> (\<forall>t ch v. mb_wait m t = Some ch \<longrightarrow> v \<in> set (mb_chan m ch) \<or> (ch, v) \<in> set (mb_flight m) \<longrightarrow>
          (ids t, v) \<in> mb_seen m)
     \<and> (\<forall>t v. mb_got m t = Some v \<longrightarrow> (ids t, v) \<in> mb_seen m)"

definition mb_ok :: "(nat \<Rightarrow> string) \<Rightarrow> 'v mailbox \<Rightarrow> bool" where
  "mb_ok ids m \<longleftrightarrow> entries_ok ids m \<and> values_ok ids m"

lemma entries_okD:
  assumes "entries_ok ids m"
  shows "mb_pend m rid = Some ch \<Longrightarrow> \<exists>t. ids t = rid \<and> mb_wait m t = Some ch"
    "mb_wait m t = Some ch \<Longrightarrow> mb_pend m (ids t) = Some ch"
    "mb_wait m t = Some ch \<Longrightarrow> ch < mb_next m"
    "mb_wait m t = Some ch \<Longrightarrow> mb_wait m t' = Some ch \<Longrightarrow> t = t'"
    "(ch, v) \<in> set (mb_flight m) \<Longrightarrow> ch < mb_next m"
  using assms unfolding entries_ok_def by blast+

lemma values_okD:
  assumes "values_ok ids m"
  shows "length (mb_chan m ch) \<le> 1"
    "mb_wait m t = Some ch \<Longrightarrow> v \<in> set (mb_chan m ch) \<Longrightarrow> (ids t, v) \<in> mb_seen m"
    "mb_wait m t = Some ch \<Longrightarrow> (ch, v) \<in> set (mb_flight m) \<Longrightarrow> (ids t, v) \<in> mb_seen m"
    "mb_got m t = Some v \<Longrightarrow> (ids t, v) \<in> mb_seen m"
  using assms unfolding values_ok_def by blast+

lemma entries_same:
  assumes "entries_ok ids m" "mb_pend m' = mb_pend m" "mb_wait m' = mb_wait m" "mb_next m \<le> mb_next m'"
    "\<And>ch v. (ch, v) \<in> set (mb_flight m') \<Longrightarrow> (\<exists>v'. (ch, v') \<in> set (mb_flight m)) \<or> (\<exists>rid. mb_pend m rid = Some ch)"
  shows "entries_ok ids m'"
proof -
  have "ch < mb_next m'" if "(ch, v) \<in> set (mb_flight m')" for ch v
    using assms(5) [OF that] entries_okD [OF assms(1)] assms(4) by (meson less_le_trans)
  moreover have "ch < mb_next m'" if "mb_wait m t = Some ch" for t ch
    using entries_okD(3) [OF assms(1) that] assms(4) by simp
  ultimately show ?thesis using assms(1) unfolding entries_ok_def assms(2,3) by blast
qed

lemma entries_change:
  assumes inj: "inj ids" and ok: "entries_ok ids m" and p: "mb_pend m' = (mb_pend m)(ids t := c)"
    and w: "mb_wait m' = (mb_wait m)(t := c)" and n: "mb_next m \<le> mb_next m'"
    and f: "mb_flight m' = mb_flight m"
    and c: "\<And>ch. c = Some ch \<Longrightarrow> ch < mb_next m' \<and> \<not> ch < mb_next m"
  shows "entries_ok ids m'"
proof -
  have rid: "ids t' = ids t \<longleftrightarrow> t' = t" for t' using inj by (auto dest: injD)
  have "mb_pend m' rid = Some ch \<longleftrightarrow> (\<exists>t'. ids t' = rid \<and> mb_wait m' t' = Some ch)" for rid ch
  proof (cases "rid = ids t")
    case True
    then show ?thesis unfolding p w by (auto simp: rid)
  next
    case False
    then have "mb_pend m' rid = mb_pend m rid" by (simp add: p)
    then show ?thesis using ok False unfolding entries_ok_def w by (metis fun_upd_apply)
  qed
  moreover have "ch < mb_next m'" if "mb_wait m' t' = Some ch" for t' ch
    using that c entries_okD(3) [OF ok, of t' ch] n unfolding w by (auto split: if_splits)
  moreover have "t1 = t2" if "mb_wait m' t1 = Some ch" "mb_wait m' t2 = Some ch" for t1 t2 ch
    using that c entries_okD(3,4) [OF ok] unfolding w by (metis fun_upd_apply)
  moreover have "ch < mb_next m'" if "(ch, v) \<in> set (mb_flight m')" for ch v
    using that entries_okD(5) [OF ok, of ch v] n unfolding f by simp
  ultimately show ?thesis unfolding entries_ok_def by blast
qed

lemma entries_step:
  assumes inj: "inj ids" and "mb_step ids m m'" and ok: "entries_ok ids m"
  shows "entries_ok ids m'"
  using assms(2)
proof (cases rule: mb_step.cases)
  case (Register t)
  show ?thesis by (rule entries_change [OF inj ok, of _ t "Some (mb_next m)"]) (simp_all add: Register)
next
  case (Delete t ch)
  show ?thesis by (rule entries_change [OF inj ok, of _ t None]) (simp_all add: Delete)
qed (rule entries_same [OF ok]; auto)+

lemma values_mono:
  assumes "values_ok ids m" "\<And>ch. length (mb_chan m' ch) \<le> 1" "mb_seen m \<subseteq> mb_seen m'"
    "\<And>t ch v. mb_wait m' t = Some ch \<Longrightarrow> v \<in> set (mb_chan m' ch) \<or> (ch, v) \<in> set (mb_flight m') \<Longrightarrow>
       mb_wait m t = Some ch \<and> (v \<in> set (mb_chan m ch) \<or> (ch, v) \<in> set (mb_flight m)) \<or> (ids t, v) \<in> mb_seen m'"
    "\<And>t v. mb_got m' t = Some v \<Longrightarrow> mb_got m t = Some v \<or> (ids t, v) \<in> mb_seen m'"
  shows "values_ok ids m'"
proof -
  have "(ids t, v) \<in> mb_seen m'"
    if "mb_wait m' t = Some ch" "v \<in> set (mb_chan m' ch) \<or> (ch, v) \<in> set (mb_flight m')" for t ch v
    using assms(4) [OF that] values_okD(2,3) [OF assms(1)] assms(3) by blast
  moreover have "(ids t, v) \<in> mb_seen m'" if "mb_got m' t = Some v" for t v
    using assms(5) [OF that] values_okD(4) [OF assms(1)] assms(3) by blast
  ultimately show ?thesis using assms(2) unfolding values_ok_def by blast
qed

lemma set_offer: "x \<in> set (offer buf y) \<Longrightarrow> x = y \<or> x \<in> set buf"
  by (auto simp: offer_def split: if_splits)

lemma length_offer: "length buf \<le> 1 \<Longrightarrow> length (offer buf y) \<le> 1"
  by (simp add: offer_def)

lemma values_step:
  assumes "mb_step ids m m'" and e: "entries_ok ids m" and ok: "values_ok ids m"
  shows "values_ok ids m'"
  using assms(1)
proof (cases rule: mb_step.cases)
  case (Register t)
  have "(mb_next m, v) \<notin> set (mb_flight m)" for v using entries_okD(5) [OF e] by blast
  then show ?thesis using values_okD(1) [OF ok]
    by (intro values_mono [OF ok]) (auto simp: Register split: if_splits)
next
  case (Lookup rid ch v)
  have "ids t = rid" if "mb_wait m t = Some ch" for t
    using entries_okD(1) [OF e Lookup(2)] entries_okD(4) [OF e that] by blast
  then show ?thesis using values_okD(1) [OF ok] by (intro values_mono [OF ok]) (auto simp: Lookup(1))
next
  case (Send l1 ch v l2)
  have "length (offer (mb_chan m c) x) \<le> 1" for c x by (rule length_offer) (rule values_okD(1) [OF ok])
  then show ?thesis using values_okD(1) [OF ok]
    by (intro values_mono [OF ok]) (auto simp: Send split: if_splits dest!: set_offer)
next
  case (Receive t ch v rest)
  have "(ids t, v) \<in> mb_seen m" using values_okD(2) [OF ok, of t ch v] Receive by simp
  moreover have "length rest \<le> 1" using values_okD(1) [OF ok, of ch] Receive by simp
  ultimately show ?thesis using values_okD(1) [OF ok] Receive(2,3)
    by (intro values_mono [OF ok]) (auto simp: Receive(1) split: if_splits)
qed (rule values_mono [OF ok]; use values_okD(1) [OF ok] in \<open>auto split: if_splits\<close>)+

lemma mb_step_ok: "inj ids \<Longrightarrow> mb_step ids m m' \<Longrightarrow> mb_ok ids m \<Longrightarrow> mb_ok ids m'"
  unfolding mb_ok_def using entries_step values_step by metis

section \<open>Systems that use a mailbox\<close>

locale mailbox_client =
  fixes step :: "'s \<Rightarrow> 's \<Rightarrow> bool" and ids :: "nat \<Rightarrow> string" and mbox :: "'s \<Rightarrow> 'v mailbox"
  assumes uses: "step s s' \<Longrightarrow> mb_step ids (mbox s) (mbox s')"
begin

lemma run_ok:
  assumes "inj ids" "step\<^sup>*\<^sup>* s s'" "mb_ok ids (mbox s)"
  shows "mb_ok ids (mbox s')"
  using assms(2,3) by (induction rule: rtranclp_induct) (use mb_step_ok [OF assms(1) uses] in blast)+

lemma got_seen:
  assumes "inj ids" "step\<^sup>*\<^sup>* s s'" "mb_ok ids (mbox s)" "mb_got (mbox s') t = Some v"
  shows "(ids t, v) \<in> mb_seen (mbox s')"
  using run_ok [OF assms(1-3)] values_okD(4) [of ids "mbox s'" t v] assms(4) unfolding mb_ok_def by blast

lemma buffered: "inj ids \<Longrightarrow> step\<^sup>*\<^sup>* s s' \<Longrightarrow> mb_ok ids (mbox s) \<Longrightarrow> length (mb_chan (mbox s') ch) \<le> 1"
  using run_ok [of s s'] values_okD(1) [of ids "mbox s'" ch] unfolding mb_ok_def by blast

lemma own_channel:
  "inj ids \<Longrightarrow> step\<^sup>*\<^sup>* s s' \<Longrightarrow> mb_ok ids (mbox s) \<Longrightarrow>
     mb_wait (mbox s') t = Some ch \<Longrightarrow> mb_wait (mbox s') t' = Some ch \<Longrightarrow> t = t'"
  using run_ok [of s s'] entries_okD(4) [of ids "mbox s'" t ch t'] unfolding mb_ok_def by blast

lemma no_entry:
  assumes "inj ids" "step\<^sup>*\<^sup>* s s'" "mb_ok ids (mbox s)" "\<forall>t. mb_wait (mbox s') t = None"
  shows "mb_pend (mbox s') = Map.empty"
  using run_ok [OF assms(1-3)] entries_okD(1) [of ids "mbox s'"] assms(4) unfolding mb_ok_def
  by (metis not_Some_eq option.simps(3))

end

end
