(* ===== verification/Hub_Concurrent.thy ===== *)
theory Hub_Concurrent
  imports Hub_Props Mailbox
begin

text \<open>
  The hub under concurrency. Every goroutine that runs \<^verbatim>\<open>sendRequest\<close> or \<^verbatim>\<open>sendQuery\<close> of
  \<^verbatim>\<open>cmd/relay/hub.go\<close> is a thread with a phase; between two steps any other goroutine may run:
  connections are bound and unbound, and results and answers are delivered, in two steps, because
  \<^verbatim>\<open>deliverResult\<close> and \<^verbatim>\<open>deliverQueryResult\<close> read the waiter under the lock and send to the channel after
  releasing it. One step is what happens under one lock, one write to a websocket, or one branch of
  the \<^verbatim>\<open>select\<close>. Requests and queries are numbered separately; what each of them is about is \<open>jobs\<close>.
  The theory shows that either half of the hub is a mailbox, and what the routing invariant is.
\<close>

section \<open>Threads and steps\<close>

type_synonym answer = "go_error + TxResult"
type_synonym reply = "go_error + QueryResult"

record jobs =
  jb_account :: "nat \<Rightarrow> string"        \<comment> \<open>of a request\<close>
  jb_request :: "nat \<Rightarrow> TxRequest"
  jb_qaccount :: "nat \<Rightarrow> string"       \<comment> \<open>of a query\<close>
  jb_qid :: "nat \<Rightarrow> string"            \<comment> \<open>the identifier it draws\<close>
  jb_query :: "nat \<Rightarrow> Query"

definition request_id :: "jobs \<Rightarrow> nat \<Rightarrow> string" where
  "request_id J t = tr_ID (jb_request J t)"

definition distinct_ids :: "jobs \<Rightarrow> bool" where
  "distinct_ids J \<longleftrightarrow> inj (request_id J) \<and> inj (jb_qid J)"

datatype phase =
    Start
  | Looked "agentConn list"                  \<comment> \<open>devices listed\<close>
  | Writing nat "agentConn list" nat         \<comment> \<open>waiter registered; devices left, frames delivered\<close>
  | Waiting nat                              \<comment> \<open>in the select\<close>
  | Returning nat answer                     \<comment> \<open>before the deferred delete\<close>
  | Deleted answer                           \<comment> \<open>waiter removed\<close>
  | Withdrawing answer "agentConn list"      \<comment> \<open>devices left to tell\<close>
  | Done answer

datatype qphase =
    QStart
  | QLooked "agentConn list"
  | QAsking nat "agentConn list"             \<comment> \<open>waiter registered; devices left to try\<close>
  | QWaiting nat
  | QReturning nat reply
  | QDone reply

record conc =
  cs_hub :: Hub
  cs_phase :: "nat \<Rightarrow> phase"
  cs_qphase :: "nat \<Rightarrow> qphase"
  cs_flight :: "(nat \<times> TxResult) list"      \<comment> \<open>results about to be sent to a channel\<close>
  cs_qflight :: "(nat \<times> QueryResult) list"
  cs_sent :: "(nat \<times> Envelope) list"
  cs_bound :: "agentConn set"                \<comment> \<open>every connection ever bound\<close>
  cs_reported :: "TxResult set"              \<comment> \<open>every result ever delivered\<close>
  cs_answered :: "(string \<times> QueryResult) set"

definition conc_init :: conc where
  "conc_init = \<lparr>cs_hub = newHub, cs_phase = (\<lambda>_. Start), cs_qphase = (\<lambda>_. QStart), cs_flight = [],
     cs_qflight = [], cs_sent = [], cs_bound = {}, cs_reported = {}, cs_answered = {}\<rparr>"

definition go :: "nat \<Rightarrow> phase \<Rightarrow> conc \<Rightarrow> conc" where
  "go t ph s = s\<lparr>cs_phase := (cs_phase s)(t := ph)\<rparr>"

definition qgo :: "nat \<Rightarrow> qphase \<Rightarrow> conc \<Rightarrow> conc" where
  "qgo t ph s = s\<lparr>cs_qphase := (cs_qphase s)(t := ph)\<rparr>"

definition on_hub :: "(Hub \<Rightarrow> Hub) \<Rightarrow> conc \<Rightarrow> conc" where
  "on_hub f s = s\<lparr>cs_hub := f (cs_hub s)\<rparr>"

definition frame_written :: "bool \<Rightarrow> agentConn \<Rightarrow> Envelope \<Rightarrow> conc \<Rightarrow> conc" where
  "frame_written ok d env s = s\<lparr>cs_sent := cs_sent s @ (if ok then [(ac_ws d, env)] else [])\<rparr>"

definition register :: "string \<Rightarrow> Hub \<Rightarrow> Hub" where
  "register rid h = h\<lparr>hb_next := Suc (hb_next h), hb_chan := (hb_chan h)(hb_next h := []),
     hb_pending := (hb_pending h)(rid \<mapsto> hb_next h)\<rparr>"

definition deregister :: "string \<Rightarrow> Hub \<Rightarrow> Hub" where
  "deregister rid h = h\<lparr>hb_pending := (hb_pending h)(rid := None)\<rparr>"

definition set_chan :: "nat \<Rightarrow> TxResult list \<Rightarrow> Hub \<Rightarrow> Hub" where
  "set_chan ch buf h = h\<lparr>hb_chan := (hb_chan h)(ch := buf)\<rparr>"

definition qregister :: "string \<Rightarrow> Hub \<Rightarrow> Hub" where
  "qregister qid h = h\<lparr>hb_next := Suc (hb_next h), hb_qchan := (hb_qchan h)(hb_next h := []),
     hb_queryPending := (hb_queryPending h)(qid \<mapsto> hb_next h)\<rparr>"

definition qderegister :: "string \<Rightarrow> Hub \<Rightarrow> Hub" where
  "qderegister qid h = h\<lparr>hb_queryPending := (hb_queryPending h)(qid := None)\<rparr>"

definition set_qchan :: "nat \<Rightarrow> QueryResult list \<Rightarrow> Hub \<Rightarrow> Hub" where
  "set_qchan ch buf h = h\<lparr>hb_qchan := (hb_qchan h)(ch := buf)\<rparr>"

definition after_writes :: "nat \<Rightarrow> nat \<Rightarrow> phase" where
  "after_writes ch delivered = (if delivered = 0 then Returning ch (Inl errAccountOffline) else Waiting ch)"

inductive conc_step :: "jobs \<Rightarrow> conc \<Rightarrow> conc \<Rightarrow> bool"
  for J :: jobs
where
  Bind: "conc_step J s ((on_hub (bind a) s)\<lparr>cs_bound := insert a (cs_bound s)\<rparr>)"
| Unbind: "conc_step J s (on_hub (unbind a) s)"
| DeliverLookup: "hb_pending (cs_hub s) (res_RequestID res) = Some ch \<Longrightarrow>
    conc_step J s (s\<lparr>cs_flight := (ch, res) # cs_flight s, cs_reported := insert res (cs_reported s)\<rparr>)"
| DeliverSend: "cs_flight s = l1 @ (ch, res) # l2 \<Longrightarrow>
    conc_step J s ((on_hub (set_chan ch (offer (hb_chan (cs_hub s) ch) res)) s)\<lparr>cs_flight := l1 @ l2\<rparr>)"
| QDeliverLookup: "hb_queryPending (cs_hub s) qid = Some ch \<Longrightarrow>
    conc_step J s (s\<lparr>cs_qflight := (ch, qr) # cs_qflight s, cs_answered := insert (qid, qr) (cs_answered s)\<rparr>)"
| QDeliverSend: "cs_qflight s = l1 @ (ch, qr) # l2 \<Longrightarrow>
    conc_step J s ((on_hub (set_qchan ch (offer (hb_qchan (cs_hub s) ch) qr)) s)\<lparr>cs_qflight := l1 @ l2\<rparr>)"
| List: "cs_phase s t = Start \<Longrightarrow> ds = devicesForAccount (cs_hub s) (jb_account J t) \<Longrightarrow>
    conc_step J s (go t (if ds = [] then Done (Inl errAccountOffline) else Looked ds) s)"
| Register: "cs_phase s t = Looked ds \<Longrightarrow>
    conc_step J s (on_hub (register (request_id J t)) (go t (Writing (hb_next (cs_hub s)) ds 0) s))"
| Write: "cs_phase s t = Writing ch (d # ds) n \<Longrightarrow>
    conc_step J s (frame_written ok d (request_frame (jb_request J t))
      (go t (Writing ch ds (if ok then Suc n else n)) s))"
| Written: "cs_phase s t = Writing ch [] n \<Longrightarrow> conc_step J s (go t (after_writes ch n) s)"
| Receive: "cs_phase s t = Waiting ch \<Longrightarrow> hb_chan (cs_hub s) ch = res # rest \<Longrightarrow>
    conc_step J s (on_hub (set_chan ch rest) (go t (Returning ch (Inr res)) s))"
| Expire: "cs_phase s t = Waiting ch \<Longrightarrow> conc_step J s (go t (Returning ch (Inl (ctx_Err e))) s)"
| Delete: "cs_phase s t = Returning ch r \<Longrightarrow>
    conc_step J s (on_hub (deregister (request_id J t)) (go t (Deleted r) s))"
| ListAgain: "cs_phase s t = Deleted r \<Longrightarrow>
    conc_step J s (go t (Withdrawing r (devicesForAccount (cs_hub s) (jb_account J t))) s)"
| Withdraw: "cs_phase s t = Withdrawing r (d # ds) \<Longrightarrow>
    conc_step J s (frame_written ok d (withdraw_frame (request_id J t)) (go t (Withdrawing r ds) s))"
| Return: "cs_phase s t = Withdrawing r [] \<Longrightarrow> conc_step J s (go t (Done r) s)"
| QList: "cs_qphase s t = QStart \<Longrightarrow> ds = devicesForAccount (cs_hub s) (jb_qaccount J t) \<Longrightarrow>
    conc_step J s (qgo t (if ds = [] then QDone (Inl errAccountOffline) else QLooked ds) s)"
| QRegister: "cs_qphase s t = QLooked ds \<Longrightarrow>
    conc_step J s (on_hub (qregister (jb_qid J t)) (qgo t (QAsking (hb_next (cs_hub s)) ds) s))"
| QAsk: "cs_qphase s t = QAsking ch (d # ds) \<Longrightarrow>
    conc_step J s (frame_written ok d (query_frame (jb_qid J t) (jb_query J t))
      (qgo t (if ok then QWaiting ch else QAsking ch ds) s))"
| QUnasked: "cs_qphase s t = QAsking ch [] \<Longrightarrow>
    conc_step J s (qgo t (QReturning ch (Inl errAccountOffline)) s)"
| QReceive: "cs_qphase s t = QWaiting ch \<Longrightarrow> hb_qchan (cs_hub s) ch = qr # rest \<Longrightarrow>
    conc_step J s (on_hub (set_qchan ch rest) (qgo t (QReturning ch (Inr qr)) s))"
| QExpire: "cs_qphase s t = QWaiting ch \<Longrightarrow> conc_step J s (qgo t (QReturning ch (Inl (ctx_Err e))) s)"
| QDelete: "cs_qphase s t = QReturning ch r \<Longrightarrow>
    conc_step J s (on_hub (qderegister (jb_qid J t)) (qgo t (QDone r) s))"

inductive_cases conc_stepE: "conc_step J s s'"

definition conc_reach :: "jobs \<Rightarrow> conc \<Rightarrow> bool" where
  "conc_reach J s \<longleftrightarrow> (conc_step J)\<^sup>*\<^sup>* conc_init s"

lemma reach_init: "conc_reach J conc_init"
  by (simp add: conc_reach_def)

lemma reach_step: "conc_reach J s \<Longrightarrow> conc_step J s s' \<Longrightarrow> conc_reach J s'"
  unfolding conc_reach_def by (rule rtranclp.rtrancl_into_rtrancl)

section \<open>What the steps change\<close>

lemma go_simps [simp]:
  "cs_hub (go t ph s) = cs_hub s" "cs_flight (go t ph s) = cs_flight s" "cs_sent (go t ph s) = cs_sent s"
  "cs_bound (go t ph s) = cs_bound s" "cs_reported (go t ph s) = cs_reported s"
  "cs_phase (go t ph s) = (cs_phase s)(t := ph)" "cs_qphase (go t ph s) = cs_qphase s"
  "cs_qflight (go t ph s) = cs_qflight s" "cs_answered (go t ph s) = cs_answered s"
  by (simp_all add: go_def)

lemma qgo_simps [simp]:
  "cs_hub (qgo t qh s) = cs_hub s" "cs_flight (qgo t qh s) = cs_flight s" "cs_sent (qgo t qh s) = cs_sent s"
  "cs_bound (qgo t qh s) = cs_bound s" "cs_reported (qgo t qh s) = cs_reported s"
  "cs_qphase (qgo t qh s) = (cs_qphase s)(t := qh)" "cs_phase (qgo t qh s) = cs_phase s"
  "cs_qflight (qgo t qh s) = cs_qflight s" "cs_answered (qgo t qh s) = cs_answered s"
  by (simp_all add: qgo_def)

lemma on_hub_simps [simp]:
  "cs_hub (on_hub f s) = f (cs_hub s)" "cs_flight (on_hub f s) = cs_flight s" "cs_sent (on_hub f s) = cs_sent s"
  "cs_bound (on_hub f s) = cs_bound s" "cs_reported (on_hub f s) = cs_reported s"
  "cs_phase (on_hub f s) = cs_phase s" "cs_qphase (on_hub f s) = cs_qphase s"
  "cs_qflight (on_hub f s) = cs_qflight s" "cs_answered (on_hub f s) = cs_answered s"
  by (simp_all add: on_hub_def)

lemma frame_written_simps [simp]:
  "cs_hub (frame_written ok d env s) = cs_hub s" "cs_flight (frame_written ok d env s) = cs_flight s"
  "cs_sent (frame_written ok d env s) = cs_sent s @ (if ok then [(ac_ws d, env)] else [])"
  "cs_bound (frame_written ok d env s) = cs_bound s" "cs_reported (frame_written ok d env s) = cs_reported s"
  "cs_phase (frame_written ok d env s) = cs_phase s" "cs_qphase (frame_written ok d env s) = cs_qphase s"
  "cs_qflight (frame_written ok d env s) = cs_qflight s"
  "cs_answered (frame_written ok d env s) = cs_answered s"
  by (simp_all add: frame_written_def)

lemma hub_ops_simps [simp]:
  "hb_next (register rid h) = Suc (hb_next h)" "hb_chan (register rid h) = (hb_chan h)(hb_next h := [])"
  "hb_pending (register rid h) = (hb_pending h)(rid \<mapsto> hb_next h)" "hb_bindings (register rid h) = hb_bindings h"
  "hb_queryPending (register rid h) = hb_queryPending h" "hb_qchan (register rid h) = hb_qchan h"
  "hb_next (deregister rid h) = hb_next h" "hb_chan (deregister rid h) = hb_chan h"
  "hb_pending (deregister rid h) = (hb_pending h)(rid := None)" "hb_bindings (deregister rid h) = hb_bindings h"
  "hb_queryPending (deregister rid h) = hb_queryPending h" "hb_qchan (deregister rid h) = hb_qchan h"
  "hb_next (set_chan ch buf h) = hb_next h" "hb_chan (set_chan ch buf h) = (hb_chan h)(ch := buf)"
  "hb_pending (set_chan ch buf h) = hb_pending h" "hb_bindings (set_chan ch buf h) = hb_bindings h"
  "hb_queryPending (set_chan ch buf h) = hb_queryPending h" "hb_qchan (set_chan ch buf h) = hb_qchan h"
  by (simp_all add: register_def deregister_def set_chan_def)

lemma hub_qops_simps [simp]:
  "hb_next (qregister qid h) = Suc (hb_next h)" "hb_qchan (qregister qid h) = (hb_qchan h)(hb_next h := [])"
  "hb_queryPending (qregister qid h) = (hb_queryPending h)(qid \<mapsto> hb_next h)"
  "hb_bindings (qregister qid h) = hb_bindings h" "hb_pending (qregister qid h) = hb_pending h"
  "hb_chan (qregister qid h) = hb_chan h"
  "hb_next (qderegister qid h) = hb_next h" "hb_qchan (qderegister qid h) = hb_qchan h"
  "hb_queryPending (qderegister qid h) = (hb_queryPending h)(qid := None)"
  "hb_bindings (qderegister qid h) = hb_bindings h" "hb_pending (qderegister qid h) = hb_pending h"
  "hb_chan (qderegister qid h) = hb_chan h"
  "hb_next (set_qchan ch qbuf h) = hb_next h" "hb_qchan (set_qchan ch qbuf h) = (hb_qchan h)(ch := qbuf)"
  "hb_queryPending (set_qchan ch qbuf h) = hb_queryPending h"
  "hb_bindings (set_qchan ch qbuf h) = hb_bindings h" "hb_pending (set_qchan ch qbuf h) = hb_pending h"
  "hb_chan (set_qchan ch qbuf h) = hb_chan h"
  by (simp_all add: qregister_def qderegister_def set_qchan_def)

lemma same_bindings [simp]:
  "bound_to (register rid h) acc = bound_to h acc" "bound_to (deregister rid h) acc = bound_to h acc"
  "bound_to (set_chan ch buf h) acc = bound_to h acc" "bound_to (qregister qid h) acc = bound_to h acc"
  "bound_to (qderegister qid h) acc = bound_to h acc" "bound_to (set_qchan ch qbuf h) acc = bound_to h acc"
  by (simp_all add: bound_to_def)

section \<open>Each half of the hub is a mailbox\<close>

text \<open>The waiter of a phase, the value it received and the devices it still has to write to.\<close>

fun waiter_of :: "phase \<Rightarrow> nat option" where
  "waiter_of (Writing ch ds n) = Some ch"
| "waiter_of (Waiting ch) = Some ch"
| "waiter_of (Returning ch r) = Some ch"
| "waiter_of _ = None"

fun value_of :: "go_error + 'a \<Rightarrow> 'a option" where
  "value_of (Inl e) = None"
| "value_of (Inr v) = Some v"

fun got_of :: "phase \<Rightarrow> TxResult option" where
  "got_of (Returning ch r) = value_of r"
| "got_of (Deleted r) = value_of r"
| "got_of (Withdrawing r ds) = value_of r"
| "got_of (Done r) = value_of r"
| "got_of _ = None"

fun targets :: "phase \<Rightarrow> agentConn list" where
  "targets (Looked ds) = ds"
| "targets (Writing ch ds n) = ds"
| "targets (Withdrawing r ds) = ds"
| "targets _ = []"

fun qwaiter_of :: "qphase \<Rightarrow> nat option" where
  "qwaiter_of (QAsking ch ds) = Some ch"
| "qwaiter_of (QWaiting ch) = Some ch"
| "qwaiter_of (QReturning ch r) = Some ch"
| "qwaiter_of _ = None"

fun qgot_of :: "qphase \<Rightarrow> QueryResult option" where
  "qgot_of (QReturning ch r) = value_of r"
| "qgot_of (QDone r) = value_of r"
| "qgot_of _ = None"

fun qtargets :: "qphase \<Rightarrow> agentConn list" where
  "qtargets (QLooked ds) = ds"
| "qtargets (QAsking ch ds) = ds"
| "qtargets _ = []"

lemma after_writes_simps [simp]:
  "waiter_of (after_writes ch n) = Some ch" "targets (after_writes ch n) = []"
  "got_of (after_writes ch n) = None"
  by (simp_all add: after_writes_def)

definition request_box :: "conc \<Rightarrow> TxResult mailbox" where
  "request_box s = \<lparr>mb_pend = hb_pending (cs_hub s), mb_next = hb_next (cs_hub s),
     mb_chan = hb_chan (cs_hub s), mb_wait = (\<lambda>t. waiter_of (cs_phase s t)),
     mb_got = (\<lambda>t. got_of (cs_phase s t)), mb_flight = cs_flight s,
     mb_seen = (\<lambda>r. (res_RequestID r, r)) ` cs_reported s\<rparr>"

definition query_box :: "conc \<Rightarrow> QueryResult mailbox" where
  "query_box s = \<lparr>mb_pend = hb_queryPending (cs_hub s), mb_next = hb_next (cs_hub s),
     mb_chan = hb_qchan (cs_hub s), mb_wait = (\<lambda>t. qwaiter_of (cs_qphase s t)),
     mb_got = (\<lambda>t. qgot_of (cs_qphase s t)), mb_flight = cs_qflight s, mb_seen = cs_answered s\<rparr>"

lemma box_sel [simp]:
  "mb_pend (request_box s) = hb_pending (cs_hub s)" "mb_next (request_box s) = hb_next (cs_hub s)"
  "mb_chan (request_box s) = hb_chan (cs_hub s)" "mb_wait (request_box s) t = waiter_of (cs_phase s t)"
  "mb_got (request_box s) t = got_of (cs_phase s t)" "mb_flight (request_box s) = cs_flight s"
  "mb_seen (request_box s) = (\<lambda>r. (res_RequestID r, r)) ` cs_reported s"
  "mb_pend (query_box s) = hb_queryPending (cs_hub s)" "mb_next (query_box s) = hb_next (cs_hub s)"
  "mb_chan (query_box s) = hb_qchan (cs_hub s)" "mb_wait (query_box s) t = qwaiter_of (cs_qphase s t)"
  "mb_got (query_box s) t = qgot_of (cs_qphase s t)" "mb_flight (query_box s) = cs_qflight s"
  "mb_seen (query_box s) = cs_answered s"
  by (simp_all add: request_box_def query_box_def)

lemma stays: "b' = b \<Longrightarrow> mb_step ids b b'"
  by (simp add: mb_step.Idle)

lemma becomes: "mb_step ids b c \<Longrightarrow> b' = c \<Longrightarrow> mb_step ids b b'"
  by simp

lemma request_box_step:
  assumes "conc_step J s s'"
  shows "mb_step (request_id J) (request_box s) (request_box s')"
  using assms
proof (cases rule: conc_step.cases)
  case (DeliverLookup res ch)
  show ?thesis
    by (rule becomes [OF mb_step.Lookup [where rid = "res_RequestID res" and v = res and ch = ch]])
       (simp_all add: DeliverLookup request_box_def)
next
  case (DeliverSend l1 ch res l2)
  show ?thesis
    by (rule becomes [OF mb_step.Send [where v = res and ch = ch]]) (simp_all add: DeliverSend request_box_def)
next
  case (Register t ds)
  show ?thesis
    by (rule becomes [OF mb_step.Register [where t = t]]) (auto simp: Register request_box_def fun_eq_iff)
next
  case (Receive t ch res rest)
  show ?thesis
    by (rule becomes [OF mb_step.Receive [where t = t and ch = ch and v = res and rest = rest]])
       (auto simp: Receive request_box_def fun_eq_iff)
next
  case (Delete t ch r)
  show ?thesis
    by (rule becomes [OF mb_step.Delete [where t = t and ch = ch]])
       (auto simp: Delete request_box_def fun_eq_iff)
next
  case (QRegister t ds)
  show ?thesis by (rule becomes [OF mb_step.Alloc]) (simp add: QRegister request_box_def)
qed (rule stays; auto simp: request_box_def fun_eq_iff)+

lemma query_box_step:
  assumes "conc_step J s s'"
  shows "mb_step (jb_qid J) (query_box s) (query_box s')"
  using assms
proof (cases rule: conc_step.cases)
  case (QDeliverLookup qid ch qr)
  show ?thesis
    by (rule becomes [OF mb_step.Lookup [where rid = qid and v = qr and ch = ch]])
       (simp_all add: QDeliverLookup query_box_def)
next
  case (QDeliverSend l1 ch qr l2)
  show ?thesis
    by (rule becomes [OF mb_step.Send [where v = qr and ch = ch]]) (simp_all add: QDeliverSend query_box_def)
next
  case (QRegister t ds)
  show ?thesis
    by (rule becomes [OF mb_step.Register [where t = t]]) (auto simp: QRegister query_box_def fun_eq_iff)
next
  case (QReceive t ch qr rest)
  show ?thesis
    by (rule becomes [OF mb_step.Receive [where t = t and ch = ch and v = qr and rest = rest]])
       (auto simp: QReceive query_box_def fun_eq_iff)
next
  case (QDelete t ch r)
  show ?thesis
    by (rule becomes [OF mb_step.Delete [where t = t and ch = ch]])
       (auto simp: QDelete query_box_def fun_eq_iff)
next
  case (Register t ds)
  show ?thesis by (rule becomes [OF mb_step.Alloc]) (simp add: Register query_box_def)
qed (rule stays; auto simp: query_box_def fun_eq_iff)+

interpretation rqs: mailbox_client "conc_step J" "request_id J" request_box for J
  by unfold_locales (rule request_box_step)

interpretation qrs: mailbox_client "conc_step J" "jb_qid J" query_box for J
  by unfold_locales (rule query_box_step)

lemma boxes_init: "mb_ok ids (request_box conc_init)" "mb_ok ids (query_box conc_init)"
  by (simp_all add: mb_ok_def entries_ok_def values_ok_def)
     (simp_all add: conc_init_def newHub_def)

section \<open>Routing\<close>

text \<open>Devices are only ever listed for accounts they proved, and frames only written to those.\<close>

definition proved_by :: "conc \<Rightarrow> string \<Rightarrow> agentConn \<Rightarrow> bool" where
  "proved_by s acc d \<longleftrightarrow> d \<in> cs_bound s \<and> acc \<in> set (ac_accounts d)"

text \<open>The frames of the requests and queries that have started, with the account they are for.\<close>

definition job_frame :: "jobs \<Rightarrow> conc \<Rightarrow> string \<Rightarrow> Envelope \<Rightarrow> bool" where
  "job_frame J s acc env \<longleftrightarrow>
     (\<exists>t. cs_phase s t \<noteq> Start \<and> acc = jb_account J t
        \<and> (env = request_frame (jb_request J t) \<or> env = withdraw_frame (request_id J t)))
     \<or> (\<exists>t. cs_qphase s t \<noteq> QStart \<and> acc = jb_qaccount J t \<and> env = query_frame (jb_qid J t) (jb_query J t))"

definition routing_ok :: "jobs \<Rightarrow> conc \<Rightarrow> bool" where
  "routing_ok J s \<longleftrightarrow>
     (\<forall>acc. \<forall>d\<in>set (bound_to (cs_hub s) acc). proved_by s acc d)
     \<and> (\<forall>t. \<forall>d\<in>set (targets (cs_phase s t)). proved_by s (jb_account J t) d)
     \<and> (\<forall>t. \<forall>d\<in>set (qtargets (cs_qphase s t)). proved_by s (jb_qaccount J t) d)
     \<and> (\<forall>(ws, env)\<in>set (cs_sent s). \<exists>acc d. proved_by s acc d \<and> ws = ac_ws d \<and> job_frame J s acc env)"

lemma started_mono:
  assumes "conc_step J s s'"
  shows "cs_phase s t \<noteq> Start \<Longrightarrow> cs_phase s' t \<noteq> Start" "cs_qphase s t \<noteq> QStart \<Longrightarrow> cs_qphase s' t \<noteq> QStart"
  using assms by (elim conc_stepE; auto simp: after_writes_def)+

lemma job_frame_mono: "conc_step J s s' \<Longrightarrow> job_frame J s acc env \<Longrightarrow> job_frame J s' acc env"
  unfolding job_frame_def using started_mono by blast

lemma bound_mono: "conc_step J s s' \<Longrightarrow> cs_bound s \<subseteq> cs_bound s'"
  by (elim conc_stepE) auto

lemma routing_mono:
  assumes "conc_step J s s'" "routing_ok J s"
    "\<And>acc d. d \<in> set (bound_to (cs_hub s') acc) \<Longrightarrow> d \<in> set (bound_to (cs_hub s) acc) \<or> proved_by s' acc d"
    "\<And>t d. d \<in> set (targets (cs_phase s' t)) \<Longrightarrow>
       d \<in> set (targets (cs_phase s t)) \<or> d \<in> set (bound_to (cs_hub s) (jb_account J t))"
    "\<And>t d. d \<in> set (qtargets (cs_qphase s' t)) \<Longrightarrow>
       d \<in> set (qtargets (cs_qphase s t)) \<or> d \<in> set (bound_to (cs_hub s) (jb_qaccount J t))"
    "\<And>ws env. (ws, env) \<in> set (cs_sent s') \<Longrightarrow> (ws, env) \<in> set (cs_sent s)
       \<or> (\<exists>acc d. proved_by s acc d \<and> ws = ac_ws d \<and> job_frame J s' acc env)"
  shows "routing_ok J s'"
proof -
  have mono: "proved_by s acc d \<Longrightarrow> proved_by s' acc d" for acc d
    using bound_mono [OF assms(1)] unfolding proved_by_def by blast
  have "proved_by s' acc d" if "d \<in> set (bound_to (cs_hub s') acc)" for acc d
    using assms(3) [OF that] assms(2) mono unfolding routing_ok_def by blast
  moreover have "proved_by s' (jb_account J t) d" if "d \<in> set (targets (cs_phase s' t))" for t d
    using assms(4) [OF that] assms(2) mono unfolding routing_ok_def by blast
  moreover have "proved_by s' (jb_qaccount J t) d" if "d \<in> set (qtargets (cs_qphase s' t))" for t d
    using assms(5) [OF that] assms(2) mono unfolding routing_ok_def by blast
  moreover have "\<exists>acc d. proved_by s' acc d \<and> ws = ac_ws d \<and> job_frame J s' acc env"
    if "(ws, env) \<in> set (cs_sent s')" for ws env
    using assms(6) [OF that] assms(2) mono job_frame_mono [OF assms(1)] unfolding routing_ok_def by blast
  ultimately show ?thesis unfolding routing_ok_def by blast
qed

lemma routingD:
  assumes "routing_ok J s"
  shows "d \<in> set (targets (cs_phase s t)) \<Longrightarrow> proved_by s (jb_account J t) d"
    "d \<in> set (qtargets (cs_qphase s t)) \<Longrightarrow> proved_by s (jb_qaccount J t) d"
    "(ws, env) \<in> set (cs_sent s) \<Longrightarrow> \<exists>acc d. proved_by s acc d \<and> ws = ac_ws d \<and> job_frame J s acc env"
  using assms unfolding routing_ok_def by blast+

lemma job_frames:
  "cs_phase s t \<noteq> Start \<Longrightarrow> job_frame J s (jb_account J t) (request_frame (jb_request J t))"
  "cs_phase s t \<noteq> Start \<Longrightarrow> job_frame J s (jb_account J t) (withdraw_frame (request_id J t))"
  "cs_qphase s t \<noteq> QStart \<Longrightarrow> job_frame J s (jb_qaccount J t) (query_frame (jb_qid J t) (jb_query J t))"
  unfolding job_frame_def by blast+

lemma routing_step:
  assumes step: "conc_step J s s'" and ok: "routing_ok J s"
  shows "routing_ok J s'"
  using step
proof (cases rule: conc_step.cases)
  case (Bind a)
  show ?thesis
    by (rule routing_mono [OF step ok]) (auto simp: Bind bind_bound proved_by_def split: if_splits)
next
  case (Unbind a)
  show ?thesis by (rule routing_mono [OF step ok]) (auto simp: Unbind unbind_bound split: if_splits)
next
  case (Write t ch d ds n okay)
  have "proved_by s (jb_account J t) d" by (rule routingD [OF ok]) (simp add: Write)
  then show ?thesis using job_frames(1) [of s' t J] Write(2)
    by (intro routing_mono [OF step ok]) (auto simp: Write(1) split: if_splits)
next
  case (Withdraw t r d ds okay)
  have "proved_by s (jb_account J t) d" by (rule routingD [OF ok]) (simp add: Withdraw)
  then show ?thesis using job_frames(2) [of s' t J] Withdraw(2)
    by (intro routing_mono [OF step ok]) (auto simp: Withdraw(1) split: if_splits)
next
  case (QAsk t ch d ds okay)
  have "proved_by s (jb_qaccount J t) d" by (rule routingD [OF ok]) (simp add: QAsk)
  then show ?thesis using job_frames(3) [of s' t J] QAsk(2)
    by (intro routing_mono [OF step ok]) (auto simp: QAsk(1) split: if_splits)
qed (rule routing_mono [OF step ok]; auto simp: devices_rev split: if_splits)+

section \<open>Reachable states\<close>

lemma reach_routing: "conc_reach J s \<Longrightarrow> routing_ok J s"
  unfolding conc_reach_def
proof (induction rule: rtranclp_induct)
  case base
  show ?case by (simp add: conc_init_def newHub_def routing_ok_def bound_to_def)
next
  case (step s s')
  then show ?case by (blast intro: routing_step)
qed

end
