(* ===== verification/Relay_System.thy ===== *)
theory Relay_System
  imports Server_Calls Http_Props Hub_Concurrent
begin

text \<open>
  The relay as one system: any number of device connections and of calls of the HTTP API, interleaved.
  A connection goes through the phases of \<^verbatim>\<open>handleAgent\<close> (\<^verbatim>\<open>cmd/relay/http.go\<close>): hello, challenge,
  proof, welcome, then one message after another until it closes; a control message is handled as
  the store calls \<open>permitted\<close> to it, one at a time. A call is authenticated, admitted by the rate
  limiter, built, and then runs as a thread of the hub (\<open>Hub_Concurrent\<close>). The steps are made of the
  same operations as the handlers of \<open>Server\<close> and \<open>Http\<close>. The limiter looks a bucket up under one lock and
  draws from it under another; when the bucket is pruned in between, the call is admitted or refused by a
  bucket that is no longer in the map. What a device sends is up to it: the only
  restriction, \<open>G\<close>, is which identifiers a connection can name in a result; it is a parameter.
\<close>

section \<open>The state\<close>

datatype link =
    Fresh
  | Challenged Hello "byte list"
  | Bound agentConn                  \<comment> \<open>in the hub, not yet welcomed\<close>
  | Enrolled agentConn               \<comment> \<open>in the read loop\<close>
  | Handling agentConn Control       \<comment> \<open>in the handler of a control message\<close>
  | Closed

datatype call =
    Idle
  | Known APIKey                     \<comment> \<open>the key was resolved\<close>
  | Allowed APIKey                   \<comment> \<open>the rate limiter let it pass\<close>
  | Running APIKey                   \<comment> \<open>built and handed to the hub\<close>

record 's relay =
  ry_conc :: conc
  ry_store :: 's
  ry_rl :: rateLimiter
  ry_world :: World
  ry_link :: "nat \<Rightarrow> link"
  ry_call :: "nat \<Rightarrow> call"           \<comment> \<open>creation requests, numbered as in \<open>jobs\<close>\<close>
  ry_qcall :: "nat \<Rightarrow> call"          \<comment> \<open>queries\<close>
  ry_heard :: "(nat \<times> Envelope) list" \<comment> \<open>everything the connections have sent\<close>

definition relay_init :: "'s \<Rightarrow> World \<Rightarrow> 's relay" where
  "relay_init store w = \<lparr>ry_conc = conc_init, ry_store = store, ry_rl = newRateLimiter 5 20 Hour,
     ry_world = w, ry_link = (\<lambda>_. Fresh), ry_call = (\<lambda>_. Idle), ry_qcall = (\<lambda>_. Idle), ry_heard = []\<rparr>"

definition set_link :: "nat \<Rightarrow> link \<Rightarrow> 's relay \<Rightarrow> 's relay" where
  "set_link ws l r = r\<lparr>ry_link := (ry_link r)(ws := l)\<rparr>"

definition hear :: "nat \<Rightarrow> Envelope \<Rightarrow> 's relay \<Rightarrow> 's relay" where
  "hear ws env r = r\<lparr>ry_heard := (ws, env) # ry_heard r\<rparr>"

definition on_conc :: "(conc \<Rightarrow> conc) \<Rightarrow> 's relay \<Rightarrow> 's relay" where
  "on_conc f r = r\<lparr>ry_conc := f (ry_conc r)\<rparr>"

definition set_call :: "nat \<Rightarrow> call \<Rightarrow> 's relay \<Rightarrow> 's relay" where
  "set_call t c r = r\<lparr>ry_call := (ry_call r)(t := c)\<rparr>"

definition set_qcall :: "nat \<Rightarrow> call \<Rightarrow> 's relay \<Rightarrow> 's relay" where
  "set_qcall t c r = r\<lparr>ry_qcall := (ry_qcall r)(t := c)\<rparr>"

definition key_query :: "APIKey \<Rightarrow> string \<Rightarrow> string \<Rightarrow> Query" where
  "key_query key op nonce =
     \<lparr>q_Op = op, q_ContactID = k_ID key, q_Account = k_OwnerAccount key, q_Nonce = nonce\<rparr>"

section \<open>The steps\<close>

inductive relay_step :: "jobs \<Rightarrow> 's Store \<Rightarrow> blake2b \<Rightarrow> ('e, 'p) edwards \<Rightarrow>
    ('s relay \<Rightarrow> nat \<Rightarrow> string \<Rightarrow> bool) \<Rightarrow> 's relay \<Rightarrow> 's relay \<Rightarrow> bool"
  for J :: jobs and S :: "'s Store" and B :: blake2b and E :: "('e, 'p) edwards"
    and G :: "'s relay \<Rightarrow> nat \<Rightarrow> string \<Rightarrow> bool"
where
  Hello: "ry_link r ws = Fresh \<Longrightarrow> e_Type env = TypeHello \<Longrightarrow> e_Hello env = Some h \<Longrightarrow> h_Accounts h \<noteq> [] \<Longrightarrow>
    randomBytes 32 (ry_world r) = (nonce, w1) \<Longrightarrow> ws_WriteJSON ws (challenge_frame nonce) w1 = (ok, w2) \<Longrightarrow>
    relay_step J S B E G r
      (set_link ws (if ok then Challenged h nonce else Closed) (hear ws env
        (r\<lparr>ry_world := if ok then w2 else writeWSError ws msg w2\<rparr>)))"
| Prove: "ry_link r ws = Challenged h nonce \<Longrightarrow> e_Type env = TypeAuth \<Longrightarrow> e_Auth env = Some au \<Longrightarrow>
    prove_loop B E nonce (au_Signatures au) (h_Accounts h) [] = Inr proven \<Longrightarrow> proven \<noteq> [] \<Longrightarrow>
    a = \<lparr>ac_deviceID = h_DeviceID h, ac_accounts = proven, ac_ws = ws\<rparr> \<Longrightarrow>
    relay_step J S B E G r (set_link ws (Bound a) (hear ws env
      (on_conc (\<lambda>c. (on_hub (Hub.bind a) c)\<lparr>cs_bound := insert a (cs_bound c)\<rparr>) r)))"
| Refuse: "ry_link r ws = Fresh \<or> (\<exists>h nonce. ry_link r ws = Challenged h nonce) \<Longrightarrow>
    relay_step J S B E G r (set_link ws Closed (r\<lparr>ry_world := writeWSError ws msg (ry_world r)\<rparr>))"
| Abort: "ry_link r ws = Fresh \<or> (\<exists>h nonce. ry_link r ws = Challenged h nonce) \<Longrightarrow>
    relay_step J S B E G r (set_link ws Closed r)" \<comment> \<open>no upgrade, or a panic\<close>
| Welcome: "ry_link r ws = Bound a \<Longrightarrow>
    writeJSON_conn a ((envelope TypeWelcome)\<lparr>e_Welcome := Some \<lparr>w_Accounts = ac_accounts a\<rparr>\<rparr>) (ry_world r)
      = (ok, w) \<Longrightarrow>
    relay_step J S B E G r (set_link ws (Enrolled a) (r\<lparr>ry_world := w\<rparr>))"
| Control: "ry_link r ws = Enrolled a \<Longrightarrow> e_Type env = TypeControl \<Longrightarrow> e_Control env = Some c \<Longrightarrow>
    list_all utf8_valid (c_AllowedOrigins c) \<Longrightarrow>
    relay_step J S B E G r (set_link ws (Handling a c) (hear ws env r))"
| StoreCall: "ry_link r ws = Handling a c \<Longrightarrow> permitted (ac_accounts a) c cmd \<Longrightarrow>
    exec_cmd S (ry_store r) cmd = (ans, st) \<Longrightarrow> relay_step J S B E G r (r\<lparr>ry_store := st\<rparr>)"
| Reply: "ry_link r ws = Handling a c \<Longrightarrow>
    writeJSON_conn a ((envelope TypeControl)\<lparr>e_Control := Some reply\<rparr>) (ry_world r) = (ok, w) \<Longrightarrow>
    relay_step J S B E G r (set_link ws (Enrolled a) (r\<lparr>ry_world := w\<rparr>))"
| Result: "ry_link r ws = Enrolled a \<Longrightarrow> e_Type env = TypeResult \<Longrightarrow> e_Result env = Some res \<Longrightarrow>
    G r ws (res_RequestID res) \<Longrightarrow> hb_pending (cs_hub (ry_conc r)) (res_RequestID res) = Some ch \<Longrightarrow>
    relay_step J S B E G r (hear ws env (on_conc (\<lambda>c. c\<lparr>cs_flight := (ch, res) # cs_flight c,
      cs_reported := insert res (cs_reported c)\<rparr>) r))"
| QueryResult: "ry_link r ws = Enrolled a \<Longrightarrow> e_Type env = TypeQueryResult \<Longrightarrow>
    e_QueryResult env = Some qr \<Longrightarrow> G r ws (e_ID env) \<Longrightarrow>
    hb_queryPending (cs_hub (ry_conc r)) (e_ID env) = Some ch \<Longrightarrow>
    relay_step J S B E G r (hear ws env (on_conc (\<lambda>c. c\<lparr>cs_qflight := (ch, qr) # cs_qflight c,
      cs_answered := insert (e_ID env, qr) (cs_answered c)\<rparr>) r))"
| Ignore: "ry_link r ws = Enrolled a \<Longrightarrow> relay_step J S B E G r (hear ws env r)"
| Close: "ry_link r ws = Bound a \<or> ry_link r ws = Enrolled a \<Longrightarrow>
    relay_step J S B E G r (set_link ws Closed (on_conc (on_hub (unbind a)) r))"
| Key: "ry_call r t = Idle \<Longrightarrow> authKey S rq (ry_store r) = ((key, ok), st) \<Longrightarrow>
    relay_step J S B E G r (set_call t (if ok then Known key else Idle) (r\<lparr>ry_store := st\<rparr>))"
| Admit: "ry_call r t = Known key \<Longrightarrow> rl_allow (k_ID key) (ry_rl r) (ry_world r) = (ok, rl, w) \<Longrightarrow>
    relay_step J S B E G r (set_call t (if ok then Allowed key else Idle) (r\<lparr>ry_rl := rl, ry_world := w\<rparr>))"
| AdmitPruned: "ry_call r t = Known key \<Longrightarrow>
    kl_allow (rl_rate (ry_rl r)) (rl_burst (ry_rl r)) kl (ry_world r) = (ok, kl', w) \<Longrightarrow>
    relay_step J S B E G r (set_call t (if ok then Allowed key else Idle) (r\<lparr>ry_world := w\<rparr>))"
    \<comment> \<open>the bucket \<open>kl\<close> was looked up, then pruned\<close>
| Build: "ry_call r t = Allowed key \<Longrightarrow>
    decode_struct maxRequestBodyBytes body_fields raw = Some body \<Longrightarrow>
    buildTxRequest B key body (ry_world r) = (Inr (jb_request J t), w) \<Longrightarrow> jb_account J t = k_OwnerAccount key \<Longrightarrow>
    relay_step J S B E G r (set_call t (Running key) (r\<lparr>ry_world := w\<rparr>))"
| Reject: "ry_call r t = Allowed key \<Longrightarrow>
    decode_struct maxRequestBodyBytes body_fields raw = Some body \<Longrightarrow>
    buildTxRequest B key body (ry_world r) = (Inl e, w) \<Longrightarrow>
    relay_step J S B E G r (set_call t Idle (r\<lparr>ry_world := w\<rparr>))"
| QKey: "ry_qcall r t = Idle \<Longrightarrow> authKey S rq (ry_store r) = ((key, ok), st) \<Longrightarrow>
    relay_step J S B E G r (set_qcall t (if ok then Known key else Idle) (r\<lparr>ry_store := st\<rparr>))"
| QAdmit: "ry_qcall r t = Known key \<Longrightarrow> rl_allow (k_ID key) (ry_rl r) (ry_world r) = (ok, rl, w) \<Longrightarrow>
    relay_step J S B E G r (set_qcall t (if ok then Known key else Idle) (r\<lparr>ry_rl := rl, ry_world := w\<rparr>))"
| QAdmitPruned: "ry_qcall r t = Known key \<Longrightarrow>
    kl_allow (rl_rate (ry_rl r)) (rl_burst (ry_rl r)) kl (ry_world r) = (ok, kl', w) \<Longrightarrow>
    relay_step J S B E G r (set_qcall t (if ok then Known key else Idle) (r\<lparr>ry_world := w\<rparr>))"
| QBuild: "ry_qcall r t = Known key \<Longrightarrow> jb_qaccount J t = k_OwnerAccount key \<Longrightarrow>
    jb_query J t = key_query key op nonce \<Longrightarrow> randomSecret 12 (ry_world r) = (secret, w) \<Longrightarrow>
    jb_qid J t = ''qry_'' @ secret \<Longrightarrow>
    relay_step J S B E G r (set_qcall t (Running key) (r\<lparr>ry_world := w\<rparr>))"
| Preflight: "OriginAllowed S (ry_store r) org = (ans, st) \<Longrightarrow> relay_step J S B E G r (r\<lparr>ry_store := st\<rparr>)"
| Prune: "prune (ry_rl r) (ry_world r) = (rl, w) \<Longrightarrow> relay_step J S B E G r (r\<lparr>ry_rl := rl, ry_world := w\<rparr>)"
| Run: "conc_step J (ry_conc r) c \<Longrightarrow>
    \<forall>t. cs_phase c t \<noteq> cs_phase (ry_conc r) t \<longrightarrow> (\<exists>key. ry_call r t = Running key) \<Longrightarrow>
    \<forall>t. cs_qphase c t \<noteq> cs_qphase (ry_conc r) t \<longrightarrow> (\<exists>key. ry_qcall r t = Running key) \<Longrightarrow>
    hb_bindings (cs_hub c) = hb_bindings (cs_hub (ry_conc r)) \<Longrightarrow> cs_bound c = cs_bound (ry_conc r) \<Longrightarrow>
    cs_reported c = cs_reported (ry_conc r) \<Longrightarrow> cs_answered c = cs_answered (ry_conc r) \<Longrightarrow>
    relay_step J S B E G r (on_conc (\<lambda>_. c) r)"

inductive_cases relay_stepE: "relay_step J S B E G r r'"

lemma relay_ops [simp]:
  "ry_conc (set_link ws l r) = ry_conc r" "ry_store (set_link ws l r) = ry_store r"
  "ry_world (set_link ws l r) = ry_world r" "ry_link (set_link ws l r) = (ry_link r)(ws := l)"
  "ry_call (set_link ws l r) = ry_call r" "ry_qcall (set_link ws l r) = ry_qcall r"
  "ry_heard (set_link ws l r) = ry_heard r"
  "ry_conc (hear ws env r) = ry_conc r" "ry_store (hear ws env r) = ry_store r"
  "ry_world (hear ws env r) = ry_world r" "ry_link (hear ws env r) = ry_link r"
  "ry_call (hear ws env r) = ry_call r" "ry_qcall (hear ws env r) = ry_qcall r"
  "ry_heard (hear ws env r) = (ws, env) # ry_heard r"
  "ry_conc (on_conc f r) = f (ry_conc r)" "ry_store (on_conc f r) = ry_store r"
  "ry_world (on_conc f r) = ry_world r" "ry_link (on_conc f r) = ry_link r"
  "ry_call (on_conc f r) = ry_call r" "ry_qcall (on_conc f r) = ry_qcall r"
  "ry_heard (on_conc f r) = ry_heard r"
  by (simp_all add: set_link_def hear_def on_conc_def)

lemma relay_call_ops [simp]:
  "ry_conc (set_call t c r) = ry_conc r" "ry_store (set_call t c r) = ry_store r"
  "ry_world (set_call t c r) = ry_world r" "ry_link (set_call t c r) = ry_link r"
  "ry_call (set_call t c r) = (ry_call r)(t := c)" "ry_qcall (set_call t c r) = ry_qcall r"
  "ry_heard (set_call t c r) = ry_heard r"
  "ry_conc (set_qcall t c r) = ry_conc r" "ry_store (set_qcall t c r) = ry_store r"
  "ry_world (set_qcall t c r) = ry_world r" "ry_link (set_qcall t c r) = ry_link r"
  "ry_qcall (set_qcall t c r) = (ry_qcall r)(t := c)" "ry_call (set_qcall t c r) = ry_call r"
  "ry_heard (set_qcall t c r) = ry_heard r"
  by (simp_all add: set_call_def set_qcall_def)

section \<open>The hub inside the relay\<close>

text \<open>Every step of the relay is a step of the hub's threads, or leaves them alone.\<close>

lemma relay_conc_step:
  assumes "relay_step J S B E G r r'"
  shows "ry_conc r' = ry_conc r \<or> conc_step J (ry_conc r) (ry_conc r')"
  using assms
proof (cases rule: relay_step.cases)
  case (Prove ws h nonce env au proven a)
  then show ?thesis using conc_step.Bind [of J "ry_conc r" a] by simp
next
  case (Result ws a env res ch)
  then show ?thesis using conc_step.DeliverLookup [of "ry_conc r" res ch J] by simp
next
  case (QueryResult ws a env qr ch)
  then show ?thesis using conc_step.QDeliverLookup [of "ry_conc r" "e_ID env" ch J qr] by simp
next
  case (Close ws a)
  then show ?thesis using conc_step.Unbind [of J "ry_conc r" a] by simp
qed simp_all

definition relay_reach :: "jobs \<Rightarrow> 's Store \<Rightarrow> blake2b \<Rightarrow> ('e, 'p) edwards \<Rightarrow>
    ('s relay \<Rightarrow> nat \<Rightarrow> string \<Rightarrow> bool) \<Rightarrow> 's \<Rightarrow> World \<Rightarrow> 's relay \<Rightarrow> bool" where
  "relay_reach J S B E G store w r \<longleftrightarrow> (relay_step J S B E G)\<^sup>*\<^sup>* (relay_init store w) r"

lemma relay_reach_induct [consumes 1, case_names init step]:
  assumes "relay_reach J S B E G store w r" "P (relay_init store w)"
    "\<And>r r'. relay_reach J S B E G store w r \<Longrightarrow> P r \<Longrightarrow> relay_step J S B E G r r' \<Longrightarrow> P r'"
  shows "P r"
  using assms(1) unfolding relay_reach_def
  by (induction rule: rtranclp_induct) (use assms(2,3) in \<open>auto simp: relay_reach_def\<close>)

lemma relay_go: "relay_reach J S B E G store w r \<Longrightarrow> relay_step J S B E G r r' \<Longrightarrow> relay_reach J S B E G store w r'"
  unfolding relay_reach_def by (rule rtranclp.rtrancl_into_rtrancl)

lemma relay_conc_reach: "relay_reach J S B E G store w r \<Longrightarrow> conc_reach J (ry_conc r)"
proof (induction rule: relay_reach_induct)
  case init
  show ?case by (simp add: relay_init_def reach_init)
next
  case (step r r')
  then show ?case using relay_conc_step [OF step(2)] reach_step by metis
qed

end
