(* ===== verification/Hub_Concurrent_Props.thy ===== *)
theory Hub_Concurrent_Props
  imports Hub_Concurrent
begin

text \<open>
  What holds however the goroutines of the hub interleave: results and answers are never mixed up,
  frames stay with the account they are for, no waiter is left behind, and every call ends.
\<close>

section \<open>A run\<close>

text \<open>
  A device binds, request 0 is sent there, the device answers, and the thread returns; then query 0
  asks the same device and its context expires.
\<close>

definition sample_jobs :: jobs where
  "sample_jobs = \<lparr>jb_account = (\<lambda>_. ''x''), jb_request = (\<lambda>t. zero_TxRequest\<lparr>tr_ID := replicate t CHR ''a''\<rparr>),
     jb_qaccount = (\<lambda>_. ''x''), jb_qid = (\<lambda>t. replicate t CHR ''a''),
     jb_query = (\<lambda>_. \<lparr>q_Op = ''balance'', q_ContactID = [], q_Account = ''x'', q_Nonce = []\<rparr>)\<rparr>"

definition sample_res :: TxResult where
  "sample_res = result1 []"

lemma sample_ids: "distinct_ids sample_jobs"
  by (simp add: distinct_ids_def inj_def request_id_def sample_jobs_def replicate_eq_replicate)

lemma sample_jobs_sel [simp]:
  "request_id sample_jobs 0 = []" "jb_account sample_jobs t = ''x''" "jb_qaccount sample_jobs t = ''x''"
  "res_RequestID sample_res = []" "jb_qid sample_jobs 0 = []"
  by (simp_all add: request_id_def sample_jobs_def sample_res_def result1_def)

lemma hub1_sel [simp]: "hb_next hub1 = 0" "ac_ws dev1 = 1"
  by (simp_all add: hub1_def newHub_def dev1_def)

definition smp :: "agentConn \<Rightarrow> phase \<Rightarrow> qphase \<Rightarrow> Hub \<Rightarrow> (nat \<times> TxResult) list \<Rightarrow> (nat \<times> Envelope) list \<Rightarrow>
    TxResult set \<Rightarrow> conc" where
  "smp d ph qh h fl fs rep = \<lparr>cs_hub = h, cs_phase = (\<lambda>_. Start)(0 := ph), cs_qphase = (\<lambda>_. QStart)(0 := qh),
     cs_flight = fl, cs_qflight = [], cs_sent = fs, cs_bound = {d}, cs_reported = rep, cs_answered = {}\<rparr>"

lemma smp_simps [simp]:
  "cs_hub (smp d0 ph qh h fl fs rep) = h" "cs_phase (smp d0 ph qh h fl fs rep) = (\<lambda>_. Start)(0 := ph)"
  "cs_qphase (smp d0 ph qh h fl fs rep) = (\<lambda>_. QStart)(0 := qh)"
  "cs_flight (smp d0 ph qh h fl fs rep) = fl" "cs_sent (smp d0 ph qh h fl fs rep) = fs"
  "cs_reported (smp d0 ph qh h fl fs rep) = rep"
  "go 0 ph' (smp d0 ph qh h fl fs rep) = smp d0 ph' qh h fl fs rep"
  "qgo 0 qh' (smp d0 ph qh h fl fs rep) = smp d0 ph qh' h fl fs rep"
  "on_hub f (smp d0 ph qh h fl fs rep) = smp d0 ph qh (f h) fl fs rep"
  "frame_written ok d env (smp d0 ph qh h fl fs rep)
     = smp d0 ph qh h fl (fs @ (if ok then [(ac_ws d, env)] else [])) rep"
  "(smp d0 ph qh h fl fs rep)\<lparr>cs_flight := fl'\<rparr> = smp d0 ph qh h fl' fs rep"
  "(smp d0 ph qh h fl fs rep)\<lparr>cs_reported := rep'\<rparr> = smp d0 ph qh h fl fs rep'"
  by (simp_all add: smp_def go_def qgo_def on_hub_def frame_written_def)

lemma same_devices [simp]:
  "devicesForAccount (register rid h) acc = devicesForAccount h acc"
  "devicesForAccount (deregister rid h) acc = devicesForAccount h acc"
  "devicesForAccount (set_chan ch buf h) acc = devicesForAccount h acc"
  "devicesForAccount (qregister qid h) acc = devicesForAccount h acc"
  by (simp_all add: devices_rev)

lemma sample_run:
  obtains s where "conc_reach sample_jobs s" "cs_phase s = (\<lambda>_. Start)(0 := Done (Inr sample_res))"
    "cs_qphase s = (\<lambda>_. QStart)(0 := QDone (Inl (ctx_Err DeadlineExceeded)))"
    "(1, request_frame (jb_request sample_jobs 0)) \<in> set (cs_sent s)"
proof -
  let ?R = "conc_reach sample_jobs"
  let ?h1 = "register [] hub1"
  let ?h2 = "deregister [] (set_chan 0 [] (set_chan 0 [sample_res] ?h1))"
  let ?h3 = "qderegister [] (qregister [] ?h2)"
  let ?fs = "[(1, request_frame (jb_request sample_jobs 0))]"
  let ?gs = "?fs @ [(1, query_frame [] (jb_query sample_jobs 0))]"
  have "?R (smp dev1 Start QStart hub1 [] [] {})"
    using reach_step [OF reach_init conc_step.Bind [of _ _ dev1]]
    by (simp add: conc_init_def smp_def hub1_def fun_upd_def on_hub_def)
  from reach_step [OF this conc_step.List [of _ 0, OF _ refl]]
  have "?R (smp dev1 (Looked [dev1]) QStart hub1 [] [] {})" by (simp add: devices_hub1)
  from reach_step [OF this conc_step.Register [of _ 0]]
  have "?R (smp dev1 (Writing 0 [dev1] 0) QStart ?h1 [] [] {})" by simp
  from reach_step [OF this conc_step.Write [of _ 0 _ _ _ _ _ True]]
  have "?R (smp dev1 (Writing 0 [] 1) QStart ?h1 [] ?fs {})" by simp
  from reach_step [OF this conc_step.Written [of _ 0]]
  have "?R (smp dev1 (Waiting 0) QStart ?h1 [] ?fs {})" by (simp add: after_writes_def)
  from reach_step [OF this conc_step.DeliverLookup [of _ sample_res 0]]
  have "?R (smp dev1 (Waiting 0) QStart ?h1 [(0, sample_res)] ?fs {sample_res})" by simp
  from reach_step [OF this conc_step.DeliverSend [of _ "[]"]]
  have "?R (smp dev1 (Waiting 0) QStart (set_chan 0 [sample_res] ?h1) [] ?fs {sample_res})"
    by (simp add: offer_def)
  from reach_step [OF this conc_step.Receive [of _ 0 0 sample_res "[]"]]
  have "?R (smp dev1 (Returning 0 (Inr sample_res)) QStart (set_chan 0 [] (set_chan 0 [sample_res] ?h1)) []
    ?fs {sample_res})" by simp
  from reach_step [OF this conc_step.Delete [of _ 0]]
  have "?R (smp dev1 (Deleted (Inr sample_res)) QStart ?h2 [] ?fs {sample_res})" by simp
  from reach_step [OF this conc_step.ListAgain [of _ 0]]
  have "?R (smp dev1 (Withdrawing (Inr sample_res) [dev1]) QStart ?h2 [] ?fs {sample_res})"
    by (simp add: devices_hub1)
  from reach_step [OF this conc_step.Withdraw [of _ 0 _ _ _ _ False]]
  have "?R (smp dev1 (Withdrawing (Inr sample_res) []) QStart ?h2 [] ?fs {sample_res})" by simp
  from reach_step [OF this conc_step.Return [of _ 0]]
  have "?R (smp dev1 (Done (Inr sample_res)) QStart ?h2 [] ?fs {sample_res})" by simp
  from reach_step [OF this conc_step.QList [of _ 0, OF _ refl]]
  have "?R (smp dev1 (Done (Inr sample_res)) (QLooked [dev1]) ?h2 [] ?fs {sample_res})"
    by (simp add: devices_hub1)
  from reach_step [OF this conc_step.QRegister [of _ 0]]
  have "?R (smp dev1 (Done (Inr sample_res)) (QAsking 1 [dev1]) (qregister [] ?h2) [] ?fs {sample_res})" by simp
  from reach_step [OF this conc_step.QAsk [of _ 0 _ _ _ _ True]]
  have "?R (smp dev1 (Done (Inr sample_res)) (QWaiting 1) (qregister [] ?h2) [] ?gs {sample_res})" by simp
  from reach_step [OF this conc_step.QExpire [of _ 0 _ _ DeadlineExceeded]]
  have "?R (smp dev1 (Done (Inr sample_res)) (QReturning 1 (Inl (ctx_Err DeadlineExceeded))) (qregister [] ?h2) []
    ?gs {sample_res})" by simp
  from reach_step [OF this conc_step.QDelete [of _ 0]]
  have "?R (smp dev1 (Done (Inr sample_res)) (QDone (Inl (ctx_Err DeadlineExceeded))) ?h3 [] ?gs {sample_res})"
    by simp
  then show ?thesis by (rule that) simp_all
qed

section \<open>Safety\<close>

lemma conc_results_own:
  assumes "distinct_ids J" "conc_reach J s"
  shows "cs_phase s t = Done (Inr res) \<Longrightarrow> res_RequestID res = request_id J t \<and> res \<in> cs_reported s"
    "cs_qphase s t = QDone (Inr qr) \<Longrightarrow> (jb_qid J t, qr) \<in> cs_answered s"
proof -
  note run = assms(2) [unfolded conc_reach_def] and inj = assms(1) [unfolded distinct_ids_def]
  note rq = conjunct1 [OF inj] run boxes_init(1) and qr = conjunct2 [OF inj] run boxes_init(2)
  show "cs_phase s t = Done (Inr res) \<Longrightarrow> res_RequestID res = request_id J t \<and> res \<in> cs_reported s"
    using rqs.got_seen [OF rq, of t res] by auto
  show "cs_qphase s t = QDone (Inr qr) \<Longrightarrow> (jb_qid J t, qr) \<in> cs_answered s"
    using qrs.got_seen [OF qr, of t "qr"] by simp
qed

text \<open>
  C9. Results are never mixed up. However binds, unbinds, deliveries, requests and queries interleave: a
  request that returns a result returns one that was reported for its own id, a query that returns an
  answer returns one that was given under its own identifier, a channel never holds more than one
  value, so no delivery blocks, and no two calls in flight share a waiter.
\<close>

theorem concurrent_results:
  assumes "distinct_ids J" "conc_reach J s"
  shows "(\<forall>t res. cs_phase s t = Done (Inr res) \<longrightarrow> res_RequestID res = request_id J t \<and> res \<in> cs_reported s)
    \<and> (\<forall>t qr. cs_qphase s t = QDone (Inr qr) \<longrightarrow> (jb_qid J t, qr) \<in> cs_answered s)
    \<and> (\<forall>ch. length (hb_chan (cs_hub s) ch) \<le> 1 \<and> length (hb_qchan (cs_hub s) ch) \<le> 1)
    \<and> (\<forall>t t' ch. waiter_of (cs_phase s t) = Some ch \<longrightarrow> waiter_of (cs_phase s t') = Some ch \<longrightarrow> t = t')
    \<and> (\<forall>t t' ch. qwaiter_of (cs_qphase s t) = Some ch \<longrightarrow> qwaiter_of (cs_qphase s t') = Some ch \<longrightarrow> t = t')"
proof -
  note run = assms(2) [unfolded conc_reach_def] and inj = assms(1) [unfolded distinct_ids_def]
  note rq = conjunct1 [OF inj] run boxes_init(1) and qr = conjunct2 [OF inj] run boxes_init(2)
  show ?thesis using conc_results_own [OF assms] rqs.buffered [OF rq] qrs.buffered [OF qr]
      rqs.own_channel [OF rq] qrs.own_channel [OF qr] by simp
qed

theorem concurrent_results_witness:
  "\<exists>s :: conc. cs_phase s 0 = Done (Inr sample_res) \<and> sample_res \<in> cs_reported s"
proof -
  obtain s where s: "conc_reach sample_jobs s" "cs_phase s = (\<lambda>_. Start)(0 := Done (Inr sample_res))"
    by (rule sample_run)
  have "cs_phase s 0 = Done (Inr sample_res)" by (simp add: s(2))
  moreover from this have "sample_res \<in> cs_reported s" using concurrent_results [OF sample_ids s(1)] by blast
  ultimately show ?thesis by blast
qed

text \<open>
  Requests stay with their account. In every reachable state each frame that was written is the
  request or the withdrawal of a request that has started, or the query of a query that has, and went
  to a connection that was bound with that call's account among the accounts it proved.
\<close>

theorem concurrent_routing:
  assumes "conc_reach J s" "(ws, env) \<in> set (cs_sent s)"
  shows "\<exists>acc d. job_frame J s acc env \<and> d \<in> cs_bound s \<and> acc \<in> set (ac_accounts d) \<and> ws = ac_ws d"
  using reach_routing [OF assms(1)] assms(2) unfolding routing_ok_def proved_by_def by blast

theorem concurrent_routing_witness:
  "\<exists>(s :: conc) acc (d :: agentConn). (1, request_frame (jb_request sample_jobs 0)) \<in> set (cs_sent s)
     \<and> job_frame sample_jobs s acc (request_frame (jb_request sample_jobs 0))
     \<and> d \<in> cs_bound s \<and> acc \<in> set (ac_accounts d) \<and> ac_ws d = 1"
proof -
  obtain s where s: "conc_reach sample_jobs s" "(1, request_frame (jb_request sample_jobs 0)) \<in> set (cs_sent s)"
    by (rule sample_run)
  then show ?thesis using concurrent_routing [OF s] by metis
qed

text \<open>
  C10. No waiter leaks. Whenever no call is between registering and removing its waiter, both tables
  of waiters are empty, whatever happened before, timeouts and lost devices included.
\<close>

theorem no_waiter_leak:
  assumes "distinct_ids J" "conc_reach J s"
    "\<forall>t. cs_phase s t = Start \<or> (\<exists>r. cs_phase s t = Done r)"
    "\<forall>t. cs_qphase s t = QStart \<or> (\<exists>r. cs_qphase s t = QDone r)"
  shows "hb_pending (cs_hub s) = Map.empty \<and> hb_queryPending (cs_hub s) = Map.empty"
proof -
  note run = assms(2) [unfolded conc_reach_def] and inj = assms(1) [unfolded distinct_ids_def]
  have "\<forall>t. mb_wait (request_box s) t = None" "\<forall>t. mb_wait (query_box s) t = None"
    using assms(3,4) by (metis box_sel(4) waiter_of.simps(4,8), metis box_sel(11) qwaiter_of.simps(4,6))
  then show ?thesis
    using rqs.no_entry [OF conjunct1 [OF inj] run boxes_init(1)]
      qrs.no_entry [OF conjunct2 [OF inj] run boxes_init(2)] by simp
qed

theorem no_waiter_leak_witness:
  "\<exists>s :: conc. cs_phase s 0 = Done (Inr sample_res) \<and> hb_pending (cs_hub s) = Map.empty
     \<and> hb_queryPending (cs_hub s) = Map.empty"
proof -
  obtain s where s: "conc_reach sample_jobs s" "cs_phase s = (\<lambda>_. Start)(0 := Done (Inr sample_res))"
    "cs_qphase s = (\<lambda>_. QStart)(0 := QDone (Inl (ctx_Err DeadlineExceeded)))"
    by (rule sample_run)
  then show ?thesis using no_waiter_leak [OF sample_ids s(1)] by (intro exI [of _ s]) simp
qed

section \<open>Progress\<close>

text \<open>How far a thread is from its end: its stage, and the devices it has left in this stage.\<close>

fun rank :: "phase \<Rightarrow> nat \<times> nat" where
  "rank Start = (7, 0)"
| "rank (Looked ds) = (6, 0)"
| "rank (Writing ch ds n) = (5, length ds)"
| "rank (Waiting ch) = (4, 0)"
| "rank (Returning ch r) = (3, 0)"
| "rank (Deleted r) = (2, 0)"
| "rank (Withdrawing r ds) = (1, length ds)"
| "rank (Done r) = (0, 0)"

fun qrank :: "qphase \<Rightarrow> nat \<times> nat" where
  "qrank QStart = (4, 0)"
| "qrank (QLooked ds) = (3, 0)"
| "qrank (QAsking ch ds) = (2, Suc (length ds))"
| "qrank (QWaiting ch) = (2, 0)"
| "qrank (QReturning ch r) = (1, 0)"
| "qrank (QDone r) = (0, 0)"

abbreviation closer :: "((nat \<times> nat) \<times> (nat \<times> nat)) set" where
  "closer \<equiv> less_than <*lex*> less_than"

lemma step_rank:
  "conc_step J s s' \<Longrightarrow> cs_phase s' t = cs_phase s t \<or> (rank (cs_phase s' t), rank (cs_phase s t)) \<in> closer"
  by (elim conc_stepE) (auto simp: after_writes_def)

lemma step_qrank:
  "conc_step J s s' \<Longrightarrow> cs_qphase s' t = cs_qphase s t \<or> (qrank (cs_qphase s' t), qrank (cs_qphase s t)) \<in> closer"
  by (elim conc_stepE) auto

lemma step_enabled:
  assumes "\<forall>r. cs_phase s t \<noteq> Done r"
  obtains s' where "conc_step J s s'" "cs_phase s' t \<noteq> cs_phase s t"
proof (cases "cs_phase s t")
  case Start
  then show ?thesis using that [OF conc_step.List [OF Start refl]] by simp
next
  case (Looked ds)
  then show ?thesis using that [OF conc_step.Register [OF Looked]] by simp
next
  case (Writing ch ds n)
  then show ?thesis
    using that [OF conc_step.Written [of s t ch n]] that [OF conc_step.Write [of s t ch _ _ n _ False]]
    by (cases ds) (simp_all add: after_writes_def)
next
  case (Waiting ch)
  then show ?thesis using that [OF conc_step.Expire [OF Waiting, of _ DeadlineExceeded]] by simp
next
  case (Returning ch r)
  then show ?thesis using that [OF conc_step.Delete [OF Returning]] by simp
next
  case (Deleted r)
  then show ?thesis using that [OF conc_step.ListAgain [OF Deleted]] by simp
next
  case (Withdrawing r ds)
  then show ?thesis
    using that [OF conc_step.Return [of s t r]] that [OF conc_step.Withdraw [of s t r _ _ _ False]]
    by (cases ds) simp_all
next
  case (Done r)
  then show ?thesis using assms by simp
qed

lemma step_qenabled:
  assumes "\<forall>r. cs_qphase s t \<noteq> QDone r"
  obtains s' where "conc_step J s s'" "cs_qphase s' t \<noteq> cs_qphase s t"
proof (cases "cs_qphase s t")
  case QStart
  then show ?thesis using that [OF conc_step.QList [OF QStart refl]] by simp
next
  case (QLooked ds)
  then show ?thesis using that [OF conc_step.QRegister [OF QLooked]] by simp
next
  case (QAsking ch ds)
  then show ?thesis
    using that [OF conc_step.QUnasked [of s t ch]] that [OF conc_step.QAsk [of s t ch _ _ _ False]]
    by (cases ds) simp_all
next
  case (QWaiting ch)
  then show ?thesis using that [OF conc_step.QExpire [OF QWaiting, of _ DeadlineExceeded]] by simp
next
  case (QReturning ch r)
  then show ?thesis using that [OF conc_step.QDelete [OF QReturning]] by simp
next
  case (QDone r)
  then show ?thesis using assms by simp
qed

lemma reaches_end:
  assumes "wf R" "\<And>s. \<not> fin s \<Longrightarrow> \<exists>s'. step s s' \<and> (m s', m s) \<in> R"
  shows "\<exists>s'. step\<^sup>*\<^sup>* s s' \<and> fin s'"
proof (induction s rule: wf_induct [OF wf_inv_image [OF assms(1), of m]])
  case (1 s)
  then show ?case using assms(2) [of s] converse_rtranclp_into_rtranclp [of step s]
    by (cases "fin s") (auto, blast)
qed

lemma can_finish: "\<exists>s'. (conc_step J)\<^sup>*\<^sup>* s s' \<and> (\<exists>r. cs_phase s' t = Done r)"
  by (rule reaches_end [where R = closer and m = "\<lambda>s. rank (cs_phase s t)"])
     (blast, metis step_enabled step_rank)

lemma can_qfinish: "\<exists>s'. (conc_step J)\<^sup>*\<^sup>* s s' \<and> (\<exists>r. cs_qphase s' t = QDone r)"
  by (rule reaches_end [where R = closer and m = "\<lambda>s. qrank (cs_qphase s t)"])
     (blast, metis step_qenabled step_qrank)

text \<open>
  C11. Every call ends. A request or query that has not returned always has a step of its own to
  take, whatever the other goroutines have done; every step it takes brings it closer to its end in a
  well-founded order, and no step of another goroutine moves it; so from every state it can return.
\<close>

theorem request_terminates:
  "((\<forall>r. cs_phase s t \<noteq> Done r) \<longrightarrow> (\<exists>s'. conc_step J s s' \<and> cs_phase s' t \<noteq> cs_phase s t))
   \<and> (\<forall>s'. conc_step J s s' \<longrightarrow> cs_phase s' t = cs_phase s t
        \<or> (rank (cs_phase s' t), rank (cs_phase s t)) \<in> less_than <*lex*> less_than)
   \<and> (\<exists>s' r. (conc_step J)\<^sup>*\<^sup>* s s' \<and> cs_phase s' t = Done r)
   \<and> ((\<forall>r. cs_qphase s t \<noteq> QDone r) \<longrightarrow> (\<exists>s'. conc_step J s s' \<and> cs_qphase s' t \<noteq> cs_qphase s t))
   \<and> (\<forall>s'. conc_step J s s' \<longrightarrow> cs_qphase s' t = cs_qphase s t
        \<or> (qrank (cs_qphase s' t), qrank (cs_qphase s t)) \<in> less_than <*lex*> less_than)
   \<and> (\<exists>s' r. (conc_step J)\<^sup>*\<^sup>* s s' \<and> cs_qphase s' t = QDone r)"
proof (intro conjI allI impI)
  assume "\<forall>r. cs_phase s t \<noteq> Done r"
  then show "\<exists>s'. conc_step J s s' \<and> cs_phase s' t \<noteq> cs_phase s t" using step_enabled [of s t] by blast
next
  assume "\<forall>r. cs_qphase s t \<noteq> QDone r"
  then show "\<exists>s'. conc_step J s s' \<and> cs_qphase s' t \<noteq> cs_qphase s t" using step_qenabled [of s t] by blast
qed (use step_rank step_qrank can_finish can_qfinish in blast)+

theorem request_terminates_witness:
  "\<exists>s' r. (conc_step sample_jobs)\<^sup>*\<^sup>* conc_init s' \<and> cs_phase s' 0 = Done r"
  using request_terminates [of conc_init 0] by blast

end
