(* ===== verification/Relay_Handlers.thy ===== *)
theory Relay_Handlers
  imports Relay_System Hub_Concurrent_Props
begin

text \<open>
  The handlers and the steps agree: serving a device from the upgrade of its connection to the close,
  as \<open>handleAgent\<close> of theory \<open>Server\<close> does in one piece, is a run of the steps of \<open>Relay_System\<close> that ends
  with the same hub, store, limiter and outside world. What is proved of every run of the relay holds
  therefore of what the handlers do.
\<close>

section \<open>Servers and relays\<close>

definition agrees :: "'s server \<Rightarrow> 's relay \<Rightarrow> bool" where
  "agrees s r \<longleftrightarrow> cs_hub (ry_conc r) = sv_hub s \<and> ry_store r = sv_store s \<and> ry_rl r = sv_rl s
     \<and> ry_world r = sv_world s"

lemma limiter_ops [simp]:
  "ry_rl (set_link ws l r) = ry_rl r" "ry_rl (hear ws env r) = ry_rl r" "ry_rl (on_conc f r) = ry_rl r"
  by (simp_all add: set_link_def hear_def on_conc_def)

text \<open>Everything that is not the connection's own: the other connections, the calls and their threads.\<close>

definition spares :: "nat \<Rightarrow> 's relay \<Rightarrow> 's relay \<Rightarrow> bool" where
  "spares ws r r' \<longleftrightarrow> (\<forall>v. v \<noteq> ws \<longrightarrow> ry_link r' v = ry_link r v) \<and> ry_call r' = ry_call r \<and> ry_qcall r' = ry_qcall r
     \<and> cs_phase (ry_conc r') = cs_phase (ry_conc r) \<and> cs_qphase (ry_conc r') = cs_qphase (ry_conc r)
     \<and> cs_flight (ry_conc r') = cs_flight (ry_conc r) \<and> cs_qflight (ry_conc r') = cs_qflight (ry_conc r)
     \<and> cs_sent (ry_conc r') = cs_sent (ry_conc r)"

lemma spares_refl: "spares ws r r"
  by (simp add: spares_def)

lemma spares_trans: "spares ws r r1 \<Longrightarrow> spares ws r1 r2 \<Longrightarrow> spares ws r r2"
  by (simp add: spares_def)

text \<open>A run that leaves the rest alone and ends in agreement with a server, the connection in phase \<open>l\<close>.\<close>

definition reaches :: "jobs \<Rightarrow> 's Store \<Rightarrow> blake2b \<Rightarrow> ('e, 'p) edwards \<Rightarrow> nat \<Rightarrow> 's relay \<Rightarrow> 's server \<Rightarrow> link \<Rightarrow> bool" where
  "reaches J S B E ws r s l \<longleftrightarrow> (\<exists>r'. (relay_step J S B E (\<lambda>_ _ _. True))\<^sup>*\<^sup>* r r' \<and> spares ws r r' \<and> agrees s r'
     \<and> ry_link r' ws = l)"

lemma reaches_now: "agrees s r \<Longrightarrow> ry_link r ws = l \<Longrightarrow> reaches J S B E ws r s l"
  unfolding reaches_def using spares_refl by blast

lemma reaches_step:
  assumes "relay_step J S B E (\<lambda>_ _ _. True) r r1" "spares ws r r1" "reaches J S B E ws r1 s l"
  shows "reaches J S B E ws r s l"
proof -
  obtain r' where r': "(relay_step J S B E (\<lambda>_ _ _. True))\<^sup>*\<^sup>* r1 r'" "spares ws r1 r'" "agrees s r'" "ry_link r' ws = l"
    using assms(3) unfolding reaches_def by blast
  then show ?thesis unfolding reaches_def
    using converse_rtranclp_into_rtranclp [of "relay_step J S B E (\<lambda>_ _ _. True)", OF assms(1)]
      spares_trans [OF assms(2)] by blast
qed

lemma reaches_one:
  "relay_step J S B E (\<lambda>_ _ _. True) r r1 \<Longrightarrow> spares ws r r1 \<Longrightarrow> agrees s r1 \<Longrightarrow> ry_link r1 ws = l \<Longrightarrow> reaches J S B E ws r s l"
  by (rule reaches_step) (auto intro: reaches_now)

lemma reaches_two:
  assumes "relay_step J S B E (\<lambda>_ _ _. True) r r1" "relay_step J S B E (\<lambda>_ _ _. True) r1 r2"
    "spares ws r r2" "agrees s r2" "ry_link r2 ws = l"
  shows "reaches J S B E ws r s l"
proof -
  have "(relay_step J S B E (\<lambda>_ _ _. True))\<^sup>*\<^sup>* r r2" using assms(1,2) by (meson r_into_rtranclp rtranclp_trans)
  then show ?thesis unfolding reaches_def using assms(3-5) by blast
qed

lemma reaches_trans:
  assumes "reaches J S B E ws r s1 l1"
    "\<And>r1. agrees s1 r1 \<Longrightarrow> ry_link r1 ws = l1 \<Longrightarrow> reaches J S B E ws r1 s l"
  shows "reaches J S B E ws r s l"
proof -
  obtain r1 where r1: "(relay_step J S B E (\<lambda>_ _ _. True))\<^sup>*\<^sup>* r r1" "spares ws r r1" "agrees s1 r1" "ry_link r1 ws = l1"
    using assms(1) unfolding reaches_def by blast
  show ?thesis using assms(2) [OF r1(3,4)] r1(1,2) spares_trans rtranclp_trans unfolding reaches_def by metis
qed

section \<open>Control messages\<close>

lemma store_calls_run:
  assumes "list_all (permitted (ac_accounts a) c) cs" "agrees s r" "ry_link r ws = Handling a c"
  shows "reaches J S B E ws r (s\<lparr>sv_store := after_calls S (sv_store s) cs\<rparr>) (Handling a c)"
  using assms
proof (induction cs arbitrary: s r)
  case Nil
  then show ?case by (intro reaches_now) (simp_all add: agrees_def)
next
  case (Cons cmd cs)
  obtain ans st where e: "exec_cmd S (sv_store s) cmd = (ans, st)" by fastforce
  have step: "relay_step J S B E (\<lambda>_ _ _. True) r (r\<lparr>ry_store := st\<rparr>)"
    using Cons.prems e by (intro relay_step.StoreCall [of r ws a c cmd]) (simp_all add: agrees_def)
  have "reaches J S B E ws (r\<lparr>ry_store := st\<rparr>) (s\<lparr>sv_store := after_calls S st cs\<rparr>) (Handling a c)"
    using Cons.IH [of "s\<lparr>sv_store := st\<rparr>" "r\<lparr>ry_store := st\<rparr>"] Cons.prems by (simp add: agrees_def)
  moreover have "after_calls S (sv_store s) (cmd # cs) = after_calls S st cs"
    using e by (simp add: after_calls_def split: prod.splits)
  ultimately show ?case by (intro reaches_step [OF step]) (simp_all add: spares_def)
qed

lemma control_run:
  fixes env :: Envelope
  assumes "agrees s r" "ry_link r ws = Enrolled a" "e_Type env = TypeControl" "e_Control env = Some c"
    "list_all utf8_valid (c_AllowedOrigins c)"
  shows "reaches J S B E ws r (handleControl S a c s) (Enrolled a)"
proof -
  obtain reply st where op: "control_op S a c (sv_store s) = (reply, st)" by fastforce
  obtain cs where cs: "list_all (permitted (ac_accounts a) c) cs" "st = after_calls S (sv_store s) cs"
    using control_calls [OF op] by blast
  obtain ok w where w: "writeJSON_conn a ((envelope TypeControl)\<lparr>e_Control := Some reply\<rparr>) (sv_world s) = (ok, w)"
    by fastforce
  let ?r1 = "set_link ws (Handling a c) (hear ws env r)"
  have "reaches J S B E ws ?r1 (s\<lparr>sv_store := st\<rparr>) (Handling a c)"
    unfolding cs(2) using assms(1) by (intro store_calls_run [OF cs(1)]) (simp_all add: agrees_def)
  moreover have "reaches J S B E ws r2 (handleControl S a c s) (Enrolled a)"
    if r2: "agrees (s\<lparr>sv_store := st\<rparr>) r2" "ry_link r2 ws = Handling a c" for r2
  proof -
    have step: "relay_step J S B E (\<lambda>_ _ _. True) r2 (set_link ws (Enrolled a) (r2\<lparr>ry_world := w\<rparr>))"
      using r2 w by (intro relay_step.Reply [of r2 ws a c reply ok w]) (simp_all add: agrees_def)
    show ?thesis
      by (rule reaches_one [OF step]) (use r2 in \<open>simp_all add: spares_def agrees_def handleControl_def op w\<close>)
  qed
  ultimately have run: "reaches J S B E ws ?r1 (handleControl S a c s) (Enrolled a)" by (rule reaches_trans)
  show ?thesis by (rule reaches_step [OF relay_step.Control [OF assms(2-5)] _ run]) (simp add: spares_def)
qed

section \<open>Messages\<close>

lemma result_run:
  fixes env :: Envelope
  assumes "agrees s r" "ry_link r ws = Enrolled a" "e_Type env = TypeResult" "e_Result env = Some res"
  shows "reaches J S B E ws r (s\<lparr>sv_hub := deliverResult res (sv_hub s)\<rparr>) (Enrolled a)"
proof (cases "hb_pending (sv_hub s) (res_RequestID res)")
  case None
  then show ?thesis using assms by (intro reaches_now) (simp_all add: agrees_def deliverResult_def)
next
  case (Some ch)
  let ?r1 = "hear ws env (on_conc (\<lambda>c. c\<lparr>cs_flight := (ch, res) # cs_flight c,
    cs_reported := insert res (cs_reported c)\<rparr>) r)"
  let ?c1 = "ry_conc ?r1"
  let ?c2 = "(on_hub (set_chan ch (offer (hb_chan (cs_hub ?c1) ch) res)) ?c1)\<lparr>cs_flight := cs_flight (ry_conc r)\<rparr>"
  have one: "relay_step J S B E (\<lambda>_ _ _. True) r ?r1"
    using assms Some by (intro relay_step.Result) (simp_all add: agrees_def)
  have "conc_step J ?c1 ?c2" using conc_step.DeliverSend [of ?c1 "[]" ch res "cs_flight (ry_conc r)" J] by simp
  then have two: "relay_step J S B E (\<lambda>_ _ _. True) ?r1 (on_conc (\<lambda>_. ?c2) ?r1)"
    by (intro relay_step.Run) simp_all
  show ?thesis using assms Some
    by (intro reaches_two [OF one two])
       (simp_all add: spares_def agrees_def deliverResult_def set_chan_def)
qed

lemma answer_run:
  fixes env :: Envelope
  assumes "agrees s r" "ry_link r ws = Enrolled a" "e_Type env = TypeQueryResult" "e_QueryResult env = Some qr"
  shows "reaches J S B E ws r (s\<lparr>sv_hub := deliverQueryResult (e_ID env) qr (sv_hub s)\<rparr>) (Enrolled a)"
proof (cases "hb_queryPending (sv_hub s) (e_ID env)")
  case None
  then show ?thesis using assms by (intro reaches_now) (simp_all add: agrees_def deliverQueryResult_def)
next
  case (Some ch)
  let ?r1 = "hear ws env (on_conc (\<lambda>c. c\<lparr>cs_qflight := (ch, qr) # cs_qflight c,
    cs_answered := insert (e_ID env, qr) (cs_answered c)\<rparr>) r)"
  let ?c1 = "ry_conc ?r1"
  let ?c2 = "(on_hub (set_qchan ch (offer (hb_qchan (cs_hub ?c1) ch) qr)) ?c1)\<lparr>cs_qflight := cs_qflight (ry_conc r)\<rparr>"
  have one: "relay_step J S B E (\<lambda>_ _ _. True) r ?r1"
    using assms Some by (intro relay_step.QueryResult) (simp_all add: agrees_def)
  have "conc_step J ?c1 ?c2" using conc_step.QDeliverSend [of ?c1 "[]" ch qr "cs_qflight (ry_conc r)" J] by simp
  then have two: "relay_step J S B E (\<lambda>_ _ _. True) ?r1 (on_conc (\<lambda>_. ?c2) ?r1)"
    by (intro relay_step.Run) simp_all
  show ?thesis using assms Some
    by (intro reaches_two [OF one two])
       (simp_all add: spares_def agrees_def deliverQueryResult_def set_qchan_def)
qed

lemma message_run:
  fixes env :: Envelope
  assumes "agrees s r" "ry_link r ws = Enrolled a" "origins_ok utf8_valid (Some env)"
  shows "reaches J S B E ws r (agent_message S a env s) (Enrolled a)"
proof -
  have types: "TypeResult \<noteq> TypeControl" "TypeResult \<noteq> TypeQueryResult" "TypeControl \<noteq> TypeQueryResult"
    by (simp_all add: envelope_types)
  have stay: ?thesis if "agent_message S a env s = s"
    using that assms by (simp add: reaches_now)
  consider (result) "e_Type env = TypeResult" | (control) "e_Type env = TypeControl"
    | (answer) "e_Type env = TypeQueryResult" | (other) "e_Type env \<notin> {TypeResult, TypeControl, TypeQueryResult}" by blast
  then show ?thesis
  proof cases
    case result
    show ?thesis
    proof (cases "e_Result env")
      case (Some res)
      from result_run [OF assms(1,2) result Some] show ?thesis by (simp add: agent_message_def result Some)
    qed (rule stay, simp add: agent_message_def result)
  next
    case control
    show ?thesis
    proof (cases "e_Control env")
      case (Some c)
      have "list_all utf8_valid (c_AllowedOrigins c)" using assms(3) Some by (simp add: origins_ok_def)
      from control_run [OF assms(1,2) control Some this] show ?thesis
        using types by (simp add: agent_message_def control Some)
    qed (rule stay, use types in \<open>simp add: agent_message_def control\<close>)
  next
    case answer
    show ?thesis
    proof (cases "e_QueryResult env")
      case (Some q)
      from answer_run [OF assms(1,2) answer Some] show ?thesis
        using types by (simp add: agent_message_def answer Some)
    qed (rule stay, use types in \<open>simp add: agent_message_def answer\<close>)
  next
    case other
    then show ?thesis by (intro stay) (simp add: agent_message_def)
  qed
qed

lemma loop_run:
  "agrees s r \<Longrightarrow> ry_link r ws = Enrolled a \<Longrightarrow> list_all (origins_ok utf8_valid) msgs \<Longrightarrow>
     reaches J S B E ws r (agentReadLoop S a msgs s) (Enrolled a)"
proof (induction S a msgs s arbitrary: r rule: agentReadLoop.induct)
  case (3 S a env msgs s)
  have "reaches J S B E ws r (agent_message S a env s) (Enrolled a)"
    using 3 by (intro message_run) simp_all
  moreover have "reaches J S B E ws r1 (agentReadLoop S a msgs (agent_message S a env s)) (Enrolled a)"
    if "agrees (agent_message S a env s) r1" "ry_link r1 ws = Enrolled a" for r1
    using 3 that by (intro "3.IH") simp_all
  ultimately show ?case by (simp add: reaches_trans)
qed (simp_all add: reaches_now)

section \<open>Enrolment\<close>

text \<open>How far an enrolment gets: not to the challenge, to a challenge, or to its end.\<close>

lemma enroll_cases:
  assumes run: "enroll B E werr ws msgs w = (q, rest, w')"
  obtains (early) e where "q = Inl (GoErr e)" "w' = w"
  | (challenged) env :: Envelope and h nonce w1 ok where "e_Type env = TypeHello" "e_Hello env = Some h" "h_Accounts h \<noteq> []"
      "randomBytes 32 w = (nonce, w1)" "ws_WriteJSON ws (challenge_frame nonce) w1 = (ok, w')"
      "if ok then \<exists>e. q = Inl e else q = Inl (GoErr werr)"
  | (accepted) env env' :: Envelope and h nonce w1 au proven a where "e_Type env = TypeHello" "e_Hello env = Some h" "h_Accounts h \<noteq> []"
      "randomBytes 32 w = (nonce, w1)" "ws_WriteJSON ws (challenge_frame nonce) w1 = (True, w')"
      "e_Type env' = TypeAuth" "e_Auth env' = Some au"
      "prove_loop B E nonce (au_Signatures au) (h_Accounts h) [] = Inr proven" "proven \<noteq> []"
      "a = \<lparr>ac_deviceID = h_DeviceID h, ac_accounts = proven, ac_ws = ws\<rparr>" "q = Inr a" "set rest \<subseteq> set msgs"
proof (cases "\<exists>env h msgs1. msgs = Some env # msgs1 \<and> e_Type env = TypeHello \<and> e_Hello env = Some h \<and> h_Accounts h \<noteq> []")
  case False
  then have "\<exists>e. q = Inl (GoErr e) \<and> w' = w"
    using run by (auto simp: enroll_def errString_def split: list.splits option.splits if_splits)
  then show ?thesis using early by blast
next
  case True
  then obtain env h msgs1 where m: "msgs = Some env # msgs1" "e_Type env = TypeHello" "e_Hello env = Some h"
    "h_Accounts h \<noteq> []" by blast
  obtain nonce w1 where n: "randomBytes 32 w = (nonce, w1)" by fastforce
  obtain ok w2 where w2: "ws_WriteJSON ws (challenge_frame nonce) w1 = (ok, w2)" by fastforce
  have run': "(if \<not> ok then (Inl (GoErr werr), msgs1, w2)
      else (case msgs1 of
          Some auth # msgs2 \<Rightarrow>
            (if e_Type auth \<noteq> TypeAuth then (Inl (errString ''expected auth''), msgs2, w2)
             else case e_Auth auth of
               None \<Rightarrow> (Inl (errString ''expected auth''), msgs2, w2)
             | Some a \<Rightarrow>
                 (case prove_loop B E nonce (au_Signatures a) (h_Accounts h) [] of
                    Inl e \<Rightarrow> (Inl e, msgs2, w2)
                  | Inr proven \<Rightarrow>
                      if length proven = 0 then (Inl (errString ''no account proved control''), msgs2, w2)
                      else (Inr \<lparr>ac_deviceID = h_DeviceID h, ac_accounts = proven, ac_ws = ws\<rparr>, msgs2, w2)))
        | None # msgs2 \<Rightarrow> (Inl (errString ''expected auth''), msgs2, w2)
        | [] \<Rightarrow> (Inl (errString ''expected auth''), [], w2))) = (q, rest, w')"
    using run m n w2 by (simp add: enroll_def challenge_frame_def)
  show ?thesis
  proof (cases "ok \<and> (\<exists>env' au proven msgs2. msgs1 = Some env' # msgs2 \<and> e_Type env' = TypeAuth \<and> e_Auth env' = Some au
      \<and> prove_loop B E nonce (au_Signatures au) (h_Accounts h) [] = Inr proven \<and> proven \<noteq> [])")
    case True
    then obtain env' au proven msgs2 where p: "ok" "msgs1 = Some env' # msgs2" "e_Type env' = TypeAuth"
      "e_Auth env' = Some au" "prove_loop B E nonce (au_Signatures au) (h_Accounts h) [] = Inr proven" "proven \<noteq> []"
      by blast
    then have "q = Inr \<lparr>ac_deviceID = h_DeviceID h, ac_accounts = proven, ac_ws = ws\<rparr>" "rest = msgs2" "w' = w2"
      using run' by simp_all
    then show ?thesis using accepted [OF m(2-4) n _ p(3-6) refl] w2 p(1,2) m(1) by auto
  next
    case False
    then have "w' = w2 \<and> (if ok then \<exists>e. q = Inl e else q = Inl (GoErr werr))"
      using run' by (auto split: list.splits option.splits sum.splits if_splits)
    then show ?thesis using challenged [OF m(2-4) n] w2 by blast
  qed
qed

lemma enroll_run:
  assumes run: "enroll B E werr ws msgs (sv_world s) = (q, rest, w')"
    and r: "agrees s r" "ry_link r ws = Fresh"
  shows "case q of
      Inl (GoErr e) \<Rightarrow> reaches J S B E ws r (s\<lparr>sv_world := writeWSError ws e w'\<rparr>) Closed
    | Inl (GoPanic p) \<Rightarrow> reaches J S B E ws r (s\<lparr>sv_world := w'\<rparr>) Closed
    | Inr a \<Rightarrow> set rest \<subseteq> set msgs \<and> reaches J S B E ws r (s\<lparr>sv_world := w', sv_hub := Hub.bind a (sv_hub s)\<rparr>) (Bound a)"
  using run
proof (cases rule: enroll_cases)
  case (early e)
  have step: "relay_step J S B E (\<lambda>_ _ _. True) r (set_link ws Closed (r\<lparr>ry_world := writeWSError ws e (ry_world r)\<rparr>))"
    using r(2) by (intro relay_step.Refuse) simp
  show ?thesis unfolding early sum.case go_error.case
    by (rule reaches_one [OF step]) (use r in \<open>simp_all add: spares_def agrees_def\<close>)
next
  case (challenged env h nonce w1 ok)
  have n: "randomBytes 32 (ry_world r) = (nonce, w1)" using challenged(4) r(1) by (simp add: agrees_def)
  note hello = relay_step.Hello [OF r(2) challenged(1-3) n challenged(5), of J S B E "\<lambda>_ _ _. True"]
  show ?thesis
  proof (cases ok)
    case False
    then have q: "q = Inl (GoErr werr)" using challenged(6) by simp
    show ?thesis unfolding q sum.case go_error.case
      by (rule reaches_one [OF hello [of werr]]) (use r False in \<open>simp_all add: spares_def agrees_def\<close>)
  next
    case True
    then obtain e where q: "q = Inl e" using challenged(6) by auto
    let ?r1 = "set_link ws (Challenged h nonce) (hear ws env (r\<lparr>ry_world := w'\<rparr>))"
    have one: "relay_step J S B E (\<lambda>_ _ _. True) r ?r1" using hello [of werr] True by simp
    have refuse: "relay_step J S B E (\<lambda>_ _ _. True) ?r1 (set_link ws Closed (?r1\<lparr>ry_world := writeWSError ws x (ry_world ?r1)\<rparr>))"
      for x by (rule relay_step.Refuse) simp
    have abort: "relay_step J S B E (\<lambda>_ _ _. True) ?r1 (set_link ws Closed ?r1)"
      by (rule relay_step.Abort) simp
    show ?thesis
    proof (cases e)
      case (GoErr x)
      show ?thesis unfolding q GoErr sum.case go_error.case
        by (rule reaches_two [OF one refuse [of x]]) (use r in \<open>simp_all add: spares_def agrees_def set_link_def hear_def\<close>)
    next
      case (GoPanic x)
      show ?thesis unfolding q GoPanic sum.case go_error.case
        by (rule reaches_two [OF one abort]) (use r in \<open>simp_all add: spares_def agrees_def set_link_def hear_def\<close>)
    qed
  qed
next
  case (accepted env env' h nonce w1 au proven a)
  have n: "randomBytes 32 (ry_world r) = (nonce, w1)" using accepted(4) r(1) by (simp add: agrees_def)
  let ?r1 = "set_link ws (Challenged h nonce) (hear ws env (r\<lparr>ry_world := w'\<rparr>))"
  have one: "relay_step J S B E (\<lambda>_ _ _. True) r ?r1"
    using relay_step.Hello [OF r(2) accepted(1-3) n accepted(5), of J S B E "\<lambda>_ _ _. True"] by simp
  have two: "relay_step J S B E (\<lambda>_ _ _. True) ?r1 (set_link ws (Bound a) (hear ws env'
      (on_conc (\<lambda>c. (on_hub (Hub.bind a) c)\<lparr>cs_bound := insert a (cs_bound c)\<rparr>) ?r1)))"
    by (rule relay_step.Prove [OF _ accepted(6-10)]) simp
  have "reaches J S B E ws r (s\<lparr>sv_world := w', sv_hub := Hub.bind a (sv_hub s)\<rparr>) (Bound a)"
    by (rule reaches_two [OF one two]) (use r in \<open>simp_all add: spares_def agrees_def set_link_def hear_def on_conc_def\<close>)
  then show ?thesis using accepted(11,12) by simp
qed

section \<open>A connection\<close>

text \<open>A device from the start to the close.\<close>

lemma agent_run:
  assumes "agrees s r" "ry_link r ws = Fresh" "list_all (origins_ok utf8_valid) msgs"
  shows "reaches J S B E ws r (handleAgent S B E werr ws msgs s) Closed"
proof -
  obtain q rest w where e: "enroll B E werr ws msgs (sv_world s) = (q, rest, w)" using prod_cases3 by blast
  note run = enroll_run [OF e assms(1,2), of J S]
  show ?thesis
  proof (cases q)
    case (Inl err)
    then show ?thesis using run by (cases err) (simp_all add: handleAgent_def e)
  next
    case (Inr a)
    let ?s1 = "s\<lparr>sv_world := w, sv_hub := Hub.bind a (sv_hub s)\<rparr>"
    obtain ok w2 where w2: "writeJSON_conn a ((envelope TypeWelcome)\<lparr>e_Welcome := Some \<lparr>w_Accounts = ac_accounts a\<rparr>\<rparr>) w = (ok, w2)"
      by fastforce
    let ?s3 = "agentReadLoop S a rest (?s1\<lparr>sv_world := w2\<rparr>)"
    have s': "handleAgent S B E werr ws msgs s = ?s3\<lparr>sv_hub := unbind a (sv_hub ?s3)\<rparr>"
      using w2 by (simp add: handleAgent_def e Inr Let_def)
    have rest: "list_all (origins_ok utf8_valid) rest" using run assms(3) by (auto simp: Inr list_all_iff)
    have close: "reaches J S B E ws r3 (handleAgent S B E werr ws msgs s) Closed"
      if "agrees ?s3 r3" "ry_link r3 ws = Enrolled a" for r3
    proof -
      have step: "relay_step J S B E (\<lambda>_ _ _. True) r3 (set_link ws Closed (on_conc (on_hub (unbind a)) r3))"
        using that(2) by (intro relay_step.Close) simp
      show ?thesis unfolding s' by (rule reaches_one [OF step]) (use that in \<open>simp_all add: spares_def agrees_def\<close>)
    qed
    have read: "reaches J S B E ws r2 (handleAgent S B E werr ws msgs s) Closed"
      if "agrees ?s1 r2" "ry_link r2 ws = Bound a" for r2
    proof -
      let ?r3 = "set_link ws (Enrolled a) (r2\<lparr>ry_world := w2\<rparr>)"
      have step: "relay_step J S B E (\<lambda>_ _ _. True) r2 ?r3"
        using that w2 by (intro relay_step.Welcome [of r2 ws a ok w2]) (simp_all add: agrees_def)
      have "reaches J S B E ws ?r3 ?s3 (Enrolled a)"
        using that rest by (intro loop_run) (simp_all add: agrees_def set_link_def)
      note run = reaches_trans [OF this close]
      show ?thesis by (rule reaches_step [OF step _ run]) (simp_all add: spares_def)
    qed
    have "reaches J S B E ws r ?s1 (Bound a)" using run by (simp add: Inr)
    from reaches_trans [OF this read] show ?thesis .
  qed
qed

text \<open>
  A connection is a run. Serving a device by \<open>handleAgent\<close>, whatever it sends and however its
  enrolment ends, is a run of the relay's steps for that connection, from its start to its close,
  which moves no other connection and no call and leaves the hub, the store, the limiter and
  the outside world as the handler does.
\<close>

theorem agent_is_run:
  assumes "agrees s r" "ry_link r ws = Fresh" "list_all (origins_ok utf8_valid) msgs"
  shows "\<exists>r'. (relay_step J S B E (\<lambda>_ _ _. True))\<^sup>*\<^sup>* r r' \<and> agrees (handleAgent S B E werr ws msgs s) r'
    \<and> ry_link r' ws = Closed \<and> spares ws r r'"
  using agent_run [OF assms] unfolding reaches_def by blast

theorem agent_is_run_witness:
  "\<exists>r'. (relay_step sample_jobs sqlite_store pad_hash toy (\<lambda>_ _ _. True))\<^sup>*\<^sup>* (relay_init sql_sample world1) r'
     \<and> agrees (handleAgent sqlite_store pad_hash toy [] 4 sample_msgs
         (newServer \<lparr>cfg_Listen = [], cfg_RequestTimeoutSeconds = 45, cfg_SQLitePath = []\<rparr> sql_sample world1)) r'
     \<and> ry_link r' 4 = Closed"
proof -
  let ?s = "newServer \<lparr>cfg_Listen = [], cfg_RequestTimeoutSeconds = 45, cfg_SQLitePath = []\<rparr> sql_sample world1"
  have "agrees ?s (relay_init sql_sample world1)" "ry_link (relay_init sql_sample world1) 4 = Fresh"
    by (simp_all add: agrees_def relay_init_def newServer_def conc_init_def)
  moreover have "list_all (origins_ok utf8_valid) sample_msgs"
    by (simp add: sample_msgs_def origins_ok_def honest_hello_def honest_auth_def zero_Envelope_def)
  ultimately show ?thesis using agent_is_run by blast
qed

end
