(* ===== verification/Hub_Sequential.thy ===== *)
theory Hub_Sequential
  imports Hub_Concurrent_Props
begin

text \<open>
  The two models of \<^verbatim>\<open>cmd/relay/hub.go\<close> agree: a call of \<open>sendRequest\<close> or \<open>sendQuery\<close> of theory \<open>Hub\<close>,
  which runs to its end with the hub calls of its wait as an argument, is a run of the interleaving
  machine of \<open>Hub_Concurrent\<close> with the same answer, the same frames in the same order and the same
  tables. What is proved of every run therefore holds of every such call. The runs are made in the
  locale \<open>thread_run\<close>, over any relation that has the steps of the call's own thread: that of all
  threads, and the one that only moves the calls one names, which the relay as a whole needs.
\<close>

text \<open>A run that leaves the threads and the frames alone, and one that moves one thread and writes frames.\<close>

definition quiet :: "conc \<Rightarrow> conc \<Rightarrow> bool" where
  "quiet s s' \<longleftrightarrow> cs_phase s' = cs_phase s \<and> cs_qphase s' = cs_qphase s \<and> cs_flight s' = cs_flight s
     \<and> cs_qflight s' = cs_qflight s \<and> cs_sent s' = cs_sent s"

definition moves :: "nat \<Rightarrow> phase \<Rightarrow> (nat \<times> Envelope) list \<Rightarrow> conc \<Rightarrow> conc \<Rightarrow> bool" where
  "moves t ph fs s s' \<longleftrightarrow> cs_phase s' = (cs_phase s)(t := ph) \<and> cs_qphase s' = cs_qphase s
     \<and> cs_sent s' = cs_sent s @ fs"

definition qmoves :: "nat \<Rightarrow> qphase \<Rightarrow> (nat \<times> Envelope) list \<Rightarrow> conc \<Rightarrow> conc \<Rightarrow> bool" where
  "qmoves t ph fs s s' \<longleftrightarrow> cs_qphase s' = (cs_qphase s)(t := ph) \<and> cs_phase s' = cs_phase s
     \<and> cs_sent s' = cs_sent s @ fs"

lemmas run_defs = quiet_def moves_def qmoves_def

lemma quiet_refl: "quiet s s"
  by (simp add: quiet_def)

lemma quiet_trans: "quiet s s1 \<Longrightarrow> quiet s1 s2 \<Longrightarrow> quiet s s2"
  by (simp add: quiet_def)

lemma moves_trans: "moves t ph fs s s1 \<Longrightarrow> moves t ph' gs s1 s2 \<Longrightarrow> moves t ph' (fs @ gs) s s2"
  by (simp add: moves_def)

lemma qmoves_trans: "qmoves t ph fs s s1 \<Longrightarrow> qmoves t ph' gs s1 s2 \<Longrightarrow> qmoves t ph' (fs @ gs) s s2"
  by (simp add: qmoves_def)

text \<open>The tables of the hub: all of it but what is left in the channels.\<close>

definition same_tables :: "Hub \<Rightarrow> Hub \<Rightarrow> bool" where
  "same_tables h h' \<longleftrightarrow> hb_bindings h = hb_bindings h' \<and> hb_pending h = hb_pending h'
     \<and> hb_queryPending h = hb_queryPending h' \<and> hb_next h = hb_next h'"

text \<open>
  The steps that move only some requests \<open>T\<close> and queries \<open>Q\<close>, and bind or unbind no device; unless \<open>D\<close>
  holds, no device answers.
\<close>

definition own_step :: "jobs \<Rightarrow> bool \<Rightarrow> nat set \<Rightarrow> nat set \<Rightarrow> conc \<Rightarrow> conc \<Rightarrow> bool" where
  "own_step J D T Q s s' \<longleftrightarrow> conc_step J s s' \<and> hb_bindings (cs_hub s') = hb_bindings (cs_hub s) \<and> cs_bound s' = cs_bound s
     \<and> (\<forall>u. u \<notin> T \<longrightarrow> cs_phase s' u = cs_phase s u) \<and> (\<forall>u. u \<notin> Q \<longrightarrow> cs_qphase s' u = cs_qphase s u)
     \<and> (D \<or> cs_reported s' = cs_reported s \<and> cs_answered s' = cs_answered s)"

fun delivery :: "hub_event \<Rightarrow> bool" where
  "delivery (EvResult res) = True"
| "delivery (EvQueryResult qid qr) = True"
| "delivery _ = False"

locale thread_run =
  fixes J :: jobs and T Q :: "nat set" and R :: "conc \<Rightarrow> conc \<Rightarrow> bool" and ev_ok :: "hub_event \<Rightarrow> bool"
  assumes own: "own_step J False T Q s s' \<Longrightarrow> R s s'"
    and event: "ev_ok e \<Longrightarrow> \<exists>s'. R\<^sup>*\<^sup>* s s' \<and> quiet s s' \<and> cs_hub s' = hub_step e (cs_hub s)"

section \<open>The events of a wait\<close>

lemma delivery_run:
  assumes "delivery e"
  shows "\<exists>s'. (own_step J True T Q)\<^sup>*\<^sup>* s s' \<and> quiet s s' \<and> cs_hub s' = hub_step e (cs_hub s)"
proof (cases e)
  case (EvResult res)
  show ?thesis
  proof (cases "hb_pending (cs_hub s) (res_RequestID res)")
    case None
    then show ?thesis by (intro exI [of _ s]) (simp add: EvResult deliverResult_def quiet_refl)
  next
    case (Some ch)
    let ?s1 = "s\<lparr>cs_flight := (ch, res) # cs_flight s, cs_reported := insert res (cs_reported s)\<rparr>"
    let ?s2 = "(on_hub (set_chan ch (offer (hb_chan (cs_hub ?s1) ch) res)) ?s1)\<lparr>cs_flight := cs_flight s\<rparr>"
    have "own_step J True T Q s ?s1" using conc_step.DeliverLookup [OF Some] by (simp add: own_step_def)
    moreover have "own_step J True T Q ?s1 ?s2"
      using conc_step.DeliverSend [of ?s1 "[]" ch res "cs_flight s" J] by (simp add: own_step_def)
    ultimately have "(own_step J True T Q)\<^sup>*\<^sup>* s ?s2" by (meson r_into_rtranclp rtranclp_trans)
    then show ?thesis
      by (intro exI [of _ ?s2]) (simp add: EvResult deliverResult_def Some set_chan_def quiet_def)
  qed
next
  case (EvQueryResult qid qr)
  show ?thesis
  proof (cases "hb_queryPending (cs_hub s) qid")
    case None
    then show ?thesis by (intro exI [of _ s]) (simp add: EvQueryResult deliverQueryResult_def quiet_refl)
  next
    case (Some ch)
    let ?s1 = "s\<lparr>cs_qflight := (ch, qr) # cs_qflight s, cs_answered := insert (qid, qr) (cs_answered s)\<rparr>"
    let ?s2 = "(on_hub (set_qchan ch (offer (hb_qchan (cs_hub ?s1) ch) qr)) ?s1)\<lparr>cs_qflight := cs_qflight s\<rparr>"
    have "own_step J True T Q s ?s1" using conc_step.QDeliverLookup [OF Some] by (simp add: own_step_def)
    moreover have "own_step J True T Q ?s1 ?s2"
      using conc_step.QDeliverSend [of ?s1 "[]" ch qr "cs_qflight s" J] by (simp add: own_step_def)
    ultimately have "(own_step J True T Q)\<^sup>*\<^sup>* s ?s2" by (meson r_into_rtranclp rtranclp_trans)
    then show ?thesis
      by (intro exI [of _ ?s2]) (simp add: EvQueryResult deliverQueryResult_def Some set_qchan_def quiet_def)
  qed
qed (use assms in simp_all)

lemma event_run:
  "\<exists>s'. (conc_step J)\<^sup>*\<^sup>* s s' \<and> quiet s s' \<and> cs_hub s' = hub_step e (cs_hub s)"
proof (cases e)
  case (EvBind a)
  show ?thesis using conc_step.Bind [of J s a]
    by (intro exI conjI, rule r_into_rtranclp) (simp_all add: EvBind quiet_def)
next
  case (EvUnbind a)
  show ?thesis using conc_step.Unbind [of J s a]
    by (intro exI conjI, rule r_into_rtranclp) (simp_all add: EvUnbind quiet_def)
qed (use delivery_run [of e J UNIV UNIV s] rtranclp_mono [of "own_step J True UNIV UNIV" "conc_step J"]
    in \<open>auto simp: own_step_def le_fun_def\<close>)

interpretation any: thread_run J UNIV UNIV "conc_step J" "\<lambda>_. True" for J
  by unfold_locales (simp add: own_step_def, rule event_run)

interpretation owned: thread_run J T Q "own_step J D T Q" "\<lambda>e. D \<and> delivery e" for J D T Q
  by unfold_locales (simp add: own_step_def, use delivery_run in \<open>cases D; force\<close>)

context thread_run
begin

text \<open>A step of a request or a query that the relation may move.\<close>

lemma own_move:
  assumes "conc_step J s s'" "hb_bindings (cs_hub s') = hb_bindings (cs_hub s)" "cs_bound s' = cs_bound s"
    "\<And>u. u \<notin> T \<Longrightarrow> cs_phase s' u = cs_phase s u" "\<And>u. u \<notin> Q \<Longrightarrow> cs_qphase s' u = cs_qphase s u"
    "cs_reported s' = cs_reported s" "cs_answered s' = cs_answered s"
  shows "R s s'"
  using assms by (intro own) (simp add: own_step_def)

lemma events_run:
  "list_all ev_ok evs \<Longrightarrow> \<exists>s'. R\<^sup>*\<^sup>* s s' \<and> quiet s s' \<and> cs_hub s' = fold hub_step evs (cs_hub s)"
proof (induction evs arbitrary: s)
  case Nil
  show ?case by (intro exI [of _ s]) (simp add: quiet_refl)
next
  case (Cons e evs)
  obtain s1 where s1: "R\<^sup>*\<^sup>* s s1" "quiet s s1" "cs_hub s1 = hub_step e (cs_hub s)"
    using event [of e s] Cons.prems by auto
  obtain s2 where "R\<^sup>*\<^sup>* s1 s2" "quiet s1 s2" "cs_hub s2 = fold hub_step evs (cs_hub s1)"
    using Cons.IH Cons.prems by auto
  then show ?case using s1 by (intro exI [of _ s2]) (simp add: rtranclp_trans quiet_trans)
qed

end

section \<open>Requests\<close>

definition runs_to :: "(conc \<Rightarrow> conc \<Rightarrow> bool) \<Rightarrow> nat \<Rightarrow> phase \<Rightarrow> conc \<Rightarrow> World \<Rightarrow> World \<Rightarrow> bool" where
  "runs_to R t ph s w w' \<longleftrightarrow> (\<exists>s' fs. R\<^sup>*\<^sup>* s s' \<and> moves t ph fs s s' \<and> cs_hub s' = cs_hub s
     \<and> wd_sent w' = wd_sent w @ fs)"

lemma runs_write:
  assumes "R s (frame_written ok d env (go t ph s))" "writeJSON_conn d env w = (ok, w1)"
    "runs_to R t ph' (frame_written ok d env (go t ph s)) w1 w'"
  shows "runs_to R t ph' s w w'"
proof -
  let ?s1 = "frame_written ok d env (go t ph s)" and ?fs = "if ok then [(ac_ws d, env)] else []"
  obtain s' fs where r: "R\<^sup>*\<^sup>* ?s1 s'" "moves t ph' fs ?s1 s'" "cs_hub s' = cs_hub ?s1"
    "wd_sent w' = wd_sent w1 @ fs" using assms(3) unfolding runs_to_def by blast
  have "wd_sent w1 = wd_sent w @ ?fs"
    using assms(2) by (auto simp: writeJSON_conn_def ws_WriteJSON_def Let_def split: if_splits)
  moreover have "moves t ph ?fs s ?s1" by (simp add: moves_def)
  ultimately show ?thesis unfolding runs_to_def
    using converse_rtranclp_into_rtranclp [of R, OF assms(1) r(1)] moves_trans [OF _ r(2)] r(3,4)
    by (intro exI [of _ s'] exI [of _ "?fs @ fs"]) (simp del: frame_written_simps(3))
qed

lemma same_tables_withdraw:
  assumes "same_tables h h'"
  shows "withdraw (deregister rid h) acc rid w = withdraw (deregister rid h') acc rid w"
proof -
  have "bound_to (deregister rid h) = bound_to (deregister rid h')"
    using assms by (simp add: fun_eq_iff bound_to_def same_tables_def)
  then show ?thesis by (simp add: withdraw_def devices_rev)
qed

lemma sendRequest_parts:
  assumes "sendRequest wt acc req h w = (r, h', w')" "devicesForAccount h acc \<noteq> []"
    "fan_out (devicesForAccount h acc) (request_frame req) 0 w = (m, w1)"
  obtains h2 where "(if m = 0 then (Inl errAccountOffline, register (tr_ID req) h)
      else await wt (\<lambda>h'. hb_chan h' (hb_next h)) (register (tr_ID req) h)) = (r, h2)"
    "h' = deregister (tr_ID req) h2" "w' = withdraw h' acc (tr_ID req) w1"
proof -
  let ?h1 = "register (tr_ID req) h"
  obtain res h2 where res: "(if m = 0 then (Inl errAccountOffline, ?h1) else await wt (\<lambda>h'. hb_chan h' (hb_next h)) ?h1)
      = (res, h2)" by fastforce
  have "(r, h', w') = (let (m, w1) = fan_out (devicesForAccount h acc) (request_frame req) 0 w;
        (res, h2) = (if m = 0 then (Inl errAccountOffline, ?h1) else await wt (\<lambda>h'. hb_chan h' (hb_next h)) ?h1);
        h3 = deregister (tr_ID req) h2
      in (res, h3, withdraw h3 acc (tr_ID req) w1))"
    using assms(1,2) unfolding sendRequest_def request_frame_def register_def deregister_def Let_def by simp
  then show ?thesis using that res unfolding Let_def assms(3) prod.case res by simp
qed

context thread_run
begin

lemma fan_out_run:
  assumes "t \<in> T" "cs_phase s t = Writing ch ds n" "fan_out ds (request_frame (jb_request J t)) n w = (m, w')"
  shows "runs_to R t (Writing ch [] m) s w w'"
  using assms(2,3)
proof (induction ds arbitrary: s n w)
  case Nil
  then show ?case unfolding runs_to_def by (intro exI [of _ s] exI [of _ "[]"]) (auto simp: moves_def)
next
  case (Cons d ds)
  obtain ok w1 where w1: "writeJSON_conn d (request_frame (jb_request J t)) w = (ok, w1)" by fastforce
  have "fan_out ds (request_frame (jb_request J t)) (if ok then Suc n else n) w1 = (m, w')"
    using Cons.prems(2) by (simp add: w1)
  moreover have "R s (frame_written ok d (request_frame (jb_request J t)) (go t (Writing ch ds (if ok then Suc n else n)) s))"
    using assms(1) by (intro own_move conc_step.Write [OF Cons.prems(1)]) auto
  ultimately show ?case by (intro runs_write [OF _ w1] Cons.IH) simp_all
qed

lemma withdraw_run:
  assumes "t \<in> T" "cs_phase s t = Withdrawing r ds"
  shows "runs_to R t (Done r) s w (snd (fan_out ds (withdraw_frame (request_id J t)) n w))"
  using assms(2)
proof (induction ds arbitrary: s n w)
  case Nil
  have "R s (go t (Done r) s)" using assms(1) by (intro own_move conc_step.Return Nil) auto
  then show ?case unfolding runs_to_def
    by (intro exI [of _ "go t (Done r) s"] exI [of _ "[]"]) (simp add: moves_def r_into_rtranclp)
next
  case (Cons d ds)
  obtain ok w1 where w1: "writeJSON_conn d (withdraw_frame (request_id J t)) w = (ok, w1)" by fastforce
  let ?s1 = "frame_written ok d (withdraw_frame (request_id J t)) (go t (Withdrawing r ds) s)"
  have "R s ?s1" using assms(1) by (intro own_move conc_step.Withdraw [OF Cons.prems]) auto
  moreover have "runs_to R t (Done r) ?s1 w1
    (snd (fan_out ds (withdraw_frame (request_id J t)) (if ok then Suc n else n) w1))"
    by (rule Cons.IH) simp
  ultimately show ?case using runs_write [OF _ w1] by (simp add: w1)
qed

text \<open>The end of a request: from the end of its wait to its return.\<close>

lemma request_tail:
  assumes "t \<in> T" "cs_phase s t = Returning ch r"
  shows "\<exists>s' fs. R\<^sup>*\<^sup>* s s' \<and> moves t (Done r) fs s s'
    \<and> cs_hub s' = deregister (request_id J t) (cs_hub s)
    \<and> wd_sent (withdraw (deregister (request_id J t) (cs_hub s)) (jb_account J t) (request_id J t) w) = wd_sent w @ fs"
proof -
  let ?s1 = "on_hub (deregister (request_id J t)) (go t (Deleted r) s)"
  let ?ds = "devicesForAccount (deregister (request_id J t) (cs_hub s)) (jb_account J t)"
  let ?s2 = "go t (Withdrawing r ?ds) ?s1"
  have "R s ?s1" using assms by (intro own_move conc_step.Delete) auto
  moreover have "conc_step J ?s1 ?s2" using conc_step.ListAgain [of ?s1 t r J] by simp
  then have "R ?s1 ?s2" using assms(1) by (intro own_move) auto
  ultimately have two: "R\<^sup>*\<^sup>* s ?s2" by (meson r_into_rtranclp rtranclp_trans)
  have "cs_phase ?s2 t = Withdrawing r ?ds" by simp
  then obtain s' fs where r: "R\<^sup>*\<^sup>* ?s2 s'" "moves t (Done r) fs ?s2 s'" "cs_hub s' = cs_hub ?s2"
    "wd_sent (snd (fan_out ?ds (withdraw_frame (request_id J t)) 0 w)) = wd_sent w @ fs"
    using withdraw_run [OF assms(1)] unfolding runs_to_def by blast
  have "moves t (Done r) fs s s'" using r(2) by (simp add: moves_def)
  then show ?thesis using rtranclp_trans [OF two r(1)] r(3,4)
    by (intro exI [of _ s'] exI [of _ fs]) (simp add: withdraw_def withdraw_frame_def)
qed

lemma await_run:
  assumes "t \<in> T" "list_all ev_ok (wt_events wt)" "cs_phase s t = Waiting ch"
    "await wt (\<lambda>h. hb_chan h ch) (cs_hub s) = (r, h')"
  shows "\<exists>s'. R\<^sup>*\<^sup>* s s' \<and> moves t (Returning ch r) [] s s' \<and> same_tables (cs_hub s') h'"
proof -
  obtain s1 where s1: "R\<^sup>*\<^sup>* s s1" "quiet s s1" "cs_hub s1 = fold hub_step (wt_events wt) (cs_hub s)"
    using events_run [OF assms(2)] by blast
  have ph: "cs_phase s1 t = Waiting ch" using assms(3) s1(2) by (simp add: quiet_def)
  have h': "h' = cs_hub s1" using assms(4) by (auto simp: await_def Let_def s1(3) split: list.splits if_splits)
  obtain s2 where "R s1 s2" "moves t (Returning ch r) [] s1 s2" "same_tables (cs_hub s2) (cs_hub s1)"
  proof (cases "\<exists>v rest. hb_chan (cs_hub s1) ch = v # rest \<and> \<not> wt_ctx_first wt")
    case True
    then obtain v rest where v: "hb_chan (cs_hub s1) ch = v # rest" "r = Inr v"
      using assms(4) by (auto simp: await_def Let_def s1(3))
    have "R s1 (on_hub (set_chan ch rest) (go t (Returning ch (Inr v)) s1))"
      using assms(1) by (intro own_move conc_step.Receive [OF ph v(1)]) auto
    from that [OF this] show ?thesis by (simp add: moves_def same_tables_def v(2))
  next
    case False
    then have r: "r = Inl (ctx_Err (wt_ctx_err wt))"
      using assms(4) by (auto simp: await_def Let_def s1(3) split: list.splits)
    have "R s1 (go t (Returning ch (Inl (ctx_Err (wt_ctx_err wt)))) s1)"
      using assms(1) by (intro own_move conc_step.Expire [OF ph]) auto
    from that [OF this] show ?thesis by (simp add: moves_def same_tables_def r)
  qed
  then show ?thesis using s1 unfolding h'
    by (intro exI [of _ s2]) (auto simp: moves_def quiet_def intro: rtranclp.rtrancl_into_rtrancl)
qed

text \<open>The start of a request, up to the end of its writes; and its answer.\<close>

lemma request_sent:
  assumes "t \<in> T" "cs_phase s t = Start" "ds = devicesForAccount (cs_hub s) (jb_account J t)" "ds \<noteq> []"
    "ch = hb_next (cs_hub s)" "fan_out ds (request_frame (jb_request J t)) 0 w = (m, w1)"
  shows "\<exists>s' fs. R\<^sup>*\<^sup>* s s' \<and> moves t (after_writes ch m) fs s s'
    \<and> cs_hub s' = register (request_id J t) (cs_hub s) \<and> wd_sent w1 = wd_sent w @ fs"
proof -
  let ?s1 = "go t (Looked ds) s"
  let ?s2 = "on_hub (register (request_id J t)) (go t (Writing ch ds 0) ?s1)"
  have "conc_step J s ?s1" using conc_step.List [OF assms(2,3)] assms(4) by simp
  then have "R s ?s1" using assms(1) by (intro own_move) auto
  moreover have "conc_step J ?s1 ?s2" using conc_step.Register [of ?s1 t ds J] by (simp add: assms(5))
  then have "R ?s1 ?s2" using assms(1) by (intro own_move) auto
  moreover have "cs_phase ?s2 t = Writing ch ds 0" by simp
  from fan_out_run [OF assms(1) this assms(6)] obtain s3 fs where s3: "R\<^sup>*\<^sup>* ?s2 s3"
    "moves t (Writing ch [] m) fs ?s2 s3" "cs_hub s3 = cs_hub ?s2" "wd_sent w1 = wd_sent w @ fs"
    unfolding runs_to_def by blast
  moreover have "R s3 (go t (after_writes ch m) s3)"
    using s3(2) assms(1) by (intro own_move conc_step.Written) (auto simp: moves_def)
  ultimately have "R\<^sup>*\<^sup>* s (go t (after_writes ch m) s3)" by (meson r_into_rtranclp rtranclp_trans)
  then show ?thesis using s3(2-4)
    by (intro exI [of _ "go t (after_writes ch m) s3"] exI [of _ fs]) (simp add: moves_def)
qed

lemma request_answered:
  assumes "t \<in> T" "list_all ev_ok (wt_events wt)" "cs_phase s t = after_writes ch m"
    "(if m = 0 then (Inl errAccountOffline, cs_hub s) else await wt (\<lambda>h. hb_chan h ch) (cs_hub s)) = (r, h')"
  shows "\<exists>s'. R\<^sup>*\<^sup>* s s' \<and> moves t (Returning ch r) [] s s' \<and> same_tables (cs_hub s') h'"
proof (cases "m = 0")
  case True
  then show ?thesis using assms by (intro exI [of _ s]) (auto simp: moves_def after_writes_def same_tables_def)
next
  case False
  then show ?thesis using assms by (intro await_run) (simp_all add: after_writes_def)
qed

text \<open>A whole request.\<close>

lemma request_run:
  assumes own: "t \<in> T" and evs: "list_all ev_ok (wt_events wt)" and start: "cs_phase s t = Start"
    and run: "sendRequest wt (jb_account J t) (jb_request J t) (cs_hub s) w = (r, h', w')"
  shows "\<exists>s' fs. R\<^sup>*\<^sup>* s s' \<and> moves t (Done r) fs s s' \<and> wd_sent w' = wd_sent w @ fs \<and> same_tables (cs_hub s') h'"
proof (cases "devicesForAccount (cs_hub s) (jb_account J t) = []")
  case True
  then have "r = Inl errAccountOffline" "h' = cs_hub s" "w' = w" using run by (auto simp: sendRequest_def)
  moreover have "R s (go t (Done (Inl errAccountOffline)) s)"
    using conc_step.List [where J = J, OF start refl] True own by (intro own_move) auto
  ultimately show ?thesis
    by (intro exI [of _ "go t (Done r) s"] exI [of _ "[]"]) (simp add: moves_def r_into_rtranclp same_tables_def)
next
  case False
  obtain m w1 where fan: "fan_out (devicesForAccount (cs_hub s) (jb_account J t)) (request_frame (jb_request J t)) 0 w
    = (m, w1)" by fastforce
  from request_sent [OF own start refl False refl fan] obtain s4 fs where s4: "R\<^sup>*\<^sup>* s s4"
    "moves t (after_writes (hb_next (cs_hub s)) m) fs s s4" "cs_hub s4 = register (request_id J t) (cs_hub s)"
    "wd_sent w1 = wd_sent w @ fs" by blast
  obtain h2 where h2: "(if m = 0 then (Inl errAccountOffline, cs_hub s4)
      else await wt (\<lambda>h. hb_chan h (hb_next (cs_hub s))) (cs_hub s4)) = (r, h2)"
    "h' = deregister (request_id J t) h2" "w' = withdraw h' (jb_account J t) (request_id J t) w1"
    using sendRequest_parts [OF run False fan] unfolding s4(3) request_id_def by metis
  have "cs_phase s4 t = after_writes (hb_next (cs_hub s)) m" using s4(2) by (simp add: moves_def)
  from request_answered [OF own evs this h2(1)] obtain s5 where s5: "R\<^sup>*\<^sup>* s4 s5"
    "moves t (Returning (hb_next (cs_hub s)) r) [] s4 s5" "same_tables (cs_hub s5) h2" by blast
  have "cs_phase s5 t = Returning (hb_next (cs_hub s)) r" using s5(2) by (simp add: moves_def)
  from request_tail [OF own this, of w1] obtain s' gs where s': "R\<^sup>*\<^sup>* s5 s'" "moves t (Done r) gs s5 s'"
    "cs_hub s' = deregister (request_id J t) (cs_hub s5)" "wd_sent w' = wd_sent w1 @ gs"
    unfolding same_tables_withdraw [OF s5(3)] h2(2) [symmetric] h2(3) [symmetric] by auto
  have "same_tables (cs_hub s') h'" using s5(3) by (simp add: s'(3) h2(2) same_tables_def)
  moreover have "R\<^sup>*\<^sup>* s s'" using s4(1) s5(1) s'(1) by (meson rtranclp_trans)
  moreover have "moves t (Done r) (fs @ gs) s s'" using moves_trans [OF moves_trans [OF s4(2) s5(2)] s'(2)] by simp
  ultimately show ?thesis using s4(4) s'(4) by (intro exI [of _ s'] exI [of _ "fs @ gs"]) simp
qed

end

section \<open>Queries\<close>

lemma sendQuery_parts:
  assumes "sendQuery wt acc q h w = (r, h', w')" "devicesForAccount h acc \<noteq> []"
    "qid = ''qry_'' @ EncodeToString (stake 12 (wd_entropy w))"
    "send_first (devicesForAccount h acc) (query_frame qid q) (w\<lparr>wd_entropy := sdrop 12 (wd_entropy w)\<rparr>) = (sent, w1)"
  obtains h2 where "(if \<not> sent then (Inl errAccountOffline, qregister qid h)
      else await wt (\<lambda>h'. hb_qchan h' (hb_next h)) (qregister qid h)) = (r, h2)"
    "h' = qderegister qid h2" "w' = w1"
proof -
  let ?h1 = "qregister qid h" and ?w0 = "w\<lparr>wd_entropy := sdrop 12 (wd_entropy w)\<rparr>"
  obtain res h2 where res: "(if \<not> sent then (Inl errAccountOffline, ?h1) else await wt (\<lambda>h'. hb_qchan h' (hb_next h)) ?h1)
      = (res, h2)" by fastforce
  have "(r, h', w') = (let (sent, w2) = send_first (devicesForAccount h acc) (query_frame qid q) ?w0;
        (res, h2) = (if \<not> sent then (Inl errAccountOffline, ?h1) else await wt (\<lambda>h'. hb_qchan h' (hb_next h)) ?h1)
      in (res, h2\<lparr>hb_queryPending := (hb_queryPending h2)(qid := None)\<rparr>, w2))"
    using assms(1,2) unfolding sendQuery_def randomSecret_def rand_Read_def query_frame_def qregister_def
      Let_def assms(3) by (simp del: append_Cons append_Nil)
  then show ?thesis using that res assms(4) by (simp add: qderegister_def)
qed

context thread_run
begin

lemma send_first_run:
  assumes "t \<in> Q" "cs_qphase s t = QAsking ch ds"
    "send_first ds (query_frame (jb_qid J t) (jb_query J t)) w = (sent, w')"
  shows "\<exists>s' fs. R\<^sup>*\<^sup>* s s' \<and> cs_hub s' = cs_hub s \<and> wd_sent w' = wd_sent w @ fs
    \<and> qmoves t (if sent then QWaiting ch else QReturning ch (Inl errAccountOffline)) fs s s'"
  using assms(2,3)
proof (induction ds arbitrary: s w)
  case Nil
  have "R s (qgo t (QReturning ch (Inl errAccountOffline)) s)"
    using assms(1) Nil.prems(1) by (intro own_move conc_step.QUnasked) auto
  then show ?case using Nil.prems(2)
    by (intro exI [of _ "qgo t (QReturning ch (Inl errAccountOffline)) s"] exI [of _ "[]"])
       (auto simp: qmoves_def r_into_rtranclp)
next
  case (Cons d ds)
  let ?env = "query_frame (jb_qid J t) (jb_query J t)"
  obtain ok w1 where w1: "writeJSON_conn d ?env w = (ok, w1)" by fastforce
  let ?s1 = "frame_written ok d ?env (qgo t (if ok then QWaiting ch else QAsking ch ds) s)"
  have step: "R s ?s1" using assms(1) by (intro own_move conc_step.QAsk [OF Cons.prems(1)]) auto
  have ws: "wd_sent w1 = wd_sent w @ (if ok then [(ac_ws d, ?env)] else [])"
    using w1 by (auto simp: writeJSON_conn_def ws_WriteJSON_def Let_def split: if_splits)
  show ?case
  proof (cases ok)
    case True
    then show ?thesis using step ws Cons.prems(2) w1
      by (intro exI [of _ ?s1] exI [of _ "[(ac_ws d, ?env)]"]) (auto simp: qmoves_def r_into_rtranclp)
  next
    case False
    then have "send_first ds ?env w1 = (sent, w')" "cs_qphase ?s1 t = QAsking ch ds"
      using Cons.prems(2) w1 by simp_all
    then obtain s' fs where r: "R\<^sup>*\<^sup>* ?s1 s'" "cs_hub s' = cs_hub ?s1" "wd_sent w' = wd_sent w1 @ fs"
      "qmoves t (if sent then QWaiting ch else QReturning ch (Inl errAccountOffline)) fs ?s1 s'"
      using Cons.IH by blast
    then show ?thesis using converse_rtranclp_into_rtranclp [of R, OF step r(1)] ws False
      by (intro exI [of _ s'] exI [of _ fs]) (simp add: qmoves_def)
  qed
qed

lemma qawait_run:
  assumes "t \<in> Q" "list_all ev_ok (wt_events wt)" "cs_qphase s t = QWaiting ch"
    "await wt (\<lambda>h. hb_qchan h ch) (cs_hub s) = (r, h')"
  shows "\<exists>s'. R\<^sup>*\<^sup>* s s' \<and> qmoves t (QReturning ch r) [] s s' \<and> same_tables (cs_hub s') h'"
proof -
  obtain s1 where s1: "R\<^sup>*\<^sup>* s s1" "quiet s s1" "cs_hub s1 = fold hub_step (wt_events wt) (cs_hub s)"
    using events_run [OF assms(2)] by blast
  have ph: "cs_qphase s1 t = QWaiting ch" using assms(3) s1(2) by (simp add: quiet_def)
  have h': "h' = cs_hub s1" using assms(4) by (auto simp: await_def Let_def s1(3) split: list.splits if_splits)
  obtain s2 where "R s1 s2" "qmoves t (QReturning ch r) [] s1 s2" "same_tables (cs_hub s2) (cs_hub s1)"
  proof (cases "\<exists>v rest. hb_qchan (cs_hub s1) ch = v # rest \<and> \<not> wt_ctx_first wt")
    case True
    then obtain v rest where v: "hb_qchan (cs_hub s1) ch = v # rest" "r = Inr v"
      using assms(4) by (auto simp: await_def Let_def s1(3))
    have "R s1 (on_hub (set_qchan ch rest) (qgo t (QReturning ch (Inr v)) s1))"
      using assms(1) by (intro own_move conc_step.QReceive [OF ph v(1)]) auto
    from that [OF this] show ?thesis by (simp add: qmoves_def same_tables_def v(2))
  next
    case False
    then have r: "r = Inl (ctx_Err (wt_ctx_err wt))"
      using assms(4) by (auto simp: await_def Let_def s1(3) split: list.splits)
    have "R s1 (qgo t (QReturning ch (Inl (ctx_Err (wt_ctx_err wt)))) s1)"
      using assms(1) by (intro own_move conc_step.QExpire [OF ph]) auto
    from that [OF this] show ?thesis by (simp add: qmoves_def same_tables_def r)
  qed
  then show ?thesis using s1 unfolding h'
    by (intro exI [of _ s2]) (auto simp: qmoves_def quiet_def intro: rtranclp.rtrancl_into_rtrancl)
qed

lemma query_asked:
  assumes "t \<in> Q" "cs_qphase s t = QStart" "ds = devicesForAccount (cs_hub s) (jb_qaccount J t)" "ds \<noteq> []"
    "ch = hb_next (cs_hub s)" "send_first ds (query_frame (jb_qid J t) (jb_query J t)) w = (sent, w1)"
  shows "\<exists>s' fs. R\<^sup>*\<^sup>* s s' \<and> cs_hub s' = qregister (jb_qid J t) (cs_hub s) \<and> wd_sent w1 = wd_sent w @ fs
    \<and> qmoves t (if sent then QWaiting ch else QReturning ch (Inl errAccountOffline)) fs s s'"
proof -
  let ?s1 = "qgo t (QLooked ds) s"
  let ?s2 = "on_hub (qregister (jb_qid J t)) (qgo t (QAsking ch ds) ?s1)"
  have "conc_step J s ?s1" using conc_step.QList [OF assms(2,3)] assms(4) by simp
  then have "R s ?s1" using assms(1) by (intro own_move) auto
  moreover have "conc_step J ?s1 ?s2" using conc_step.QRegister [of ?s1 t ds J] by (simp add: assms(5))
  then have "R ?s1 ?s2" using assms(1) by (intro own_move) auto
  ultimately have to2: "R\<^sup>*\<^sup>* s ?s2" by (meson r_into_rtranclp rtranclp_trans)
  have "cs_qphase ?s2 t = QAsking ch ds" by simp
  from send_first_run [OF assms(1) this assms(6)] obtain s3 fs where s3: "R\<^sup>*\<^sup>* ?s2 s3" "cs_hub s3 = cs_hub ?s2"
    "wd_sent w1 = wd_sent w @ fs" "qmoves t (if sent then QWaiting ch else QReturning ch (Inl errAccountOffline)) fs ?s2 s3"
    by blast
  then show ?thesis using to2
    by (intro exI [of _ s3] exI [of _ fs]) (simp add: qmoves_def rtranclp_trans [OF to2])
qed

lemma query_answered:
  assumes "t \<in> Q" "list_all ev_ok (wt_events wt)"
    "cs_qphase s t = (if sent then QWaiting ch else QReturning ch (Inl errAccountOffline))"
    "(if \<not> sent then (Inl errAccountOffline, cs_hub s) else await wt (\<lambda>h. hb_qchan h ch) (cs_hub s)) = (r, h')"
  shows "\<exists>s'. R\<^sup>*\<^sup>* s s' \<and> qmoves t (QReturning ch r) [] s s' \<and> same_tables (cs_hub s') h'"
proof (cases sent)
  case True
  then show ?thesis using assms by (intro qawait_run) simp_all
next
  case False
  then show ?thesis using assms by (intro exI [of _ s]) (auto simp: qmoves_def same_tables_def)
qed

lemma query_run:
  assumes own: "t \<in> Q" and evs: "list_all ev_ok (wt_events wt)" and start: "cs_qphase s t = QStart"
    and run: "sendQuery wt (jb_qaccount J t) (jb_query J t) (cs_hub s) w = (r, h', w')"
    and qid: "jb_qid J t = ''qry_'' @ EncodeToString (stake 12 (wd_entropy w))"
  shows "\<exists>s' fs. R\<^sup>*\<^sup>* s s' \<and> qmoves t (QDone r) fs s s' \<and> wd_sent w' = wd_sent w @ fs \<and> same_tables (cs_hub s') h'"
proof (cases "devicesForAccount (cs_hub s) (jb_qaccount J t) = []")
  case True
  then have "r = Inl errAccountOffline" "h' = cs_hub s" "w' = w" using run by (auto simp: sendQuery_def)
  moreover have "R s (qgo t (QDone (Inl errAccountOffline)) s)"
    using conc_step.QList [where J = J, OF start refl] True own by (intro own_move) auto
  ultimately show ?thesis
    by (intro exI [of _ "qgo t (QDone r) s"] exI [of _ "[]"]) (simp add: qmoves_def r_into_rtranclp same_tables_def)
next
  case False
  let ?w0 = "w\<lparr>wd_entropy := sdrop 12 (wd_entropy w)\<rparr>" and ?ch = "hb_next (cs_hub s)"
  obtain sent w1 where snd: "send_first (devicesForAccount (cs_hub s) (jb_qaccount J t))
      (query_frame (jb_qid J t) (jb_query J t)) ?w0 = (sent, w1)" by fastforce
  from query_asked [OF own start refl False refl snd] obtain s3 fs where s3: "R\<^sup>*\<^sup>* s s3"
    "cs_hub s3 = qregister (jb_qid J t) (cs_hub s)" "wd_sent w1 = wd_sent w @ fs"
    "qmoves t (if sent then QWaiting ?ch else QReturning ?ch (Inl errAccountOffline)) fs s s3" by auto
  obtain h2 where h2: "(if \<not> sent then (Inl errAccountOffline, cs_hub s3)
      else await wt (\<lambda>h. hb_qchan h ?ch) (cs_hub s3)) = (r, h2)" "h' = qderegister (jb_qid J t) h2" "w' = w1"
    using sendQuery_parts [OF run False qid snd] unfolding s3(2) by metis
  have "cs_qphase s3 t = (if sent then QWaiting ?ch else QReturning ?ch (Inl errAccountOffline))"
    using s3(4) by (simp add: qmoves_def)
  from query_answered [OF own evs this h2(1)] obtain s5 where s5: "R\<^sup>*\<^sup>* s3 s5"
    "qmoves t (QReturning ?ch r) [] s3 s5" "same_tables (cs_hub s5) h2" by blast
  let ?s' = "on_hub (qderegister (jb_qid J t)) (qgo t (QDone r) s5)"
  have "R s5 ?s'" using s5(2) own by (intro own_move conc_step.QDelete) (auto simp: qmoves_def)
  then have "R\<^sup>*\<^sup>* s ?s'" using s3(1) s5(1) by (meson r_into_rtranclp rtranclp_trans)
  moreover have "same_tables (cs_hub ?s') h'" using s5(3) by (simp add: h2(2) same_tables_def)
  moreover have "qmoves t (QDone r) fs s ?s'" using s3(4) s5(2) by (simp add: qmoves_def)
  ultimately show ?thesis using s3(3) h2(3) by blast
qed

end

section \<open>Agreement\<close>

text \<open>
  C16. A call is a run. A request sent by \<open>sendRequest\<close> from a hub, whatever its wait, is a run of the
  interleaving machine from that hub in which this request goes from its start to its return with
  the same answer, writes the same frames in the same order, moves no other call, and leaves the
  same bindings and the same waiters.
\<close>

theorem request_is_run:
  assumes "sendRequest wt (jb_account J t) (jb_request J t) (cs_hub s) w = (r, h', w')" "cs_phase s t = Start"
  shows "\<exists>s' fs. (conc_step J)\<^sup>*\<^sup>* s s' \<and> cs_phase s' = (cs_phase s)(t := Done r)
    \<and> cs_qphase s' = cs_qphase s \<and> wd_sent w' = wd_sent w @ fs \<and> cs_sent s' = cs_sent s @ fs
    \<and> same_tables (cs_hub s') h'"
proof -
  have "list_all (\<lambda>_. True) (wt_events wt)" by (simp add: list_all_iff)
  from any.request_run [OF UNIV_I this assms(2,1)] show ?thesis by (simp add: moves_def) blast
qed

definition answered_wait :: wait where
  "answered_wait = \<lparr>wt_events = [EvResult sample_res], wt_ctx_first = False, wt_ctx_err = DeadlineExceeded\<rparr>"

theorem request_is_run_witness:
  "\<exists>s' :: conc. (conc_step sample_jobs)\<^sup>*\<^sup>* (smp dev1 Start QStart hub1 [] [] {}) s' \<and> cs_phase s' 0 = Done (Inr sample_res)"
proof -
  let ?s = "smp dev1 Start QStart hub1 [] [] {}"
  obtain r h' w' where run: "sendRequest answered_wait (jb_account sample_jobs 0) (jb_request sample_jobs 0) (cs_hub ?s) world1
      = (r, h', w')" using prod_cases3 by blast
  have "tr_ID (jb_request sample_jobs 0) = []" using sample_jobs_sel(1) by (simp add: request_id_def)
  then have "r = Inr sample_res"
    using request_result [OF _ run] hub1_wf
    by (simp add: devices_hub1 world1_def answered_wait_def outcome_def first_for_def)
  then show ?thesis using request_is_run [OF run] by auto
qed

text \<open>
  A query is a run as well: \<open>sendQuery\<close>, with the identifier it draws, is a run of the interleaving
  machine with the same answer, the same frame, the same bindings and the same waiters.
\<close>

theorem query_is_run:
  assumes "sendQuery wt (jb_qaccount J t) (jb_query J t) (cs_hub s) w = (r, h', w')" "cs_qphase s t = QStart"
    "jb_qid J t = ''qry_'' @ EncodeToString (stake 12 (wd_entropy w))"
  shows "\<exists>s' fs. (conc_step J)\<^sup>*\<^sup>* s s' \<and> cs_qphase s' = (cs_qphase s)(t := QDone r)
    \<and> cs_phase s' = cs_phase s \<and> wd_sent w' = wd_sent w @ fs \<and> cs_sent s' = cs_sent s @ fs
    \<and> same_tables (cs_hub s') h'"
proof -
  have "list_all (\<lambda>_. True) (wt_events wt)" by (simp add: list_all_iff)
  from any.query_run [OF UNIV_I this assms(2,1,3)] show ?thesis by (simp add: qmoves_def) blast
qed

theorem query_is_run_witness:
  "\<exists>s' :: conc. (conc_step (sample_jobs\<lparr>jb_qid := (\<lambda>_. ''qry_'' @ EncodeToString (replicate 12 0))\<rparr>))\<^sup>*\<^sup>*
     (smp dev1 Start QStart hub1 [] [] {}) s' \<and> cs_qphase s' 0 = QDone (Inl (ctx_Err DeadlineExceeded))"
proof -
  let ?J = "sample_jobs\<lparr>jb_qid := (\<lambda>_. ''qry_'' @ EncodeToString (replicate 12 0))\<rparr>"
  let ?s = "smp dev1 Start QStart hub1 [] [] {}"
  obtain r h' w' where run: "sendQuery (answered_wait\<lparr>wt_events := []\<rparr>) (jb_qaccount ?J 0) (jb_query ?J 0) (cs_hub ?s) world1
      = (r, h', w')" using prod_cases3 by blast
  have "stake 12 (wd_entropy world1) = replicate 12 0" by (simp add: world1_def map_replicate_const)
  moreover from this have "r = Inl (ctx_Err DeadlineExceeded)"
    using query_result [OF _ run] hub1_wf
    by (simp add: devices_hub1 Let_def first_accepting_def world1_def answered_wait_def outcome_def first_query_for_def)
  ultimately show ?thesis using query_is_run [OF run] by auto
qed

end
