(* ===== verification/Relay_Calls.thy ===== *)
theory Relay_Calls
  imports Relay_Handlers Hub_Sequential
begin

text \<open>
  The other side of \<open>Relay_Handlers\<close>: serving an HTTP request, as \<open>routes\<close> of theory \<open>Http\<close> does in one
  piece, is a run of the steps of \<open>Relay_System\<close> that moves one request or one query of the hub, or the
  one connection it is upgraded to. The hub calls that happen during its wait are the deliveries of
  some enrolled connection. The run of the threads comes from \<open>Hub_Sequential\<close>.
\<close>

section \<open>Steps of a thread within the relay\<close>

text \<open>Everything but the threads and what was heard.\<close>

definition same_rest :: "'s relay \<Rightarrow> 's relay \<Rightarrow> bool" where
  "same_rest r r' \<longleftrightarrow> ry_store r' = ry_store r \<and> ry_rl r' = ry_rl r \<and> ry_world r' = ry_world r
     \<and> ry_link r' = ry_link r \<and> ry_call r' = ry_call r \<and> ry_qcall r' = ry_qcall r"

lemma same_rest_trans: "same_rest r r1 \<Longrightarrow> same_rest r1 r2 \<Longrightarrow> same_rest r r2"
  by (simp add: same_rest_def)

lemma same_rest_ops [simp]:
  "same_rest r r" "same_rest r (on_conc f r)" "same_rest r (hear ws env r')  \<longleftrightarrow> same_rest r r'"
  by (simp_all add: same_rest_def)

lemma own_relay_step:
  assumes step: "own_step J D T Q (ry_conc r) c" and link: "D \<longrightarrow> ry_link r ws = Enrolled a"
    and T: "\<forall>u\<in>T. \<exists>key. ry_call r u = Running key" and Q: "\<forall>u\<in>Q. \<exists>key. ry_qcall r u = Running key"
  shows "\<exists>r'. relay_step J S B E (\<lambda>_ _ _. True) r r' \<and> ry_conc r' = c \<and> same_rest r r'"
proof (cases "cs_reported c = cs_reported (ry_conc r) \<and> cs_answered c = cs_answered (ry_conc r)")
  case True
  have "relay_step J S B E (\<lambda>_ _ _. True) r (on_conc (\<lambda>_. c) r)"
    using step T Q True by (intro relay_step.Run) (auto simp: own_step_def)
  then show ?thesis by (intro exI [of _ "on_conc (\<lambda>_. c) r"]) simp
next
  case False
  then have link: "ry_link r ws = Enrolled a" using step link by (auto simp: own_step_def)
  have cs: "conc_step J (ry_conc r) c" using step by (simp add: own_step_def)
  show ?thesis using cs
  proof (cases rule: conc_step.cases)
    case (DeliverLookup res ch)
    let ?r' = "hear ws ((envelope TypeResult)\<lparr>e_Result := Some res\<rparr>) (on_conc (\<lambda>c. c\<lparr>cs_flight := (ch, res) # cs_flight c,
        cs_reported := insert res (cs_reported c)\<rparr>) r)"
    have "relay_step J S B E (\<lambda>_ _ _. True) r ?r'"
      using link DeliverLookup(2) by (intro relay_step.Result) simp_all
    then show ?thesis using DeliverLookup(1) by (intro exI [of _ ?r']) simp
  next
    case (QDeliverLookup qid ch qr)
    let ?r' = "hear ws ((envelope TypeQueryResult)\<lparr>e_ID := qid, e_QueryResult := Some qr\<rparr>) (on_conc (\<lambda>c. c\<lparr>
        cs_qflight := (ch, qr) # cs_qflight c, cs_answered := insert (qid, qr) (cs_answered c)\<rparr>) r)"
    have "relay_step J S B E (\<lambda>_ _ _. True) r ?r'"
      using relay_step.QueryResult [of r ws a "(envelope TypeQueryResult)\<lparr>e_ID := qid, e_QueryResult := Some qr\<rparr>" "qr"
          "\<lambda>_ _ _. True" ch J S B E] link QDeliverLookup(2) by simp
    then show ?thesis using QDeliverLookup(1) by (intro exI [of _ ?r']) simp
  qed (use False in simp_all)
qed

lemma own_relay_run:
  assumes "(own_step J D T Q)\<^sup>*\<^sup>* (ry_conc r) c" "D \<longrightarrow> ry_link r ws = Enrolled a"
    "\<forall>u\<in>T. \<exists>key. ry_call r u = Running key" "\<forall>u\<in>Q. \<exists>key. ry_qcall r u = Running key"
  shows "\<exists>r'. (relay_step J S B E (\<lambda>_ _ _. True))\<^sup>*\<^sup>* r r' \<and> ry_conc r' = c \<and> same_rest r r'"
  using assms(1)
proof (induction rule: rtranclp_induct)
  case base
  show ?case by (intro exI [of _ r]) simp
next
  case (step c1 c2)
  then obtain r1 where r1: "(relay_step J S B E (\<lambda>_ _ _. True))\<^sup>*\<^sup>* r r1" "ry_conc r1 = c1" "same_rest r r1" by blast
  obtain r2 where r2: "relay_step J S B E (\<lambda>_ _ _. True) r1 r2" "ry_conc r2 = c2" "same_rest r1 r2"
    using own_relay_step [of J D T Q r1 c2 ws a S B E] step(2) r1(2,3) assms(2-4) by (auto simp: same_rest_def)
  show ?case
    using rtranclp.rtrancl_into_rtrancl [OF r1(1) r2(1)] same_rest_trans [OF r1(3) r2(3)] r2(2) by blast
qed

section \<open>What a request leaves alone\<close>

lemma fan_out_world:
  "wd_entropy (snd (fan_out ds env n w)) = wd_entropy w" "wd_clock (snd (fan_out ds env n w)) = wd_clock w"
  by (induction ds arbitrary: n w)
     (auto simp: writeJSON_conn_def ws_WriteJSON_def Let_def split: prod.splits)

lemma sendRequest_world:
  assumes "sendRequest wt acc req h w = (r, h', w')"
  shows "wd_entropy w' = wd_entropy w" "wd_clock w' = wd_clock w"
proof -
  have "wd_entropy w' = wd_entropy w \<and> wd_clock w' = wd_clock w"
  proof (cases "devicesForAccount h acc = []")
    case True
    then show ?thesis using assms by (auto simp: sendRequest_def)
  next
    case False
    obtain m w1 where fan: "fan_out (devicesForAccount h acc) (request_frame req) 0 w = (m, w1)" by fastforce
    from sendRequest_parts [OF assms False fan] have "w' = withdraw h' acc (tr_ID req) w1" by metis
    then show ?thesis using fan_out_world [of "devicesForAccount h acc" "request_frame req" 0 w]
      by (simp add: withdraw_def fan fan_out_world)
  qed
  then show "wd_entropy w' = wd_entropy w" "wd_clock w' = wd_clock w" by simp_all
qed

lemma send_first_world:
  "wd_entropy (snd (send_first ds env w)) = wd_entropy w" "wd_clock (snd (send_first ds env w)) = wd_clock w"
  by (induction ds arbitrary: w) (auto simp: writeJSON_conn_def ws_WriteJSON_def Let_def split: prod.splits)

lemma sendQuery_world:
  assumes "sendQuery wt acc q h w = (r, h', w')" "devicesForAccount h acc \<noteq> []"
  shows "wd_entropy w' = sdrop 12 (wd_entropy w)" "wd_clock w' = wd_clock w"
proof -
  obtain qid where qid: "qid = ''qry_'' @ EncodeToString (stake 12 (wd_entropy w))" by simp
  obtain sent w1 where fan: "send_first (devicesForAccount h acc) (query_frame qid q)
      (w\<lparr>wd_entropy := sdrop 12 (wd_entropy w)\<rparr>) = (sent, w1)" by fastforce
  have "w' = w1" using sendQuery_parts [OF assms qid fan] by metis
  then show "wd_entropy w' = sdrop 12 (wd_entropy w)" "wd_clock w' = wd_clock w"
    using send_first_world [of "devicesForAccount h acc" "query_frame qid q"
        "w\<lparr>wd_entropy := sdrop 12 (wd_entropy w)\<rparr>"] by (simp_all add: fan)
qed

lemma build_sent: "buildTxRequest B key body w = (x, w2) \<Longrightarrow> wd_sent w2 = wd_sent w"
  using build_world [of B key body w] by simp

section \<open>Served calls\<close>

lemma limiter_call_ops [simp]: "ry_rl (set_call t c r) = ry_rl r" "ry_rl (set_qcall t c r) = ry_rl r"
  by (simp_all add: set_call_def set_qcall_def)

text \<open>What the caller is told of a request that went to the hub.\<close>

definition create_answer :: "go_error + TxResult \<Rightarrow> Response \<Rightarrow> Response" where
  "create_answer q rw =
     (case q of
        Inl e \<Rightarrow> if e = errAccountOffline then device_offline rw else timed_out rw
      | Inr result \<Rightarrow> writeJSON 200 (ResultJSON result) rw)"

text \<open>
  The relay \<open>r'\<close>, reached from \<open>r\<close>, is where the server \<open>s\<close> is: the store, the limiter, the bindings and the
  waiters, the random bytes left and the clock, and the frames written, which are those of the threads unless a
  connection moved. Only request \<open>t\<close> and query \<open>u\<close> moved,
  and either not at all or to the answer \<open>rw\<close> of the caller.
\<close>

definition serves :: "nat \<Rightarrow> nat \<Rightarrow> 's relay \<Rightarrow> Response \<Rightarrow> 's server \<Rightarrow> 's relay \<Rightarrow> bool" where
  "serves t u r rw s r' \<longleftrightarrow>
     ry_store r' = sv_store s \<and> ry_rl r' = sv_rl s \<and> same_tables (cs_hub (ry_conc r')) (sv_hub s)
     \<and> wd_entropy (ry_world r') = wd_entropy (sv_world s) \<and> wd_clock (ry_world r') = wd_clock (sv_world s)
     \<and> (\<exists>fs. cs_sent (ry_conc r') = cs_sent (ry_conc r) @ fs \<and> wd_sent (sv_world s) = wd_sent (ry_world r') @ fs)
     \<and> (ry_link r' = ry_link r \<longrightarrow> wd_sent (ry_world r') = wd_sent (ry_world r))
     \<and> (\<forall>v. v \<noteq> t \<longrightarrow> ry_call r' v = ry_call r v \<and> cs_phase (ry_conc r') v = cs_phase (ry_conc r) v)
     \<and> (\<forall>v. v \<noteq> u \<longrightarrow> ry_qcall r' v = ry_qcall r v \<and> cs_qphase (ry_conc r') v = cs_qphase (ry_conc r) v)
     \<and> (cs_phase (ry_conc r') t = Start
         \<or> (\<exists>q rw0. cs_phase (ry_conc r') t = Done q \<and> rw = create_answer q rw0))
     \<and> (cs_qphase (ry_conc r') u = QStart
         \<or> (\<exists>q missing rw0. cs_qphase (ry_conc r') u = QDone q \<and> rw = query_answer missing q rw0))"

text \<open>The job of a thread is known once its call is built: only the jobs of \<open>t\<close> and \<open>u\<close> are filled in.\<close>

definition other_jobs :: "nat \<Rightarrow> nat \<Rightarrow> jobs \<Rightarrow> jobs \<Rightarrow> bool" where
  "other_jobs t u J J' \<longleftrightarrow>
     (\<forall>v. v \<noteq> t \<longrightarrow> jb_account J' v = jb_account J v \<and> jb_request J' v = jb_request J v)
     \<and> (\<forall>v. v \<noteq> u \<longrightarrow> jb_qaccount J' v = jb_qaccount J v \<and> jb_qid J' v = jb_qid J v \<and> jb_query J' v = jb_query J v)"

text \<open>Serving a call is a run in which no connection outside \<open>W\<close> moves.\<close>

definition served :: "jobs \<Rightarrow> 's Store \<Rightarrow> blake2b \<Rightarrow> ('e, 'p) edwards \<Rightarrow> nat \<Rightarrow> nat \<Rightarrow> nat set \<Rightarrow>
    's relay \<Rightarrow> Response \<Rightarrow> 's server \<Rightarrow> bool" where
  "served J S B E t u W r rw s \<longleftrightarrow> (\<exists>J' r'. other_jobs t u J J' \<and> (relay_step J' S B E (\<lambda>_ _ _. True))\<^sup>*\<^sup>* r r'
     \<and> (\<forall>v. v \<notin> W \<longrightarrow> ry_link r' v = ry_link r v) \<and> serves t u r rw s r')"

lemma servedI:
  "other_jobs t u J J' \<Longrightarrow> (relay_step J' S B E (\<lambda>_ _ _. True))\<^sup>*\<^sup>* r r' \<Longrightarrow> (\<And>v. v \<notin> W \<Longrightarrow> ry_link r' v = ry_link r v)
     \<Longrightarrow> serves t u r rw s r' \<Longrightarrow> served J S B E t u W r rw s"
  unfolding served_def by blast

definition fresh :: "nat \<Rightarrow> nat \<Rightarrow> 's relay \<Rightarrow> bool" where
  "fresh t u r \<longleftrightarrow> cs_phase (ry_conc r) t = Start \<and> cs_qphase (ry_conc r) u = QStart"

lemma served_now: "agrees s r \<Longrightarrow> fresh t u r \<Longrightarrow> served J S B E t u W r rw s"
  unfolding served_def
  by (intro exI [of _ J] exI [of _ r]) (simp add: other_jobs_def serves_def agrees_def fresh_def same_tables_def)

text \<open>A step that any jobs allow, of \<open>t\<close> or \<open>u\<close> before they reach the hub.\<close>

lemma served_step:
  assumes "\<And>J. relay_step J S B E (\<lambda>_ _ _. True) r r1" "served J S B E t u W r1 rw s"
    "ry_conc r1 = ry_conc r" "ry_link r1 = ry_link r" "wd_sent (ry_world r1) = wd_sent (ry_world r)"
    "\<And>v. v \<noteq> t \<Longrightarrow> ry_call r1 v = ry_call r v"
    "\<And>v. v \<noteq> u \<Longrightarrow> ry_qcall r1 v = ry_qcall r v"
  shows "served J S B E t u W r rw s"
proof -
  obtain J' r' where r': "other_jobs t u J J'" "(relay_step J' S B E (\<lambda>_ _ _. True))\<^sup>*\<^sup>* r1 r'" 
    "\<forall>v. v \<notin> W \<longrightarrow> ry_link r' v = ry_link r1 v" "serves t u r1 rw s r'" using assms(2) unfolding served_def by blast
  moreover have "serves t u r rw s r'" using r'(4) assms(3-7) by (simp add: serves_def)
  moreover have "(relay_step J' S B E (\<lambda>_ _ _. True))\<^sup>*\<^sup>* r r'"
    using converse_rtranclp_into_rtranclp [of "relay_step J' S B E (\<lambda>_ _ _. True)", OF assms(1) r'(2)] .
  ultimately show ?thesis using assms(4) by (intro servedI [of t u J J']) simp_all
qed

section \<open>Creation requests\<close>

lemma create_cases:
  assumes run: "handleCreateRequest S B wt rq rw s = (rw', s')"
    and k: "authKey S rq (sv_store s) = ((key, ok), st)"
    and a: "rl_allow (k_ID key) (sv_rl s) (sv_world s) = (allowed, rl, w)"
  obtains (unchanged) "s' = s"
  | (nokey) "\<not> ok" "s' = s\<lparr>sv_store := st\<rparr>"
  | (admitted) "ok" "s' = s\<lparr>sv_store := st, sv_rl := rl, sv_world := w\<rparr>"
  | (rejected) body e w2 where "ok" "allowed" "decode_struct maxRequestBodyBytes body_fields (rq_Body rq) = Some body"
      "buildTxRequest B key body w = (Inl e, w2)" "s' = s\<lparr>sv_store := st, sv_rl := rl, sv_world := w2\<rparr>"
  | (offline) body req w2 where "ok" "allowed" "decode_struct maxRequestBodyBytes body_fields (rq_Body rq) = Some body"
      "buildTxRequest B key body w = (Inr req, w2)" "s' = s\<lparr>sv_store := st, sv_rl := rl, sv_world := w2\<rparr>"
  | (sent) body req w2 q h w3 where "ok" "allowed" "decode_struct maxRequestBodyBytes body_fields (rq_Body rq) = Some body"
      "buildTxRequest B key body w = (Inr req, w2)" "sendRequest wt (k_OwnerAccount key) req (sv_hub s) w2 = (q, h, w3)"
      "s' = s\<lparr>sv_store := st, sv_rl := rl, sv_hub := h, sv_world := w3\<rparr>" "rw' = create_answer q rw"
proof (cases "rq_Method rq = ''POST'' \<and> ok \<and> allowed")
  case False
  then consider "rq_Method rq \<noteq> ''POST''" | "rq_Method rq = ''POST''" "\<not> ok"
    | "rq_Method rq = ''POST''" "ok" "\<not> allowed" by blast
  then show ?thesis
  proof cases
    case 1
    then show ?thesis using run unchanged by (simp add: handleCreateRequest_def)
  next
    case 2
    then show ?thesis using run k nokey by (simp add: handleCreateRequest_def Let_def)
  next
    case 3
    then show ?thesis using run k a admitted by (simp add: handleCreateRequest_def Let_def)
  qed
next
  case post: True
  show ?thesis
  proof (cases "decode_struct maxRequestBodyBytes body_fields (rq_Body rq)")
    case None
    then show ?thesis using run k a post admitted by (simp add: handleCreateRequest_def Let_def)
  next
    case (Some body)
    obtain built w2 where b: "buildTxRequest B key body w = (built, w2)" by fastforce
    show ?thesis
    proof (cases built)
      case (Inl e)
      then show ?thesis using run k a b Some post rejected [OF _ _ Some, of e w2]
        by (cases e) (simp_all add: handleCreateRequest_def Let_def)
    next
      case (Inr req)
      obtain q h w3 where q: "sendRequest wt (k_OwnerAccount key) req (sv_hub s) w2 = (q, h, w3)"
        using prod_cases3 by blast
      show ?thesis
      proof (cases "accountOnline (sv_hub s) (k_OwnerAccount key)")
        case False
        then show ?thesis using run k a b Some post Inr offline [OF _ _ Some, of req w2]
          by (simp add: handleCreateRequest_def Let_def)
      next
        case True
        then have "s' = s\<lparr>sv_store := st, sv_rl := rl, sv_hub := h, sv_world := w3\<rparr>" "rw' = create_answer q rw"
          using run k a b Some post Inr q
          by (cases q; auto simp: handleCreateRequest_def create_answer_def Let_def)+
        then show ?thesis using sent [OF _ _ Some _ q] post b Inr by blast
      qed
    qed
  qed
qed

text \<open>A request that is built goes to the hub as request \<open>t\<close>, unless its account is offline.\<close>

lemma build_served:
  assumes ag: "agrees s r" and fr: "fresh t u r" and call: "ry_call r t = Allowed key"
    and body: "decode_struct maxRequestBodyBytes body_fields raw = Some body"
    and built: "buildTxRequest B key body (sv_world s) = (Inr req, w2)"
  shows "served J S B E t u W r rw (s\<lparr>sv_world := w2\<rparr>)"
proof -
  let ?J = "J\<lparr>jb_account := (jb_account J)(t := k_OwnerAccount key), jb_request := (jb_request J)(t := req)\<rparr>"
  let ?r1 = "set_call t (Running key) (r\<lparr>ry_world := w2\<rparr>)"
  have "relay_step ?J S B E (\<lambda>_ _ _. True) r ?r1"
    using built ag by (intro relay_step.Build [OF call body]) (simp_all add: agrees_def)
  moreover have "other_jobs t u J ?J" by (simp add: other_jobs_def)
  moreover have "serves t u r rw (s\<lparr>sv_world := w2\<rparr>) ?r1"
    using ag fr build_sent [OF built] by (simp add: serves_def agrees_def fresh_def same_tables_def)
  ultimately show ?thesis unfolding served_def by (intro exI [of _ ?J] exI [of _ ?r1]) auto
qed

lemma request_served:
  assumes ag: "agrees s r" and fr: "fresh t u r" and call: "ry_call r t = Allowed key"
    and body: "decode_struct maxRequestBodyBytes body_fields raw = Some body"
    and built: "buildTxRequest B key body (sv_world s) = (Inr req, w2)"
    and send: "sendRequest wt (k_OwnerAccount key) req (sv_hub s) w2 = (q, h, w3)"
    and evs: "list_all delivery (wt_events wt)" "wt_events wt \<noteq> [] \<longrightarrow> ry_link r ws = Enrolled a"
  shows "served J S B E t u W r (create_answer q rw) (s\<lparr>sv_hub := h, sv_world := w3\<rparr>)"
proof -
  let ?J = "J\<lparr>jb_account := (jb_account J)(t := k_OwnerAccount key), jb_request := (jb_request J)(t := req)\<rparr>"
  let ?D = "wt_events wt \<noteq> []" and ?r1 = "set_call t (Running key) (r\<lparr>ry_world := w2\<rparr>)"
  have other: "other_jobs t u J ?J" by (simp add: other_jobs_def)
  have step: "relay_step ?J S B E (\<lambda>_ _ _. True) r ?r1"
    using built ag by (intro relay_step.Build [OF call body]) (simp_all add: agrees_def)
  have evs1: "list_all (\<lambda>e. ?D \<and> delivery e) (wt_events wt)" using evs(1) by (cases "wt_events wt") simp_all
  have start: "cs_phase (ry_conc ?r1) t = Start" using fr by (simp add: fresh_def)
  have hub: "cs_hub (ry_conc ?r1) = sv_hub s" using ag by (simp add: agrees_def)
  have "sendRequest wt (jb_account ?J t) (jb_request ?J t) (cs_hub (ry_conc ?r1)) w2 = (q, h, w3)"
    unfolding hub using send by simp
  from owned.request_run [where D = ?D and Q = "{}", OF singletonI evs1 start this] obtain c fs where
    c: "(own_step ?J ?D {t} {})\<^sup>*\<^sup>* (ry_conc ?r1) c" "moves t (Done q) fs (ry_conc ?r1) c"
      "wd_sent w3 = wd_sent w2 @ fs" "same_tables (cs_hub c) h" by blast
  obtain r' where r': "(relay_step ?J S B E (\<lambda>_ _ _. True))\<^sup>*\<^sup>* ?r1 r'" "ry_conc r' = c" "same_rest ?r1 r'"
    using own_relay_run [OF c(1), of ws a S B E] evs(2) by auto
  have "serves t u r (create_answer q rw) (s\<lparr>sv_hub := h, sv_world := w3\<rparr>) r'"
    using r'(2,3) c(2-4) ag fr sendRequest_world [OF send] build_sent [OF built]
    by (auto simp: serves_def same_rest_def moves_def agrees_def fresh_def)
  moreover have "(relay_step ?J S B E (\<lambda>_ _ _. True))\<^sup>*\<^sup>* r r'"
    using converse_rtranclp_into_rtranclp [of "relay_step ?J S B E (\<lambda>_ _ _. True)", OF step r'(1)] .
  ultimately show ?thesis using r'(3) by (intro servedI [OF other]) (simp_all add: same_rest_def)
qed

text \<open>A query of a known key goes to the hub as query \<open>u\<close>.\<close>

lemma query_served:
  assumes ag: "agrees s r" and fr: "fresh t u r" and call: "ry_qcall r u = Known key"
    and run: "run_query wt key op nonce missing rw s = (rw', s')"
    and evs: "list_all delivery (wt_events wt)" "wt_events wt \<noteq> [] \<longrightarrow> ry_link r ws = Enrolled a"
  shows "served J S B E t u W r rw' s'"
proof (cases "accountOnline (sv_hub s) (k_OwnerAccount key)")
  case False
  then show ?thesis using run served_now [OF ag fr] by (simp add: run_query_def)
next
  case True
  let ?q = "key_query key op nonce" and ?qid = "query_id (sv_world s)"
  let ?w1 = "sv_world s\<lparr>wd_entropy := sdrop 12 (wd_entropy (sv_world s))\<rparr>"
  obtain q h w3 where send: "sendQuery wt (k_OwnerAccount key) ?q (sv_hub s) (sv_world s) = (q, h, w3)"
    using prod_cases3 by blast
  have out: "rw' = query_answer missing q rw" "s' = s\<lparr>sv_hub := h, sv_world := w3\<rparr>"
    using run True send by (simp_all add: run_query_def key_query_def)
  let ?J = "J\<lparr>jb_qaccount := (jb_qaccount J)(u := k_OwnerAccount key), jb_qid := (jb_qid J)(u := ?qid),
      jb_query := (jb_query J)(u := ?q)\<rparr>"
  let ?D = "wt_events wt \<noteq> []" and ?r1 = "set_qcall u (Running key) (r\<lparr>ry_world := ?w1\<rparr>)"
  have other: "other_jobs t u J ?J" by (simp add: other_jobs_def)
  have world: "ry_world r = sv_world s" using ag by (simp add: agrees_def)
  have step: "relay_step ?J S B E (\<lambda>_ _ _. True) r ?r1"
    by (rule relay_step.QBuild [OF call]) (simp_all add: world query_id_def randomSecret_def rand_Read_def)
  have evs1: "list_all (\<lambda>e. ?D \<and> delivery e) (wt_events wt)" using evs(1) by (cases "wt_events wt") simp_all
  have start: "cs_qphase (ry_conc ?r1) u = QStart" using fr by (simp add: fresh_def)
  have hub: "cs_hub (ry_conc ?r1) = sv_hub s" using ag by (simp add: agrees_def)
  have "sendQuery wt (jb_qaccount ?J u) (jb_query ?J u) (cs_hub (ry_conc ?r1)) (sv_world s) = (q, h, w3)"
    unfolding hub using send by simp
  from owned.query_run [where D = ?D and T = "{}", OF singletonI evs1 start this] obtain c fs where
    c: "(own_step ?J ?D {} {u})\<^sup>*\<^sup>* (ry_conc ?r1) c" "qmoves u (QDone q) fs (ry_conc ?r1) c"
      "wd_sent w3 = wd_sent (sv_world s) @ fs" "same_tables (cs_hub c) h" by (auto simp: query_id_def)
  obtain r' where r': "(relay_step ?J S B E (\<lambda>_ _ _. True))\<^sup>*\<^sup>* ?r1 r'" "ry_conc r' = c" "same_rest ?r1 r'"
    using own_relay_run [OF c(1), of ws a S B E] evs(2) by auto
  have "serves t u r rw' s' r'"
    using r'(2,3) c(2-4) ag fr sendQuery_world [OF send] True
    by (auto simp: out serves_def same_rest_def qmoves_def agrees_def fresh_def online_devices)
  moreover have "(relay_step ?J S B E (\<lambda>_ _ _. True))\<^sup>*\<^sup>* r r'"
    using converse_rtranclp_into_rtranclp [of "relay_step ?J S B E (\<lambda>_ _ _. True)", OF step r'(1)] .
  ultimately show ?thesis using r'(3) by (intro servedI [OF other]) (simp_all add: same_rest_def)
qed

section \<open>The handlers\<close>

text \<open>A call that starts: neither its request nor its query has begun.\<close>

definition idle :: "nat \<Rightarrow> nat \<Rightarrow> 's relay \<Rightarrow> bool" where
  "idle t u r \<longleftrightarrow> fresh t u r \<and> ry_call r t = Idle \<and> ry_qcall r u = Idle"

lemma ckey_served:
  assumes ag: "agrees s r" and id: "idle t u r" and k: "authKey S rq (sv_store s) = ((key, ok), st)"
    and rest: "served J S B E t u W (set_call t (if ok then Known key else Idle) (r\<lparr>ry_store := st\<rparr>)) rw s'"
  shows "served J S B E t u W r rw s'"
  by (rule served_step [OF _ rest])
     (use id ag k in \<open>simp_all add: relay_step.Key agrees_def idle_def del: if_split\<close>)

lemma admit_served:
  assumes ag: "agrees s r" and call: "ry_call r t = Known key"
    and l: "rl_allow (k_ID key) (sv_rl s) (sv_world s) = (allowed, rl, w)"
    and rest: "served J S B E t u W (set_call t (if allowed then Allowed key else Idle) (r\<lparr>ry_rl := rl, ry_world := w\<rparr>)) rw s'"
  shows "served J S B E t u W r rw s'"
  by (rule served_step [OF _ rest])
     (use call ag l rl_allow_world [OF l] in \<open>simp_all add: relay_step.Admit agrees_def del: if_split\<close>)

lemma create_served:
  assumes ag: "agrees s r" and id: "idle t u r"
    and run: "handleCreateRequest S B wt rq rw s = (rw', s')"
    and evs: "list_all delivery (wt_events wt)" "wt_events wt \<noteq> [] \<longrightarrow> ry_link r ws = Enrolled a"
  shows "served J S B E t u W r rw' s'"
proof -
  obtain key ok st where k: "authKey S rq (sv_store s) = ((key, ok), st)" by (metis prod.collapse)
  obtain allowed rl w where l: "rl_allow (k_ID key) (sv_rl s) (sv_world s) = (allowed, rl, w)"
    using prod_cases3 by blast
  let ?r1 = "set_call t (if ok then Known key else Idle) (r\<lparr>ry_store := st\<rparr>)" and ?s1 = "s\<lparr>sv_store := st\<rparr>"
  let ?r2 = "set_call t (if allowed then Allowed key else Idle) (?r1\<lparr>ry_rl := rl, ry_world := w\<rparr>)"
  note key = ckey_served [OF ag id k]
  have ag1: "agrees ?s1 ?r1" using ag by (simp add: agrees_def set_call_def)
  have admit: "served J S B E t u W r rw' s'" if ok "served J S B E t u W ?r2 rw' s'"
    using that l by (intro key admit_served [OF ag1]) simp_all
  have fr: "fresh t u r" using id by (simp add: idle_def)
  have fr1: "fresh t u ?r1" and fr2: "fresh t u ?r2" using fr by (simp_all add: fresh_def)
  let ?s2 = "s\<lparr>sv_store := st, sv_rl := rl, sv_world := w\<rparr>"
  have ag2: "agrees ?s2 ?r2"
    using ag by (simp add: agrees_def set_call_def)
  have call: "ry_call ?r2 t = Allowed key" if allowed using that by simp
  from run k l show ?thesis
  proof (cases rule: create_cases)
    case unchanged
    then show ?thesis using served_now [OF ag fr] by simp
  next
    case nokey
    show ?thesis unfolding nokey(2) by (intro key served_now [OF ag1 fr1])
  next
    case admitted
    have "served J S B E t u W ?r2 rw' s'" unfolding admitted(2) by (rule served_now [OF ag2 fr2])
    then show ?thesis using admitted(1) by (rule admit [rotated])
  next
    case (rejected body e w2)
    let ?r3 = "set_call t Idle (?r2\<lparr>ry_world := w2\<rparr>)"
    have "served J S B E t u W ?r3 rw' s'"
      using ag2 fr2 rejected(5) by (intro served_now) (simp_all add: agrees_def fresh_def set_call_def)
    moreover have "buildTxRequest B key body (ry_world ?r2) = (Inl e, w2)"
      using rejected(4) by (simp add: set_call_def)
    then have step: "relay_step J S B E (\<lambda>_ _ _. True) ?r2 ?r3" for J
      by (rule relay_step.Reject [OF call [OF rejected(2)] rejected(3)])
    moreover have "wd_sent w2 = wd_sent w" by (rule build_sent [OF rejected(4)])
    ultimately have "served J S B E t u W ?r2 rw' s'" by (intro served_step [OF step]) (simp_all add: set_call_def)
    then show ?thesis using rejected(1) by (rule admit [rotated])
  next
    case (offline body req w2)
    have b: "buildTxRequest B key body (sv_world ?s2) = (Inr req, w2)" using offline(4) by simp
    have s': "s' = ?s2\<lparr>sv_world := w2\<rparr>" using offline(5) by simp
    have "served J S B E t u W ?r2 rw' s'"
      unfolding s' by (rule build_served [OF ag2 fr2 call [OF offline(2)] offline(3) b])
    then show ?thesis using offline(1) by (rule admit [rotated])
  next
    case (sent body req w2 q h w3)
    have b: "buildTxRequest B key body (sv_world ?s2) = (Inr req, w2)" using sent(4) by simp
    have q: "sendRequest wt (k_OwnerAccount key) req (sv_hub ?s2) w2 = (q, h, w3)" using sent(5) by simp
    have s': "s' = ?s2\<lparr>sv_hub := h, sv_world := w3\<rparr>" using sent(6) by simp
    have "served J S B E t u W ?r2 rw' s'"
      unfolding s' sent(7) using evs
      by (intro request_served [OF ag2 fr2 call [OF sent(2)] sent(3) b q]) simp_all
    then show ?thesis using sent(1) by (rule admit [rotated])
  qed
qed

lemma qkey_served:
  assumes ag: "agrees s r" and id: "idle t u r" and k: "authKey S rq (sv_store s) = ((key, ok), st)"
    and rest: "served J S B E t u W (set_qcall u (if ok then Known key else Idle) (r\<lparr>ry_store := st\<rparr>)) rw s'"
  shows "served J S B E t u W r rw s'"
  by (rule served_step [OF _ rest])
     (use id ag k in \<open>simp_all add: relay_step.QKey agrees_def idle_def del: if_split\<close>)

text \<open>A handler that authenticates, and then asks the device or stops.\<close>

lemma keyed_served:
  assumes ag: "agrees s r" and id: "idle t u r" and k: "authKey S rq (sv_store s) = ((key, ok), st)"
    and run: "s' = s\<lparr>sv_store := st\<rparr> \<or> ok \<and> run_query wt key op nonce missing rw (s\<lparr>sv_store := st\<rparr>) = (rw', s')"
    and evs: "list_all delivery (wt_events wt)" "wt_events wt \<noteq> [] \<longrightarrow> ry_link r ws = Enrolled a"
  shows "served J S B E t u W r rw' s'"
proof (rule qkey_served [OF ag id k])
  let ?r1 = "set_qcall u (if ok then Known key else Idle) (r\<lparr>ry_store := st\<rparr>)"
  have ag1: "agrees (s\<lparr>sv_store := st\<rparr>) ?r1" using ag by (simp add: agrees_def set_qcall_def)
  have fr1: "fresh t u ?r1" using id by (simp add: idle_def fresh_def)
  from run show "served J S B E t u W ?r1 rw' s'"
  proof
    assume s': "s' = s\<lparr>sv_store := st\<rparr>"
    show ?thesis unfolding s' by (rule served_now [OF ag1 fr1])
  next
    assume "ok \<and> run_query wt key op nonce missing rw (s\<lparr>sv_store := st\<rparr>) = (rw', s')"
    then have q: "ok" "run_query wt key op nonce missing rw (s\<lparr>sv_store := st\<rparr>) = (rw', s')" by blast+
    show ?thesis using q(1) evs by (intro query_served [OF ag1 fr1 _ q(2)]) simp_all
  qed
qed

lemma broadcast_served:
  assumes ag: "agrees s r" and id: "idle t u r"
    and run: "handleBroadcast S wt rq rw s = (rw', s')"
    and evs: "list_all delivery (wt_events wt)" "wt_events wt \<noteq> [] \<longrightarrow> ry_link r ws = Enrolled a"
  shows "served J S B E t u W r rw' s'"
proof (cases "rq_Method rq = ''POST''")
  case False
  then have "s' = s" using run by (simp add: handleBroadcast_def)
  moreover have "fresh t u r" using id by (simp add: idle_def)
  ultimately show ?thesis using served_now [OF ag] by blast
next
  case post: True
  obtain key ok st where k: "authKey S rq (sv_store s) = ((key, ok), st)" by (metis prod.collapse)
  obtain allowed rl w where l: "rl_allow (k_ID key) (sv_rl s) (sv_world s) = (allowed, rl, w)"
    using prod_cases3 by blast
  show ?thesis
  proof (cases ok)
    case False
    then have "s' = s\<lparr>sv_store := st\<rparr>" using run k post by (simp add: handleBroadcast_def Let_def)
    then show ?thesis using keyed_served [OF ag id k _ evs] by blast
  next
    case True
    let ?r1 = "set_qcall u (Known key) (r\<lparr>ry_store := st\<rparr>)"
    let ?r2 = "set_qcall u (if allowed then Known key else Idle) (?r1\<lparr>ry_rl := rl, ry_world := w\<rparr>)"
    let ?s2 = "s\<lparr>sv_store := st, sv_rl := rl, sv_world := w\<rparr>"
    have ag2: "agrees ?s2 ?r2" using ag by (simp add: agrees_def set_qcall_def)
    have fr2: "fresh t u ?r2" using id by (simp add: idle_def fresh_def)
    have "served J S B E t u W ?r2 rw' s'"
    proof (cases "s' = ?s2")
      case True
      show ?thesis unfolding True by (rule served_now [OF ag2 fr2])
    next
      case False
      then obtain nonce where n: "allowed" "run_query wt key ''broadcast_nonce'' nonce (Some no_signed_block) rw ?s2 = (rw', s')"
        using run k l post True
        by (simp add: handleBroadcast_def Let_def split: if_splits option.splits)
      then show ?thesis using evs by (intro query_served [OF ag2 fr2 _ n(2)]) simp_all
    qed
    then have "served J S B E t u W ?r1 rw' s'"
      by (rule served_step [rotated]) (use ag l rl_allow_world [OF l] in \<open>simp_all add: relay_step.QAdmit agrees_def del: if_split\<close>)
    then show ?thesis using True by (intro qkey_served [OF ag id k]) simp
  qed
qed

section \<open>The API\<close>

lemma agent_served:
  assumes ag: "agrees s r" and id: "idle t u r" and run: "agent_endpoint S B E up rq rw s = (rw', s')"
    and up: "\<And>ws msgs werr. up rq rw = Inr (ws, msgs, werr) \<Longrightarrow>
      ws \<in> W \<and> ry_link r ws = Fresh \<and> list_all (origins_ok utf8_valid) msgs"
  shows "served J S B E t u W r rw' s'"
proof (cases "up rq rw")
  case (Inl x)
  then show ?thesis using run ag id by (simp add: agent_endpoint_def served_now idle_def)
next
  case (Inr x)
  obtain ws msgs werr where x: "x = (ws, msgs, werr)" by (rule prod_cases3)
  have s': "s' = handleAgent S B E werr ws msgs s" using run Inr x by (simp add: agent_endpoint_def)
  have u: "ws \<in> W" "ry_link r ws = Fresh" "list_all (origins_ok utf8_valid) msgs" using up Inr x by simp_all
  obtain r' where r': "(relay_step J S B E (\<lambda>_ _ _. True))\<^sup>*\<^sup>* r r'" "spares ws r r'" "agrees s' r'"
    "ry_link r' ws = Closed"
    using agent_run [OF ag u(2,3), of J S B E werr] unfolding s' reaches_def by blast
  have "serves t u r rw' s' r'"
    using r'(2-4) u(2) id by (auto simp: serves_def spares_def agrees_def idle_def fresh_def same_tables_def)
  moreover have "ry_link r' v = ry_link r v" if "v \<notin> W" for v
    using r'(2) u(1) that by (auto simp: spares_def)
  ultimately show ?thesis using r'(1) by (intro servedI [of t u J J]) (simp_all add: other_jobs_def)
qed

lemma mux_served:
  assumes ag: "agrees s r" and id: "idle t u r" and run: "mux S B E up wt rq rw s = (rw', s')"
    and evs: "list_all delivery (wt_events wt)" "wt_events wt \<noteq> [] \<longrightarrow> ry_link r ws = Enrolled a"
    and up: "\<And>ws msgs werr. up rq rw = Inr (ws, msgs, werr) \<Longrightarrow>
      ws \<in> W \<and> ry_link r ws = Fresh \<and> list_all (origins_ok utf8_valid) msgs"
  shows "served J S B E t u W r rw' s'"
proof -
  obtain key ok st where k: "authKey S rq (sv_store s) = ((key, ok), st)" by (metis prod.collapse)
  have now: "served J S B E t u W r rw' s" using id by (intro served_now [OF ag]) (simp add: idle_def)
  note keyed = keyed_served [OF ag id k _ evs]
  have device: ?thesis if "deviceQuery S wt op rq rw s = (rw', s')" for op
    using that keyed [of s' op "[]" None rw rw' J B E W] now k
    by (auto simp: deviceQuery_def Let_def split: if_splits)
  have status: ?thesis if "handleRequestStatus S wt rq rw s = (rw', s')"
    using that keyed [of s' "''request_status''" "TrimSpace (query_get (rq_RawQuery rq) ''nonce'')"
        "Some no_completed_request" rw rw' J B E W] now k
    by (auto simp: handleRequestStatus_def Let_def split: if_splits)
  have key: ?thesis if "handleStatus S rq rw s = (rw', s')"
    using that keyed [of s' _ _ _ _ rw' J B E W] k by (auto simp: handleStatus_def Let_def split: if_splits)
  show ?thesis
    using run now device status key create_served [OF ag id _ evs] broadcast_served [OF ag id _ evs]
      agent_served [OF ag id _ up]
    unfolding mux_def handleSettings_def handleBalance_def handleActivity_def Let_def
    by (auto split: if_splits)
qed

lemma preflight_served:
  assumes ag: "agrees s r" and org: "OriginAllowed S (sv_store s) org = (ans, st)"
    and rest: "served J S B E t u W (r\<lparr>ry_store := st\<rparr>) rw s'"
  shows "served J S B E t u W r rw s'"
  by (rule served_step [OF _ rest], rule relay_step.Preflight) (use ag org in \<open>simp_all add: agrees_def\<close>)

lemma routes_served:
  assumes ag: "agrees s r" and id: "idle t u r" and run: "routes S B E up wt rq s = (rw', s')"
    and evs: "list_all delivery (wt_events wt)" "wt_events wt \<noteq> [] \<longrightarrow> ry_link r ws = Enrolled a"
    and up: "\<And>rw ws msgs werr. up rq rw = Inr (ws, msgs, werr) \<Longrightarrow>
      ws \<in> W \<and> ry_link r ws = Fresh \<and> list_all (origins_ok utf8_valid) msgs"
  shows "served J S B E t u W r rw' s'"
proof -
  obtain allowed err st where org: "OriginAllowed S (sv_store s) (rq_Header rq ''Origin'') = ((allowed, err), st)"
    by (metis prod.collapse)
  let ?s1 = "s\<lparr>sv_store := st\<rparr>" and ?r1 = "r\<lparr>ry_store := st\<rparr>"
  have ag1: "agrees ?s1 ?r1" and id1: "idle t u ?r1" using ag id by (simp_all add: agrees_def idle_def fresh_def)
  consider rw where "mux S B E up wt rq rw s = (rw', s')" | "s' = ?s1" | rw where "mux S B E up wt rq rw ?s1 = (rw', s')"
    using run org by (simp add: routes_def corsMiddleware_def Let_def split: if_splits)
  then show ?thesis
  proof cases
    case 1
    then show ?thesis using evs up by (intro mux_served [OF ag id]) blast+
  next
    case 2
    have "served J S B E t u W ?r1 rw' s'"
      unfolding 2 using id1 by (intro served_now [OF ag1]) (simp add: idle_def)
    then show ?thesis by (rule preflight_served [OF ag org])
  next
    case 3
    have "served J S B E t u W ?r1 rw' s'"
      using evs up by (intro mux_served [OF ag1 id1 3]) simp_all
    then show ?thesis by (rule preflight_served [OF ag org])
  qed
qed

text \<open>
  C15. A call of the API is a run. Serving any HTTP request by \<open>routes\<close>, whatever its method, path, headers
  and body and however it ends, is a run of the relay's steps which ends where the server does, with
  the same frames written, which moves no other call and no connection but the one the request is upgraded to, and
  whose request or query, if it ran, returned what the caller is told.
\<close>

theorem api_is_run:
  assumes "agrees s r" "idle t u r" "routes S B E up wt rq s = (rw', s')"
    "list_all delivery (wt_events wt)" "wt_events wt \<noteq> [] \<longrightarrow> ry_link r ws = Enrolled a"
    "\<forall>rw v msgs werr. up rq rw = Inr (v, msgs, werr) \<longrightarrow>
       ry_link r v = Fresh \<and> list_all (origins_ok utf8_valid) msgs"
  shows "\<exists>J' r'. other_jobs t u J J' \<and> (relay_step J' S B E (\<lambda>_ _ _. True))\<^sup>*\<^sup>* r r'
    \<and> (\<forall>v. (\<forall>rw msgs werr. up rq rw \<noteq> Inr (v, msgs, werr)) \<longrightarrow> ry_link r' v = ry_link r v)
    \<and> serves t u r rw' s' r'"
proof -
  have "served J S B E t u {v. \<exists>rw msgs werr. up rq rw = Inr (v, msgs, werr)} r rw' s'"
    using assms(6) by (intro routes_served [OF assms(1-5)]) blast
  then show ?thesis unfolding served_def by blast
qed

definition sample_relay :: "sqliteStore relay" where
  "sample_relay = (relay_init sql_sample world1)\<lparr>ry_conc := conc_init\<lparr>cs_hub := sv_hub online_server\<rparr>,
     ry_link := (\<lambda>_. Fresh)(1 := Enrolled dev_acc)\<rparr>"

theorem api_is_run_witness:
  "\<exists>J' r'. (relay_step J' sqlite_store pad_hash toy (\<lambda>_ _ _. True))\<^sup>*\<^sup>* sample_relay r'
     \<and> cs_sent (ry_conc r') \<noteq> [] \<and> ry_link r' = ry_link sample_relay"
proof -
  let ?up = "\<lambda>rq rw. Inl rw"
  obtain rw' s' where run: "routes sqlite_store pad_hash toy ?up sample_wait sample_request online_server = (rw', s')"
    by fastforce
  have ag: "agrees online_server sample_relay" and id: "idle 0 0 sample_relay"
    by (simp_all add: agrees_def idle_def fresh_def sample_relay_def relay_init_def conc_init_def online_server_def
        sql_server_def newServer_def)
  have "ry_link sample_relay 1 = Enrolled dev_acc" by (simp add: sample_relay_def)
  then obtain J' r' where r': "(relay_step J' sqlite_store pad_hash toy (\<lambda>_ _ _. True))\<^sup>*\<^sup>* sample_relay r'"
    "\<forall>v. ry_link r' v = ry_link sample_relay v" "serves 0 0 sample_relay rw' s' r'"
    using api_is_run [OF ag id run, of 1 dev_acc sample_jobs] by (auto simp: sample_wait_def)
  have "cleanPath ''/v1/requests'' = ''/v1/requests''" by code_simp
  then have same: "routes sqlite_store pad_hash toy ?up sample_wait sample_request online_server
      = handleCreateRequest sqlite_store pad_hash sample_wait sample_request newResponse online_server"
    by (simp add: routes_def corsMiddleware_def mux_def sample_request_def)
  have "wd_sent (sv_world s') \<noteq> []" using sample_sends [of sample_wait newResponse] by (simp flip: same add: run)
  moreover have "cs_sent (ry_conc sample_relay) = []" "wd_sent (ry_world sample_relay) = []"
    by (simp_all add: sample_relay_def relay_init_def conc_init_def world1_def)
  ultimately have "cs_sent (ry_conc r') \<noteq> []" using r'(2,3) by (auto simp: serves_def fun_eq_iff)
  then show ?thesis using r'(1,2) by (intro exI [of _ J'] exI [of _ r']) (simp add: fun_eq_iff)
qed

end
