(* ===== verification/Relay_Props.thy ===== *)
theory Relay_Props
  imports Relay_System
begin

text \<open>
  The guarantees of the relay as a whole: who is bound to an account, how a key came to its account,
  to whom a request goes and from whom its result comes, whatever the devices and the callers send and
  however everything interleaves. The evidence for each of them is in what the connections have sent
  and what was written to them.
\<close>

section \<open>Evidence\<close>

text \<open>A connection that answered a challenge it was sent with a valid signature for each of its accounts.\<close>

definition enrolled :: "blake2b \<Rightarrow> ('e, 'p) edwards \<Rightarrow> 's relay \<Rightarrow> agentConn \<Rightarrow> bool" where
  "enrolled B E r d \<longleftrightarrow> (\<exists>nonce env au. (ac_ws d, challenge_frame nonce) \<in> set (wd_sent (ry_world r))
     \<and> (ac_ws d, env) \<in> set (ry_heard r) \<and> e_Auth env = Some au
     \<and> (\<forall>acc\<in>set (ac_accounts d). proves B E nonce (au_Signatures au) acc))"

text \<open>A key that a connection bound to one of its own accounts, by a registration or a rebinding.\<close>

definition sponsored :: "blake2b \<Rightarrow> ('e, 'p) edwards \<Rightarrow> 's relay \<Rightarrow> string \<Rightarrow> string \<Rightarrow> bool" where
  "sponsored B E r kid acc \<longleftrightarrow> (\<exists>d env c. enrolled B E r d \<and> (ac_ws d, env) \<in> set (ry_heard r)
     \<and> e_Control env = Some c \<and> bound_by (ac_accounts d) c kid acc)"

definition grows :: "'s relay \<Rightarrow> 's relay \<Rightarrow> bool" where
  "grows r r' \<longleftrightarrow> set (wd_sent (ry_world r)) \<subseteq> set (wd_sent (ry_world r')) \<and> set (ry_heard r) \<subseteq> set (ry_heard r')"

lemma enrolled_grows: "grows r r' \<Longrightarrow> enrolled B E r d \<Longrightarrow> enrolled B E r' d"
  unfolding grows_def enrolled_def by blast

lemma sponsored_grows: "grows r r' \<Longrightarrow> sponsored B E r kid acc \<Longrightarrow> sponsored B E r' kid acc"
  using enrolled_grows unfolding grows_def sponsored_def by blast

lemma world_sent:
  "randomBytes n w = (b, w') \<Longrightarrow> wd_sent w' = wd_sent w"
  "randomSecret n w = (x, w') \<Longrightarrow> wd_sent w' = wd_sent w"
  "prune rl w = (rl', w') \<Longrightarrow> wd_sent w' = wd_sent w"
  "buildTxRequest B key body w = (q, w') \<Longrightarrow> wd_sent w' = wd_sent w"
  "ws_WriteJSON ws env w = (ok, w') \<Longrightarrow> wd_sent w' = wd_sent w @ (if ok then [(ws, env)] else [])"
  using build_world [of B key body w]
  by (auto simp: randomBytes_def randomSecret_def prune_def time_Now_def ws_WriteJSON_def Let_def
      split: prod.splits if_splits)

lemma error_sent:
  "\<exists>okay. wd_sent (writeWSError ws msg w) = wd_sent w @ (if okay then [(ws, (envelope TypeError)\<lparr>e_Error := msg\<rparr>)] else [])"
  unfolding writeWSError_def using world_sent(5) by (metis prod.collapse)

lemma step_grows:
  assumes "relay_step J S B E G r r'"
  shows "grows r r'"
  using assms
proof (cases rule: relay_step.cases)
  case (Hello ws env h nonce w1 ok w2 msg)
  then show ?thesis using world_sent(1) [OF Hello(6)] world_sent(5) [OF Hello(7)] error_sent [of ws msg w2]
    by (auto simp: grows_def)
next
  case (Refuse ws msg)
  then show ?thesis using error_sent [of ws msg "ry_world r"] by (auto simp: grows_def)
next
  case (Welcome ws a ok w)
  then show ?thesis using world_sent(5) [OF Welcome(3) [unfolded writeJSON_conn_def]] by (auto simp: grows_def)
next
  case (Reply ws a c reply ok w)
  then show ?thesis using world_sent(5) [OF Reply(3) [unfolded writeJSON_conn_def]] by (auto simp: grows_def)
next
  case (Admit t key ok rl w)
  then show ?thesis using rl_allow_world [OF Admit(3)] by (simp add: grows_def)
next
  case (AdmitPruned t key kl okay kl' w)
  then show ?thesis using kl_allow_world [OF AdmitPruned(3)] by (simp add: grows_def)
next
  case (Build t key raw body w)
  then show ?thesis using world_sent(4) [OF Build(4)] by (simp add: grows_def)
next
  case (Reject t key raw body e w)
  then show ?thesis using world_sent(4) [OF Reject(4)] by (simp add: grows_def)
next
  case (QAdmit t key ok rl w)
  then show ?thesis using rl_allow_world [OF QAdmit(3)] by (simp add: grows_def)
next
  case (QAdmitPruned t key kl okay kl' w)
  then show ?thesis using kl_allow_world [OF QAdmitPruned(3)] by (simp add: grows_def)
next
  case (QBuild t key op nonce secret w)
  then show ?thesis using world_sent(2) [OF QBuild(5)] by (simp add: grows_def)
next
  case (Prune rl w)
  then show ?thesis using world_sent(3) [OF Prune(2)] by (simp add: grows_def)
qed (auto simp: grows_def)

section \<open>Connections\<close>

text \<open>Every connection is where its evidence puts it, and only enrolled connections are ever bound.\<close>

fun link_ok :: "blake2b \<Rightarrow> ('e, 'p) edwards \<Rightarrow> 's relay \<Rightarrow> nat \<Rightarrow> link \<Rightarrow> bool" where
  "link_ok B E r ws (Challenged h nonce) \<longleftrightarrow> (ws, challenge_frame nonce) \<in> set (wd_sent (ry_world r))"
| "link_ok B E r ws (Bound a) \<longleftrightarrow> ac_ws a = ws \<and> enrolled B E r a"
| "link_ok B E r ws (Enrolled a) \<longleftrightarrow> ac_ws a = ws \<and> enrolled B E r a"
| "link_ok B E r ws (Handling a c) \<longleftrightarrow> ac_ws a = ws \<and> enrolled B E r a \<and> list_all utf8_valid (c_AllowedOrigins c)
     \<and> (\<exists>env. (ws, env) \<in> set (ry_heard r) \<and> e_Control env = Some c)"
| "link_ok B E r ws _ \<longleftrightarrow> True"

definition links_ok :: "blake2b \<Rightarrow> ('e, 'p) edwards \<Rightarrow> 's relay \<Rightarrow> bool" where
  "links_ok B E r \<longleftrightarrow> (\<forall>ws. link_ok B E r ws (ry_link r ws)) \<and> (\<forall>d\<in>cs_bound (ry_conc r). enrolled B E r d)"

lemma link_ok_grows: "grows r r' \<Longrightarrow> link_ok B E r ws l \<Longrightarrow> link_ok B E r' ws l"
  using enrolled_grows [of r r'] by (cases l) (auto simp: grows_def)

lemma links_okD:
  assumes "links_ok B E r"
  shows "ry_link r ws = Challenged h nonce \<Longrightarrow> (ws, challenge_frame nonce) \<in> set (wd_sent (ry_world r))"
    "ry_link r ws = Enrolled a \<Longrightarrow> ac_ws a = ws \<and> enrolled B E r a"
    "ry_link r ws = Handling a c \<Longrightarrow> ac_ws a = ws \<and> enrolled B E r a \<and> list_all utf8_valid (c_AllowedOrigins c)
       \<and> (\<exists>env. (ws, env) \<in> set (ry_heard r) \<and> e_Control env = Some c)"
    "ry_link r ws = Bound a \<Longrightarrow> ac_ws a = ws \<and> enrolled B E r a"
    "d \<in> cs_bound (ry_conc r) \<Longrightarrow> enrolled B E r d"
  using assms unfolding links_ok_def by (metis link_ok.simps)+

lemma links_update:
  assumes "links_ok B E r" "grows r r'"
    "\<And>ws. ry_link r' ws = ry_link r ws \<or> link_ok B E r' ws (ry_link r' ws)"
    "\<And>d. d \<in> cs_bound (ry_conc r') \<Longrightarrow> d \<in> cs_bound (ry_conc r) \<or> enrolled B E r' d"
  shows "links_ok B E r'"
proof -
  have "link_ok B E r' ws (ry_link r' ws)" for ws
    using assms(3) [of ws] link_ok_grows [OF assms(2)] assms(1) unfolding links_ok_def by metis
  moreover have "enrolled B E r' d" if "d \<in> cs_bound (ry_conc r')" for d
    using assms(4) [OF that] links_okD(5) [OF assms(1)] enrolled_grows [OF assms(2)] by blast
  ultimately show ?thesis unfolding links_ok_def by blast
qed

lemma links_step:
  assumes B: "blake2b_ok B" and step: "relay_step J S B E G r r'" and ok: "links_ok B E r"
  shows "links_ok B E r'"
proof -
  note g = step_grows [OF step]
  note eg = enrolled_grows [OF g]
  show ?thesis using step
  proof (cases rule: relay_step.cases)
    case (Hello ws env h nonce w1 okay w2 msg)
    have "okay \<Longrightarrow> (ws, challenge_frame nonce) \<in> set (wd_sent w2)" using world_sent(5) [OF Hello(7)] by simp
    then show ?thesis by (intro links_update [OF ok g]) (auto simp: Hello(1))
  next
    case (Prove ws h nonce env au proven a)
    have "ac_accounts a = filter (proves B E nonce (au_Signatures au)) (h_Accounts h)"
      using Prove(5,7) by (simp add: prove_loop_eq [OF B])
    then have "enrolled B E r' a" unfolding enrolled_def
      using links_okD(1) [OF ok Prove(2)] Prove(4,7) by (auto simp: Prove(1))
    then show ?thesis by (intro links_update [OF ok g]) (auto simp: Prove(1,7))
  next
    case (Welcome ws a okay w)
    have "ac_ws a = ws" "enrolled B E r' a" using links_okD(4) [OF ok Welcome(2)] eg by blast+
    then show ?thesis by (intro links_update [OF ok g]) (simp_all add: Welcome(1))
  next
    case (Control ws a env c)
    have "ac_ws a = ws" "enrolled B E r' a" using links_okD(2) [OF ok Control(2)] eg by blast+
    then show ?thesis by (intro links_update [OF ok g]) (use Control(4,5) in \<open>auto simp: Control(1)\<close>)
  next
    case (Reply ws a c reply okay w)
    have "ac_ws a = ws" "enrolled B E r' a" using links_okD(3) [OF ok Reply(2)] eg by blast+
    then show ?thesis by (intro links_update [OF ok g]) (simp_all add: Reply(1))
  qed (rule links_update [OF ok g]; auto)+
qed

lemma reach_links:
  assumes "blake2b_ok B" "relay_reach J S B E G store w r"
  shows "links_ok B E r"
  using assms(2)
proof (induction rule: relay_reach_induct)
  case init
  show ?case by (simp add: links_ok_def relay_init_def conc_init_def)
next
  case (step r r')
  then show ?case using links_step [OF assms(1)] by blast
qed

section \<open>Calls\<close>

fun key_of :: "call \<Rightarrow> APIKey option" where
  "key_of Idle = None"
| "key_of (Known key) = Some key"
| "key_of (Allowed key) = Some key"
| "key_of (Running key) = Some key"

text \<open>What the hub runs for a call is what was built for its key.\<close>

definition request_for :: "jobs \<Rightarrow> blake2b \<Rightarrow> nat \<Rightarrow> APIKey \<Rightarrow> bool" where
  "request_for J B t key \<longleftrightarrow> jb_account J t = k_OwnerAccount key
     \<and> (\<exists>body w. fst (buildTxRequest B key body w) = Inr (jb_request J t))"

definition query_for :: "jobs \<Rightarrow> nat \<Rightarrow> APIKey \<Rightarrow> bool" where
  "query_for J t key \<longleftrightarrow> jb_qaccount J t = k_OwnerAccount key
     \<and> (\<exists>op nonce. jb_query J t = key_query key op nonce) \<and> (\<exists>x. jb_qid J t = ''qry_'' @ x)"

definition calls_ok :: "jobs \<Rightarrow> blake2b \<Rightarrow> 's relay \<Rightarrow> bool" where
  "calls_ok J B r \<longleftrightarrow>
     (\<forall>t. cs_phase (ry_conc r) t \<noteq> Start \<longrightarrow> (\<exists>key. ry_call r t = Running key))
     \<and> (\<forall>t. cs_qphase (ry_conc r) t \<noteq> QStart \<longrightarrow> (\<exists>key. ry_qcall r t = Running key))
     \<and> (\<forall>t key. ry_call r t = Running key \<longrightarrow> request_for J B t key)
     \<and> (\<forall>t key. ry_qcall r t = Running key \<longrightarrow> query_for J t key)"

lemma calls_okD:
  assumes "calls_ok J B r"
  shows "cs_phase (ry_conc r) t \<noteq> Start \<Longrightarrow> \<exists>key. ry_call r t = Running key \<and> request_for J B t key"
    "cs_qphase (ry_conc r) t \<noteq> QStart \<Longrightarrow> \<exists>key. ry_qcall r t = Running key \<and> query_for J t key"
  using assms unfolding calls_ok_def by blast+

lemma calls_update:
  assumes "calls_ok J B r"
    "\<And>t. cs_phase (ry_conc r') t = cs_phase (ry_conc r) t \<or> (\<exists>key. ry_call r t = Running key)"
    "\<And>t. cs_qphase (ry_conc r') t = cs_qphase (ry_conc r) t \<or> (\<exists>key. ry_qcall r t = Running key)"
    "\<And>t. ry_call r' t = ry_call r t
       \<or> (\<forall>key. ry_call r t \<noteq> Running key) \<and> (\<forall>key. ry_call r' t = Running key \<longrightarrow> request_for J B t key)"
    "\<And>t. ry_qcall r' t = ry_qcall r t
       \<or> (\<forall>key. ry_qcall r t \<noteq> Running key) \<and> (\<forall>key. ry_qcall r' t = Running key \<longrightarrow> query_for J t key)"
  shows "calls_ok J B r'"
proof -
  have run: "\<exists>key. ry_call r' t = Running key" if "\<exists>key. ry_call r t = Running key" for t
    using assms(4) [of t] that by auto
  have qrun: "\<exists>key. ry_qcall r' t = Running key" if "\<exists>key. ry_qcall r t = Running key" for t
    using assms(5) [of t] that by auto
  have "\<exists>key. ry_call r' t = Running key" if "cs_phase (ry_conc r') t \<noteq> Start" for t
    using assms(2) [of t] that run assms(1) unfolding calls_ok_def by metis
  moreover have "\<exists>key. ry_qcall r' t = Running key" if "cs_qphase (ry_conc r') t \<noteq> QStart" for t
    using assms(3) [of t] that qrun assms(1) unfolding calls_ok_def by metis
  moreover have "request_for J B t key" if "ry_call r' t = Running key" for t key
    using assms(4) [of t] that assms(1) unfolding calls_ok_def by metis
  moreover have "query_for J t key" if "ry_qcall r' t = Running key" for t key
    using assms(5) [of t] that assms(1) unfolding calls_ok_def by metis
  ultimately show ?thesis unfolding calls_ok_def by blast
qed

lemma calls_step:
  assumes step: "relay_step J S B E G r r'" and ok: "calls_ok J B r"
  shows "calls_ok J B r'"
  using step
proof (cases rule: relay_step.cases)
  case (Build t key raw body w)
  have "request_for J B t key" unfolding request_for_def using Build(4,5) by (metis fst_conv)
  then show ?thesis by (intro calls_update [OF ok]) (use Build(2) in \<open>auto simp: Build(1)\<close>)
next
  case (QBuild t key op nonce secret w)
  have "query_for J t key" unfolding query_for_def using QBuild(3,4,6) by blast
  then show ?thesis by (intro calls_update [OF ok]) (use QBuild(2) in \<open>auto simp: QBuild(1)\<close>)
qed (rule calls_update [OF ok]; auto)+

lemma reach_calls: "relay_reach J S B E G store w r \<Longrightarrow> calls_ok J B r"
proof (induction rule: relay_reach_induct)
  case init
  show ?case by (simp add: calls_ok_def relay_init_def conc_init_def)
next
  case (step r r')
  then show ?case using calls_step by blast
qed

section \<open>Results\<close>

text \<open>
  Everything the hub delivers was sent by an enrolled connection; \<open>K\<close> is what a connection that names
  an identifier is known to have.
\<close>

definition told_ok :: "blake2b \<Rightarrow> ('e, 'p) edwards \<Rightarrow> ('s relay \<Rightarrow> nat \<Rightarrow> string \<Rightarrow> bool) \<Rightarrow> 's relay \<Rightarrow> bool" where
  "told_ok B E K r \<longleftrightarrow>
     (\<forall>res\<in>cs_reported (ry_conc r). \<exists>d env. enrolled B E r d \<and> (ac_ws d, env) \<in> set (ry_heard r)
        \<and> e_Result env = Some res \<and> K r (ac_ws d) (res_RequestID res))
     \<and> (\<forall>(qid, qr)\<in>cs_answered (ry_conc r). \<exists>d env. enrolled B E r d \<and> (ac_ws d, env) \<in> set (ry_heard r)
        \<and> e_ID env = qid \<and> e_QueryResult env = Some qr \<and> K r (ac_ws d) qid)"

lemma told_okD:
  assumes "told_ok B E K r"
  shows "res \<in> cs_reported (ry_conc r) \<Longrightarrow> \<exists>d env. enrolled B E r d \<and> (ac_ws d, env) \<in> set (ry_heard r)
      \<and> e_Result env = Some res \<and> K r (ac_ws d) (res_RequestID res)"
    "(qid, qr) \<in> cs_answered (ry_conc r) \<Longrightarrow> \<exists>d env. enrolled B E r d \<and> (ac_ws d, env) \<in> set (ry_heard r)
      \<and> e_ID env = qid \<and> e_QueryResult env = Some qr \<and> K r (ac_ws d) qid"
  using assms unfolding told_ok_def by blast+

lemma told_update:
  assumes ok: "told_ok B E K r" and g: "grows r r'" and K: "\<And>ws rid. K r ws rid \<Longrightarrow> K r' ws rid"
    and res: "\<And>res. res \<in> cs_reported (ry_conc r') \<Longrightarrow> res \<in> cs_reported (ry_conc r)
       \<or> (\<exists>d env. enrolled B E r' d \<and> (ac_ws d, env) \<in> set (ry_heard r') \<and> e_Result env = Some res
            \<and> K r' (ac_ws d) (res_RequestID res))"
    and ans: "\<And>qid qr. (qid, qr) \<in> cs_answered (ry_conc r') \<Longrightarrow> (qid, qr) \<in> cs_answered (ry_conc r)
       \<or> (\<exists>d env. enrolled B E r' d \<and> (ac_ws d, env) \<in> set (ry_heard r') \<and> e_ID env = qid
            \<and> e_QueryResult env = Some qr \<and> K r' (ac_ws d) qid)"
  shows "told_ok B E K r'"
proof -
  have h: "p \<in> set (ry_heard r) \<Longrightarrow> p \<in> set (ry_heard r')" for p using g unfolding grows_def by blast
  have "\<exists>d env. enrolled B E r' d \<and> (ac_ws d, env) \<in> set (ry_heard r') \<and> e_Result env = Some res
      \<and> K r' (ac_ws d) (res_RequestID res)" if "res \<in> cs_reported (ry_conc r')" for res
    using res [OF that] told_okD(1) [OF ok] K enrolled_grows [OF g] h by metis
  moreover have "\<exists>d env. enrolled B E r' d \<and> (ac_ws d, env) \<in> set (ry_heard r') \<and> e_ID env = qid
      \<and> e_QueryResult env = Some qr \<and> K r' (ac_ws d) qid" if "(qid, qr) \<in> cs_answered (ry_conc r')" for qid qr
    using ans [OF that] told_okD(2) [OF ok] K enrolled_grows [OF g] h by metis
  ultimately show ?thesis unfolding told_ok_def by blast
qed

lemma delivered_by:
  assumes "relay_step J S B E G r r'"
  shows "(\<exists>ws a env res. ry_link r ws = Enrolled a \<and> e_Result env = Some res \<and> G r ws (res_RequestID res)
        \<and> (ws, env) \<in> set (ry_heard r') \<and> cs_reported (ry_conc r') = insert res (cs_reported (ry_conc r))
        \<and> cs_answered (ry_conc r') = cs_answered (ry_conc r))
    \<or> (\<exists>ws a env qr. ry_link r ws = Enrolled a \<and> e_QueryResult env = Some qr \<and> G r ws (e_ID env)
        \<and> (ws, env) \<in> set (ry_heard r') \<and> cs_reported (ry_conc r') = cs_reported (ry_conc r)
        \<and> cs_answered (ry_conc r') = insert (e_ID env, qr) (cs_answered (ry_conc r)))
    \<or> cs_reported (ry_conc r') = cs_reported (ry_conc r) \<and> cs_answered (ry_conc r') = cs_answered (ry_conc r)"
  using assms
proof (cases rule: relay_step.cases)
  case (Result ws a env res ch)
  then show ?thesis by (intro disjI1 exI [of _ ws] exI [of _ a] exI [of _ env] exI [of _ res]) simp
next
  case (QueryResult ws a env qr ch)
  then show ?thesis
    by (intro disjI2 [OF disjI1] exI [of _ ws] exI [of _ a] exI [of _ env] exI [of _ qr]) simp
qed simp_all

lemma told_step:
  assumes step: "relay_step J S B E G r r'" and links: "links_ok B E r" and ok: "told_ok B E K r"
    and K: "\<And>ws rid. G r ws rid \<Longrightarrow> K r ws rid" "\<And>ws rid. K r ws rid \<Longrightarrow> K r' ws rid"
  shows "told_ok B E K r'"
proof -
  note g = step_grows [OF step]
  note upd = told_update [where K = K, OF ok g K(2)]
  from delivered_by [OF step] show ?thesis
  proof (elim disjE exE conjE)
    fix ws a env res
    assume l: "ry_link r ws = Enrolled a" "e_Result env = Some res" "G r ws (res_RequestID res)"
      "(ws, env) \<in> set (ry_heard r')" and c: "cs_reported (ry_conc r') = insert res (cs_reported (ry_conc r))"
      "cs_answered (ry_conc r') = cs_answered (ry_conc r)"
    have "ac_ws a = ws" "enrolled B E r' a" "K r' ws (res_RequestID res)"
      using links_okD(2) [OF links l(1)] enrolled_grows [OF g] K l(3) by blast+
    then show ?thesis using l(2,4) by (intro upd) (auto simp: c)
  next
    fix ws a env qr
    assume l: "ry_link r ws = Enrolled a" "e_QueryResult env = Some qr" "G r ws (e_ID env)"
      "(ws, env) \<in> set (ry_heard r')" and c: "cs_reported (ry_conc r') = cs_reported (ry_conc r)"
      "cs_answered (ry_conc r') = insert (e_ID env, qr) (cs_answered (ry_conc r))"
    have "ac_ws a = ws" "enrolled B E r' a" "K r' ws (e_ID env)"
      using links_okD(2) [OF links l(1)] enrolled_grows [OF g] K l(3) by blast+
    then show ?thesis using l(2,4) by (intro upd) (auto simp: c)
  qed (intro upd; simp)
qed

lemma reach_told:
  assumes B: "blake2b_ok B" and reach: "relay_reach J S B E G store w r"
    and K: "\<And>r ws rid. G r ws rid \<Longrightarrow> K r ws rid"
      "\<And>r r' ws rid. relay_step J S B E G r r' \<Longrightarrow> K r ws rid \<Longrightarrow> K r' ws rid"
  shows "told_ok B E K r"
  using reach
proof (induction rule: relay_reach_induct)
  case init
  show ?case by (simp add: told_ok_def relay_init_def conc_init_def)
next
  case (step r r')
  then show ?case using told_step [OF step(2) reach_links [OF B step(1)] step(3)] K by blast
qed

text \<open>The identifiers that a connection was sent.\<close>

definition names :: "'s relay \<Rightarrow> nat \<Rightarrow> string \<Rightarrow> bool" where
  "names r ws rid \<longleftrightarrow> (\<exists>env. (ws, env) \<in> set (cs_sent (ry_conc r)) \<and> e_ID env = rid)"

lemma conc_sent_mono: "conc_step J s s' \<Longrightarrow> set (cs_sent s) \<subseteq> set (cs_sent s')"
  by (elim conc_stepE) auto

lemma names_mono: "relay_step J S B E G r r' \<Longrightarrow> names r ws rid \<Longrightarrow> names r' ws rid"
  using relay_conc_step [of J S B E G r r'] conc_sent_mono [of J "ry_conc r" "ry_conc r'"]
  unfolding names_def by (metis subsetD)

section \<open>Challenges\<close>

text \<open>
  Every challenge is a stretch of 32 bytes of the random source, and the stretches of two
  connections do not overlap; \<open>pos\<close> is where a connection's stretch starts.
\<close>

definition draws_ok :: "entropy \<Rightarrow> 's relay \<Rightarrow> (nat \<Rightarrow> nat) \<Rightarrow> nat \<Rightarrow> bool" where
  "draws_ok e r pos k \<longleftrightarrow> wd_entropy (ry_world r) = sdrop k e
     \<and> (\<forall>ws n. (ws, challenge_frame n) \<in> set (wd_sent (ry_world r)) \<longrightarrow>
          n = stake 32 (sdrop (pos ws) e) \<and> pos ws + 32 \<le> k \<and> ry_link r ws \<noteq> Fresh)
     \<and> (\<forall>ws ws' n n'. (ws, challenge_frame n) \<in> set (wd_sent (ry_world r)) \<longrightarrow>
          (ws', challenge_frame n') \<in> set (wd_sent (ry_world r)) \<longrightarrow> ws \<noteq> ws' \<longrightarrow>
          pos ws + 32 \<le> pos ws' \<or> pos ws' + 32 \<le> pos ws)"

lemma other_frames [simp]:
  "challenge_frame n \<noteq> (envelope TypeError)\<lparr>e_Error := msg\<rparr>"
  "challenge_frame n \<noteq> (envelope TypeWelcome)\<lparr>e_Welcome := x\<rparr>"
  "challenge_frame n \<noteq> (envelope TypeControl)\<lparr>e_Control := y\<rparr>"
  "challenge_frame n = challenge_frame n' \<longleftrightarrow> n = n'"
  by (auto simp: challenge_frame_def zero_Envelope_def envelope_types dest!: arg_cong [where f = e_Type] arg_cong [where f = e_Challenge])

lemma draws_later:
  assumes "draws_ok e r pos k" "wd_entropy (ry_world r') = sdrop m (wd_entropy (ry_world r))"
    "\<And>ws n. (ws, challenge_frame n) \<in> set (wd_sent (ry_world r')) \<Longrightarrow> (ws, challenge_frame n) \<in> set (wd_sent (ry_world r))"
    "\<And>ws. ry_link r' ws = Fresh \<Longrightarrow> ry_link r ws = Fresh"
  shows "draws_ok e r' pos (k + m)"
proof -
  have "wd_entropy (ry_world r') = sdrop (k + m) e" using assms(1,2) by (simp add: draws_ok_def)
  moreover have "n = stake 32 (sdrop (pos ws) e) \<and> pos ws + 32 \<le> k + m \<and> ry_link r' ws \<noteq> Fresh"
    if "(ws, challenge_frame n) \<in> set (wd_sent (ry_world r'))" for ws n
    using assms(1) assms(3) [OF that] assms(4) [of ws] unfolding draws_ok_def by (metis trans_le_add1)
  ultimately show ?thesis using assms(1,3) unfolding draws_ok_def by blast
qed

lemma world_entropy:
  "randomBytes n w = (b, w') \<Longrightarrow> b = stake n (wd_entropy w) \<and> wd_entropy w' = sdrop n (wd_entropy w)"
  "randomSecret n w = (x, w') \<Longrightarrow> wd_entropy w' = sdrop n (wd_entropy w)"
  "prune rl w = (rl', w') \<Longrightarrow> wd_entropy w' = wd_entropy w"
  "buildTxRequest B key body w = (q, w') \<Longrightarrow> wd_entropy w' = sdrop 12 (wd_entropy w)"
  "ws_WriteJSON ws env w = (ok, w') \<Longrightarrow> wd_entropy w' = wd_entropy w"
  "wd_entropy (writeWSError ws msg w) = wd_entropy w"
  using build_world [of B key body w]
  by (auto simp: randomBytes_def randomSecret_def rand_Read_def prune_def time_Now_def ws_WriteJSON_def
      writeWSError_def Let_def split: prod.splits if_splits)

lemma draws_step:
  assumes step: "relay_step J S B E G r r'" and ok: "draws_ok e r pos k"
  shows "\<exists>pos' k'. draws_ok e r' pos' k'"
proof -
  have later: ?thesis if "wd_entropy (ry_world r') = sdrop m (wd_entropy (ry_world r))"
    "\<And>ws n. (ws, challenge_frame n) \<in> set (wd_sent (ry_world r')) \<Longrightarrow> (ws, challenge_frame n) \<in> set (wd_sent (ry_world r))"
    "\<And>ws. ry_link r' ws = Fresh \<Longrightarrow> ry_link r ws = Fresh" for m
    using draws_later [OF ok that] by blast
  show ?thesis using step
  proof (cases rule: relay_step.cases)
    case (Hello ws env h nonce w1 okay w2 msg)
    let ?w = "if okay then w2 else writeWSError ws msg w2"
    have k: "wd_entropy (ry_world r) = sdrop k e" using ok by (simp add: draws_ok_def)
    have n: "nonce = stake 32 (sdrop k e)" "wd_entropy ?w = sdrop (k + 32) e"
      using world_entropy(1) [OF Hello(6)] world_entropy(5) [OF Hello(7)] world_entropy(6) [of ws msg w2]
      by (simp_all add: k add.commute)
    have sent: "(v, challenge_frame x) \<in> set (wd_sent ?w) \<longleftrightarrow>
        (v, challenge_frame x) \<in> set (wd_sent (ry_world r)) \<or> okay \<and> v = ws \<and> x = nonce" for v x
      using world_sent(1) [OF Hello(6)] world_sent(5) [OF Hello(7)] error_sent [of ws msg w2]
      by (auto split: if_splits)
    have "(ws, challenge_frame x) \<notin> set (wd_sent (ry_world r))" for x using ok Hello(2) unfolding draws_ok_def by blast
    moreover have "x = stake 32 (sdrop (pos v) e) \<and> pos v + 32 \<le> k \<and> ry_link r v \<noteq> Fresh"
      if "(v, challenge_frame x) \<in> set (wd_sent (ry_world r))" for v x using ok that unfolding draws_ok_def by blast
    moreover have "pos v + 32 \<le> pos v' \<or> pos v' + 32 \<le> pos v"
      if "(v, challenge_frame x) \<in> set (wd_sent (ry_world r))" "(v', challenge_frame x') \<in> set (wd_sent (ry_world r))" "v \<noteq> v'"
      for v v' x x' using ok that unfolding draws_ok_def by blast
    ultimately have "draws_ok e r' (pos(ws := k)) (k + 32)"
      unfolding draws_ok_def Hello(1) by (auto simp: sent n split: if_splits) (fastforce+)?
    then show ?thesis by blast
  next
    case (Refuse ws msg)
    show ?thesis using error_sent [of ws msg "ry_world r"] world_entropy(6) [of ws msg "ry_world r"]
      by (intro later [of 0]) (auto simp: Refuse(1) split: if_splits)
  next
    case (Welcome ws a okay w)
    show ?thesis using world_sent(5) [OF Welcome(3) [unfolded writeJSON_conn_def]]
        world_entropy(5) [OF Welcome(3) [unfolded writeJSON_conn_def]]
      by (intro later [of 0]) (auto simp: Welcome(1) split: if_splits)
  next
    case (Reply ws a c reply okay w)
    show ?thesis using world_sent(5) [OF Reply(3) [unfolded writeJSON_conn_def]]
        world_entropy(5) [OF Reply(3) [unfolded writeJSON_conn_def]]
      by (intro later [of 0]) (auto simp: Reply(1) split: if_splits)
  next
    case (Admit t key okay rl w)
    show ?thesis using rl_allow_world [OF Admit(3)] by (intro later [of 0]) (auto simp: Admit(1))
  next
    case (AdmitPruned t key kl okay kl' w)
    show ?thesis using kl_allow_world [OF AdmitPruned(3)] by (intro later [of 0]) (auto simp: AdmitPruned(1))
  next
    case (Build t key raw body w)
    show ?thesis using world_sent(4) [OF Build(4)] world_entropy(4) [OF Build(4)]
      by (intro later [of 12]) (auto simp: Build(1))
  next
    case (Reject t key raw body e' w)
    show ?thesis using world_sent(4) [OF Reject(4)] world_entropy(4) [OF Reject(4)]
      by (intro later [of 12]) (auto simp: Reject(1))
  next
    case (QAdmit t key okay rl w)
    show ?thesis using rl_allow_world [OF QAdmit(3)] by (intro later [of 0]) (auto simp: QAdmit(1))
  next
    case (QAdmitPruned t key kl okay kl' w)
    show ?thesis using kl_allow_world [OF QAdmitPruned(3)] by (intro later [of 0]) (auto simp: QAdmitPruned(1))
  next
    case (QBuild t key op nonce secret w)
    show ?thesis using world_sent(2) [OF QBuild(5)] world_entropy(2) [OF QBuild(5)]
      by (intro later [of 12]) (auto simp: QBuild(1))
  next
    case (Prune rl w)
    show ?thesis using world_sent(3) [OF Prune(2)] world_entropy(3) [OF Prune(2)]
      by (intro later [of 0]) (auto simp: Prune(1))
  qed (rule later [of 0]; auto split: if_splits)+
qed

lemma reach_draws:
  assumes "relay_reach J S B E G store w r" "wd_sent w = []"
  shows "\<exists>pos k. draws_ok (wd_entropy w) r pos k"
  using assms(1)
proof (induction rule: relay_reach_induct)
  case init
  show ?case using assms(2) by (intro exI [of _ "\<lambda>_. 0"] exI [of _ 0]) (simp add: draws_ok_def relay_init_def)
next
  case (step r r')
  then show ?case using draws_step by blast
qed

section \<open>Frames\<close>

text \<open>
  A well-typed frame of the relay: the protocol version, one of the types the relay sends, no payload
  but that of the type, the payload there for every type but withdrawals and errors, and a correlation
  id exactly on the frames that belong to a call.
\<close>

definition frame_ok :: "Envelope \<Rightarrow> bool" where
  "frame_ok env \<longleftrightarrow> e_Version env = ProtocolVersion
     \<and> e_Type env \<in> {TypeChallenge, TypeWelcome, TypeRequest, TypeWithdraw, TypeControl, TypeQuery, TypeError}
     \<and> (e_Challenge env \<noteq> None \<longleftrightarrow> e_Type env = TypeChallenge) \<and> (e_Welcome env \<noteq> None \<longleftrightarrow> e_Type env = TypeWelcome)
     \<and> (e_Request env \<noteq> None \<longleftrightarrow> e_Type env = TypeRequest) \<and> (e_Control env \<noteq> None \<longleftrightarrow> e_Type env = TypeControl)
     \<and> (e_Query env \<noteq> None \<longleftrightarrow> e_Type env = TypeQuery) \<and> (e_Error env \<noteq> [] \<longrightarrow> e_Type env = TypeError)
     \<and> e_Hello env = None \<and> e_Auth env = None \<and> e_Result env = None \<and> e_QueryResult env = None
     \<and> (e_ID env \<noteq> [] \<longleftrightarrow> e_Type env \<in> {TypeRequest, TypeWithdraw, TypeQuery})
     \<and> (\<forall>req. e_Request env = Some req \<longrightarrow> tr_ID req = e_ID env)"

lemma frame_ok_simps [simp]:
  "frame_ok (challenge_frame n)" "frame_ok ((envelope TypeWelcome)\<lparr>e_Welcome := Some x\<rparr>)"
  "frame_ok ((envelope TypeControl)\<lparr>e_Control := Some y\<rparr>)" "frame_ok ((envelope TypeError)\<lparr>e_Error := msg\<rparr>)"
  "frame_ok (request_frame req) \<longleftrightarrow> tr_ID req \<noteq> []" "frame_ok (withdraw_frame rid) \<longleftrightarrow> rid \<noteq> []"
  "frame_ok (query_frame qid q) \<longleftrightarrow> qid \<noteq> []"
  by (auto simp: frame_ok_def challenge_frame_def request_frame_def withdraw_frame_def query_frame_def
      zero_Envelope_def envelope_types)

definition all_frames_ok :: "(nat \<times> Envelope) list \<Rightarrow> bool" where
  "all_frames_ok fs \<longleftrightarrow> (\<forall>(ws, env)\<in>set fs. frame_ok env)"

lemma all_frames_simps [simp]:
  "all_frames_ok []" "all_frames_ok (fs @ gs) \<longleftrightarrow> all_frames_ok fs \<and> all_frames_ok gs"
  "all_frames_ok ((ws, env) # fs) \<longleftrightarrow> frame_ok env \<and> all_frames_ok fs"
  by (auto simp: all_frames_ok_def)

lemma frames_step:
  assumes "relay_step J S B E G r r'" and ok: "all_frames_ok (wd_sent (ry_world r))"
  shows "all_frames_ok (wd_sent (ry_world r'))"
  using assms(1)
proof (cases rule: relay_step.cases)
  case (Hello ws env h nonce w1 okay w2 msg)
  then show ?thesis
    using world_sent(1) [OF Hello(6)] world_sent(5) [OF Hello(7)] error_sent [of ws msg w2] ok by auto
next
  case (Refuse ws msg)
  then show ?thesis using error_sent [of ws msg "ry_world r"] ok by auto
next
  case (Welcome ws a okay w)
  then show ?thesis using world_sent(5) [OF Welcome(3) [unfolded writeJSON_conn_def]] ok by simp
next
  case (Reply ws a c reply okay w)
  then show ?thesis using world_sent(5) [OF Reply(3) [unfolded writeJSON_conn_def]] ok by simp
next
  case (Admit t key okay rl w)
  then show ?thesis using rl_allow_world [OF Admit(3)] ok by simp
next
  case (AdmitPruned t key kl okay kl' w)
  then show ?thesis using kl_allow_world [OF AdmitPruned(3)] ok by simp
next
  case (Build t key raw body w)
  then show ?thesis using world_sent(4) [OF Build(4)] ok by simp
next
  case (Reject t key raw body e w)
  then show ?thesis using world_sent(4) [OF Reject(4)] ok by simp
next
  case (QAdmit t key okay rl w)
  then show ?thesis using rl_allow_world [OF QAdmit(3)] ok by simp
next
  case (QAdmitPruned t key kl okay kl' w)
  then show ?thesis using kl_allow_world [OF QAdmitPruned(3)] ok by simp
next
  case (QBuild t key op nonce secret w)
  then show ?thesis using world_sent(2) [OF QBuild(5)] ok by simp
next
  case (Prune rl w)
  then show ?thesis using world_sent(3) [OF Prune(2)] ok by simp
qed (use ok in simp_all)

lemma reach_frames:
  assumes "relay_reach J S B E G store w r" "wd_sent w = []"
  shows "all_frames_ok (wd_sent (ry_world r))"
  using assms(1)
proof (induction rule: relay_reach_induct)
  case init
  show ?case using assms(2) by (simp add: relay_init_def)
next
  case (step r r')
  then show ?case using frames_step by blast
qed

text \<open>The frames that the hub's threads write belong to a call with a key.\<close>

lemma request_for_fields:
  assumes "blake2b_ok B" "request_for J B t key"
  shows "jb_account J t = k_OwnerAccount key \<and> tr_ContactID (jb_request J t) = k_ID key
    \<and> tr_Account (jb_request J t) = k_OwnerAccount key \<and> tr_Kind (jb_request J t) = KindSend
    \<and> (\<exists>pub. ParseAddress B (tr_Destination (jb_request J t)) = Inr pub)
    \<and> (\<exists>x. request_id J t = ''req_'' @ x)"
  using assms(2) unfolding request_for_def build_accepts [OF assms(1)]
  by (auto simp: tx_request_def request_id_def Let_def)

definition call_frame :: "jobs \<Rightarrow> 's relay \<Rightarrow> APIKey \<Rightarrow> Envelope \<Rightarrow> bool" where
  "call_frame J r key env \<longleftrightarrow>
     (\<exists>t. ry_call r t = Running key \<and> tr_ContactID (jb_request J t) = k_ID key
        \<and> tr_Account (jb_request J t) = k_OwnerAccount key \<and> tr_Kind (jb_request J t) = KindSend
        \<and> (env = request_frame (jb_request J t) \<or> env = withdraw_frame (request_id J t)))
     \<or> (\<exists>t op nonce. ry_qcall r t = Running key \<and> env = query_frame (jb_qid J t) (key_query key op nonce))"

lemma request_call_frame:
  assumes B: "blake2b_ok B" and calls: "calls_ok J B r" and t: "cs_phase (ry_conc r) t \<noteq> Start"
    and env: "env = request_frame (jb_request J t) \<or> env = withdraw_frame (request_id J t)"
  shows "frame_ok env \<and> (\<exists>key. jb_account J t = k_OwnerAccount key \<and> call_frame J r key env)"
proof -
  obtain key where key: "ry_call r t = Running key" "request_for J B t key"
    using calls_okD(1) [OF calls t] by blast
  note f = request_for_fields [OF B key(2)]
  have "tr_ID (jb_request J t) \<noteq> []" using f by (auto simp: request_id_def)
  then have "frame_ok env" using env by (auto simp: request_id_def)
  moreover have "call_frame J r key env" unfolding call_frame_def using key(1) f env by blast
  ultimately show ?thesis using f by blast
qed

lemma query_call_frame:
  assumes calls: "calls_ok J B r" and t: "cs_qphase (ry_conc r) t \<noteq> QStart"
  shows "frame_ok (query_frame (jb_qid J t) (jb_query J t))
    \<and> (\<exists>key. jb_qaccount J t = k_OwnerAccount key \<and> call_frame J r key (query_frame (jb_qid J t) (jb_query J t)))"
proof -
  obtain key where key: "ry_qcall r t = Running key" "query_for J t key"
    using calls_okD(2) [OF calls t] by blast
  then obtain op nonce where q: "jb_query J t = key_query key op nonce" "jb_qaccount J t = k_OwnerAccount key"
    "jb_qid J t \<noteq> []" unfolding query_for_def by auto
  then have "call_frame J r key (query_frame (jb_qid J t) (jb_query J t))"
    unfolding call_frame_def using key(1) by metis
  then show ?thesis using q by auto
qed

lemma job_call_frame:
  assumes B: "blake2b_ok B" and calls: "calls_ok J B r" and job: "job_frame J (ry_conc r) acc env"
  shows "frame_ok env \<and> (\<exists>key. acc = k_OwnerAccount key \<and> call_frame J r key env)"
  using job request_call_frame [OF B calls] query_call_frame [OF calls] unfolding job_frame_def by blast

section \<open>Keys\<close>

lemma call_frame_key:
  "call_frame J r key env \<Longrightarrow> \<exists>t. key_of (ry_call r t) = Some key \<or> key_of (ry_qcall r t) = Some key"
  unfolding call_frame_def by (metis key_of.simps(4))

lemma job_frame_cases [consumes 1, case_names request query]:
  assumes "job_frame J s acc env"
  obtains t where "cs_phase s t \<noteq> Start" "acc = jb_account J t" "e_ID env = request_id J t"
  | t where "cs_qphase s t \<noteq> QStart" "acc = jb_qaccount J t" "e_ID env = jb_qid J t"
proof -
  have "e_ID (request_frame (jb_request J t)) = request_id J t" "e_ID (withdraw_frame (request_id J t)) = request_id J t"
    "e_ID (query_frame (jb_qid J t) (jb_query J t)) = jb_qid J t" for t
    by (simp_all add: request_frame_def withdraw_frame_def query_frame_def request_id_def)
  then show ?thesis using assms that unfolding job_frame_def by metis
qed

text \<open>A connection that was sent a request's identifier proved the account of the request.\<close>

lemma named_request:
  assumes B: "blake2b_ok B" and reach: "relay_reach J S B E G store w r" and ids: "distinct_ids J"
    and t: "cs_phase (ry_conc r) t \<noteq> Start" and n: "names r ws (request_id J t)"
  shows "\<exists>d. enrolled B E r d \<and> ac_ws d = ws \<and> jb_account J t \<in> set (ac_accounts d)"
proof -
  obtain env where env: "(ws, env) \<in> set (cs_sent (ry_conc r))" "e_ID env = request_id J t"
    using n unfolding names_def by blast
  obtain acc d where d: "proved_by (ry_conc r) acc d" "ws = ac_ws d" "job_frame J (ry_conc r) acc env"
    using routingD(3) [OF reach_routing [OF relay_conc_reach [OF reach]] env(1)] by blast
  obtain x where x: "request_id J t = ''req_'' @ x"
    using calls_okD(1) [OF reach_calls [OF reach] t] request_for_fields [OF B] by blast
  have "acc = jb_account J t" using d(3)
  proof (cases rule: job_frame_cases)
    case (request t')
    then have "request_id J t' = request_id J t" using env(2) by simp
    then show ?thesis using ids request(2) unfolding distinct_ids_def inj_def by blast
  next
    case (query t')
    then obtain y where "jb_qid J t' = ''qry_'' @ y"
      using calls_okD(2) [OF reach_calls [OF reach]] unfolding query_for_def by blast
    then show ?thesis using query(3) env(2) x by simp
  qed
  then show ?thesis using d links_okD(5) [OF reach_links [OF B reach]] unfolding proved_by_def by blast
qed

lemma named_query:
  assumes B: "blake2b_ok B" and reach: "relay_reach J S B E G store w r" and ids: "distinct_ids J"
    and t: "cs_qphase (ry_conc r) t \<noteq> QStart" and n: "names r ws (jb_qid J t)"
  shows "\<exists>d. enrolled B E r d \<and> ac_ws d = ws \<and> jb_qaccount J t \<in> set (ac_accounts d)"
proof -
  obtain env where env: "(ws, env) \<in> set (cs_sent (ry_conc r))" "e_ID env = jb_qid J t"
    using n unfolding names_def by blast
  obtain acc d where d: "proved_by (ry_conc r) acc d" "ws = ac_ws d" "job_frame J (ry_conc r) acc env"
    using routingD(3) [OF reach_routing [OF relay_conc_reach [OF reach]] env(1)] by blast
  obtain x where x: "jb_qid J t = ''qry_'' @ x"
    using calls_okD(2) [OF reach_calls [OF reach] t] unfolding query_for_def by blast
  have "acc = jb_qaccount J t" using d(3)
  proof (cases rule: job_frame_cases)
    case (request t')
    then obtain y where "request_id J t' = ''req_'' @ y"
      using calls_okD(1) [OF reach_calls [OF reach]] request_for_fields [OF B] by blast
    then show ?thesis using request(3) env(2) x by simp
  next
    case (query t')
    then have "jb_qid J t' = jb_qid J t" using env(2) by simp
    then show ?thesis using ids query(2) unfolding distinct_ids_def inj_def by blast
  qed
  then show ?thesis using d links_okD(5) [OF reach_links [OF B reach]] unfolding proved_by_def by blast
qed

definition backed :: "blake2b \<Rightarrow> ('e, 'p) edwards \<Rightarrow> abs_store \<Rightarrow> 's relay \<Rightarrow> APIKey \<Rightarrow> bool" where
  "backed B E v r key \<longleftrightarrow> sponsored B E r (k_ID key) (k_OwnerAccount key) \<or> owned v (k_ID key) (k_OwnerAccount key)"

lemma backed_grows: "grows r r' \<Longrightarrow> backed B E v r key \<Longrightarrow> backed B E v r' key"
  using sponsored_grows unfolding backed_def by blast

text \<open>\<open>v\<close> is what the store holds at the start.\<close>

definition keys_backed :: "blake2b \<Rightarrow> ('e, 'p) edwards \<Rightarrow> abs_store \<Rightarrow> abs_store \<Rightarrow> 's relay \<Rightarrow> bool" where
  "keys_backed B E v u r \<longleftrightarrow> (\<forall>kid k. a_keys u kid = Some k \<longrightarrow> backed B E v r k)
     \<and> (\<forall>t key. key_of (ry_call r t) = Some key \<longrightarrow> backed B E v r key)
     \<and> (\<forall>t key. key_of (ry_qcall r t) = Some key \<longrightarrow> backed B E v r key)"

lemma backed_update:
  assumes "keys_backed B E v u r" "grows r r'"
    "\<And>kid k. a_keys u' kid = Some k \<Longrightarrow> a_keys u kid = Some k \<or> backed B E v r' k"
    "\<And>t key. key_of (ry_call r' t) = Some key \<Longrightarrow> key_of (ry_call r t) = Some key \<or> (\<exists>kid. a_keys u kid = Some key)"
    "\<And>t key. key_of (ry_qcall r' t) = Some key \<Longrightarrow> key_of (ry_qcall r t) = Some key \<or> (\<exists>kid. a_keys u kid = Some key)"
  shows "keys_backed B E v u' r'"
proof -
  note up = backed_grows [OF assms(2)]
  have "backed B E v r' k" if "a_keys u' kid = Some k" for kid k
    using assms(3) [OF that] assms(1) up unfolding keys_backed_def by blast
  moreover have "backed B E v r' key" if "key_of (ry_call r' t) = Some key" for t key
    using assms(4) [OF that] assms(1) up unfolding keys_backed_def by blast
  moreover have "backed B E v r' key" if "key_of (ry_qcall r' t) = Some key" for t key
    using assms(5) [OF that] assms(1) up unfolding keys_backed_def by blast
  ultimately show ?thesis unfolding keys_backed_def by blast
qed

text \<open>
  A policy that a connection put for one of its own accounts; and the policies of a store \<open>u\<close> that was
  \<open>v\<close> at the start.
\<close>

definition policy_from :: "blake2b \<Rightarrow> ('e, 'p) edwards \<Rightarrow> 's relay \<Rightarrow> string \<Rightarrow> int \<times> blob \<Rightarrow> bool" where
  "policy_from B E r acc p \<longleftrightarrow> (\<exists>d env c. enrolled B E r d \<and> (ac_ws d, env) \<in> set (ry_heard r)
     \<and> e_Control env = Some c \<and> put_by (ac_accounts d) c acc p)"

definition policies_ok :: "blake2b \<Rightarrow> ('e, 'p) edwards \<Rightarrow> abs_store \<Rightarrow> abs_store \<Rightarrow> 's relay \<Rightarrow> bool" where
  "policies_ok B E v u r \<longleftrightarrow>
     (\<forall>acc p. a_policy u acc = Some p \<longrightarrow> a_policy v acc = Some p \<or> policy_from B E r acc p)
     \<and> (\<forall>acc ver b. a_policy v acc = Some (ver, b) \<longrightarrow> (\<exists>ver' b'. a_policy u acc = Some (ver', b') \<and> ver \<le> ver'))"

lemma policies_update:
  assumes ok: "policies_ok B E v u r" and g: "grows r r'"
    and new: "\<And>acc p. a_policy u' acc = Some p \<Longrightarrow> a_policy u acc = Some p \<or> policy_from B E r' acc p"
    and up: "\<And>acc ver b. a_policy u acc = Some (ver, b) \<Longrightarrow> \<exists>ver' b'. a_policy u' acc = Some (ver', b') \<and> ver \<le> ver'"
  shows "policies_ok B E v u' r'"
proof -
  have grow: "policy_from B E r' acc p" if "policy_from B E r acc p" for acc p
    using that enrolled_grows [OF g] g unfolding policy_from_def grows_def by blast
  have "a_policy v acc = Some p \<or> policy_from B E r' acc p" if "a_policy u' acc = Some p" for acc p
    using new [OF that] ok grow unfolding policies_ok_def by blast
  moreover have "\<exists>ver' b'. a_policy u' acc = Some (ver', b') \<and> ver \<le> ver'" if v: "a_policy v acc = Some (ver, b)" for acc ver b
  proof -
    obtain ver1 b1 where "a_policy u acc = Some (ver1, b1)" "ver \<le> ver1"
      using ok v unfolding policies_ok_def by blast
    then show ?thesis using up [of acc ver1 b1] by (meson order_trans)
  qed
  ultimately show ?thesis unfolding policies_ok_def by blast
qed

context store_contract
begin

lemma authKey_effect:
  assumes s: "inv s" and run: "authKey S rq s = ((key, okay), s')"
  shows "inv s' \<and> view s' = view s \<and> (okay \<longrightarrow> (\<exists>kid. a_keys (view s) kid = Some key))"
proof -
  let ?p = "TrimSpace (TrimPrefix (rq_Header rq ''Authorization'') ''Bearer '')"
  obtain q s1 where q: "ResolveAPIKey S s ?p = (q, s1)" by fastforce
  note c = resolve [OF s q]
  have "s' = s \<and> \<not> okay \<or> s' = s1 \<and> (okay \<longrightarrow> q = Inr key)"
    using run q by (auto simp: authKey_def Let_def split: if_splits sum.splits)
  moreover have "\<exists>kid. a_keys (view s) kid = Some key" if "q = Inr key"
    using c that by (auto simp: abs_resolve_def split: option.splits)
  ultimately show ?thesis using s c by auto
qed

lemma store_step:
  assumes utf8: "\<And>x. utf8_valid x \<Longrightarrow> text_ok x" and step: "relay_step J S B E G r r'"
    and links: "links_ok B E r" and s: "inv (ry_store r)" and b: "keys_backed B E v (view (ry_store r)) r"
  shows "inv (ry_store r') \<and> keys_backed B E v (view (ry_store r')) r'"
proof -
  note g = step_grows [OF step]
  note upd = backed_update [OF b g]
  show ?thesis using step
  proof (cases rule: relay_step.cases)
    case (StoreCall ws a c cmd ans st)
    note l = links_okD(3) [OF links StoreCall(2)]
    then have "list_all text_ok (c_AllowedOrigins c)" using utf8 by (auto simp: list_all_iff)
    note eff = permitted_effect [OF s StoreCall(3) this StoreCall(4)]
    have "a_keys (view (ry_store r)) kid = Some k \<or> backed B E v r' k" if k: "a_keys (view st) kid = Some k" for kid k
    proof -
      have "abs_inv (view st)" "abs_inv (view (ry_store r))" using eff view_inv s by blast+
      then have kid: "k_ID k = kid" using k unfolding abs_inv_def by blast
      consider "owned (view (ry_store r)) kid (k_OwnerAccount k)" | "bound_by (ac_accounts a) c kid (k_OwnerAccount k)"
        using eff k unfolding call_effect_def by blast
      then have "backed B E v r' k"
      proof cases
        case 1
        then obtain k' where k': "a_keys (view (ry_store r)) kid = Some k'" "k_OwnerAccount k' = k_OwnerAccount k"
          unfolding owned_def by blast
        then have "k_ID k' = kid" using \<open>abs_inv (view (ry_store r))\<close> unfolding abs_inv_def by blast
        then have "backed B E v r' k \<longleftrightarrow> backed B E v r' k'" using k'(2) kid by (simp add: backed_def)
        then show ?thesis using b k'(1) backed_grows [OF g] unfolding keys_backed_def by blast
      next
        case 2
        then have "sponsored B E r kid (k_OwnerAccount k)" using l unfolding sponsored_def by blast
        then show ?thesis using sponsored_grows [OF g] kid unfolding backed_def by blast
      qed
      then show ?thesis ..
    qed
    then have "keys_backed B E v (view (ry_store r')) r'"
      by (intro upd) (auto simp: StoreCall(1))
    then show ?thesis using eff by (simp add: StoreCall(1))
  next
    case (Key t rq key okay st)
    note eff = authKey_effect [OF s Key(3)]
    then have "keys_backed B E v (view (ry_store r')) r'"
      by (intro upd) (auto simp: Key(1) split: if_splits)
    then show ?thesis using eff by (simp add: Key(1))
  next
    case (QKey t rq key okay st)
    note eff = authKey_effect [OF s QKey(3)]
    then have "keys_backed B E v (view (ry_store r')) r'"
      by (intro upd) (auto simp: QKey(1) split: if_splits)
    then show ?thesis using eff by (simp add: QKey(1))
  next
    case (Preflight org ans st)
    obtain allow e where "ans = (allow, e)" by fastforce
    then have "inv st \<and> view st = view (ry_store r)" using allowed [OF s] Preflight(2) by blast
    moreover from this have "keys_backed B E v (view (ry_store r')) r'"
      by (intro upd) (auto simp: Preflight(1))
    ultimately show ?thesis by (simp add: Preflight(1))
  qed (rule conjI [OF _ upd]; use s in \<open>auto split: if_splits\<close>)+
qed

lemma policies_step:
  assumes utf8: "\<And>x. utf8_valid x \<Longrightarrow> text_ok x" and step: "relay_step J S B E G r r'"
    and links: "links_ok B E r" and s: "inv (ry_store r)" and ok: "policies_ok B E v (view (ry_store r)) r"
  shows "policies_ok B E v (view (ry_store r')) r'"
proof -
  note g = step_grows [OF step]
  note upd = policies_update [OF ok g]
  show ?thesis using step
  proof (cases rule: relay_step.cases)
    case (StoreCall ws a c cmd ans st)
    note l = links_okD(3) [OF links StoreCall(2)]
    then have "list_all text_ok (c_AllowedOrigins c)" using utf8 by (auto simp: list_all_iff)
    note eff = permitted_effect [OF s StoreCall(3) this StoreCall(4)]
    have "policy_from B E r' acc p" if "put_by (ac_accounts a) c acc p" for acc p
      using l that g enrolled_grows [OF g] unfolding policy_from_def grows_def by blast
    then have "a_policy (view (ry_store r)) acc = Some p \<or> policy_from B E r' acc p"
      if "a_policy (view st) acc = Some p" for acc p using eff that unfolding call_effect_def by blast
    moreover have "\<exists>ver' b'. a_policy (view st) acc = Some (ver', b') \<and> ver \<le> ver'"
      if "a_policy (view (ry_store r)) acc = Some (ver, b)" for acc ver b
      using eff that unfolding call_effect_def by blast
    ultimately show ?thesis by (intro upd) (simp_all add: StoreCall(1))
  next
    case (Key t rq key okay st)
    then show ?thesis using authKey_effect [OF s Key(3)] by (intro upd) (auto simp: Key(1))
  next
    case (QKey t rq key okay st)
    then show ?thesis using authKey_effect [OF s QKey(3)] by (intro upd) (auto simp: QKey(1))
  next
    case (Preflight org ans st)
    obtain allow e where "ans = (allow, e)" by fastforce
    then have "view st = view (ry_store r)" using allowed [OF s] Preflight(2) by blast
    then show ?thesis by (intro upd) (auto simp: Preflight(1))
  qed (rule upd; auto)+
qed

lemma reach_backed:
  assumes utf8: "\<And>x. utf8_valid x \<Longrightarrow> text_ok x" and B: "blake2b_ok B" and store: "inv store"
    and reach: "relay_reach J S B E G store w r"
  shows "inv (ry_store r) \<and> keys_backed B E (view store) (view (ry_store r)) r"
  using reach
proof (induction rule: relay_reach_induct)
  case init
  have "k_ID k = kid" if "a_keys (view store) kid = Some k" for kid k
    using view_inv [OF store] that unfolding abs_inv_def by blast
  then show ?case using store by (auto simp: relay_init_def keys_backed_def backed_def owned_def)
next
  case (step r r')
  then show ?case using store_step [OF utf8 step(2) reach_links [OF B step(1)]] by blast
qed

lemma reach_policies:
  assumes utf8: "\<And>x. utf8_valid x \<Longrightarrow> text_ok x" and B: "blake2b_ok B" and store: "inv store"
    and reach: "relay_reach J S B E G store w r"
  shows "inv (ry_store r) \<and> policies_ok B E (view store) (view (ry_store r)) r"
  using reach
proof (induction rule: relay_reach_induct)
  case init
  show ?case using store by (simp add: relay_init_def policies_ok_def)
next
  case (step r r')
  note links = reach_links [OF B step(1)]
  have "inv (ry_store r')"
    using reach_backed [OF utf8 B store relay_go [OF step(1,2)]] by blast
  then show ?case using policies_step [OF utf8 step(2) links] step(3) by blast
qed

end

end
