(* ===== verification/Relay_Guarantees.thy ===== *)
theory Relay_Guarantees
  imports Relay_Props Hub_Concurrent_Props
begin

text \<open>
  The properties of the whole relay over the SQLite store, and a run of it from an empty server to a
  returned result, in which they can be seen at work.
\<close>

section \<open>A run of the relay\<close>

text \<open>
  Connection 4 enrols with one account, whose address the key \<open>k1\<close> belongs to; a caller with that
  key's secret asks for a send, the device gets the request and reports a result, and the call returns.
\<close>

definition home_keys :: "PrivateKey list" where
  "home_keys = [replicate 32 7]"

definition home_acc :: string where
  "home_acc = key_address pad_hash toy (replicate 32 7)"

definition home_key :: APIKey where
  "home_key = \<lparr>k_ID = ''k1'', k_OwnerAccount = home_acc, k_AllowedOrigins = []\<rparr>"

definition sql_home :: sqliteStore where
  "sql_home = \<lparr>db_api_keys = [\<lparr>ar_id = ''k1'', ar_owner_account = home_acc,
       ar_key_hash = hashSecret ''old'', ar_allowed_origins = ''[]''\<rparr>],
     db_policy_blobs = [], db_faults = sconst None, db_unique_msg = ''UNIQUE'', db_notnull_msg = ''NOT NULL''\<rparr>"

definition home_request :: TxRequest where
  "home_request = tx_request home_key sample_body ''1'' world1"

definition home_jobs :: jobs where
  "home_jobs = \<lparr>jb_account = (\<lambda>_. home_acc),
     jb_request = (\<lambda>t. home_request\<lparr>tr_ID := tr_ID home_request @ replicate t CHR ''a''\<rparr>),
     jb_qaccount = (\<lambda>_. home_acc), jb_qid = (\<lambda>t. ''qry_'' @ replicate t CHR ''a''),
     jb_query = (\<lambda>_. key_query home_key ''balance'' [])\<rparr>"

definition home_dev :: agentConn where
  "home_dev = \<lparr>ac_deviceID = ''d'', ac_accounts = [home_acc], ac_ws = 4\<rparr>"

definition home_hub :: Hub where
  "home_hub = Hub.bind home_dev newHub"

lemma home_jobs_sel [simp]:
  "jb_account home_jobs t = home_acc" "jb_request home_jobs 0 = home_request"
  "request_id home_jobs 0 = tr_ID home_request"
  by (simp_all add: home_jobs_def request_id_def)

lemma home_key_sel [simp]: "k_ID home_key = ''k1''" "k_OwnerAccount home_key = home_acc"
  by (simp_all add: home_key_def)

lemma home_ids: "distinct_ids home_jobs"
  by (simp add: distinct_ids_def inj_def request_id_def home_jobs_def replicate_eq_replicate)

lemma home_inv: "sql_inv sql_home" "sql_up sql_home"
  by (auto simp: sql_inv_def sql_home_def sql_up_def decodeOrigins_def)

lemma home_owned: "owned (sql_view sql_home) ''k1'' home_acc"
  by (simp add: owned_def sql_view_def sql_home_def row_key_def)

lemma home_hub_sel [simp]: "hb_next home_hub = 0" "ac_ws home_dev = 4"
  "devicesForAccount home_hub home_acc = [home_dev]"
proof -
  have "bound_to newHub home_acc = []" by (simp add: bound_to_def newHub_def)
  then show "devicesForAccount home_hub home_acc = [home_dev]"
    by (simp add: home_hub_def devices_rev bind_bound) (simp add: home_dev_def)
qed (simp_all add: home_hub_def newHub_def home_dev_def)

lemma home_auth: "\<exists>st. authKey sqlite_store sample_request sql_home = ((home_key, True), st)"
proof -
  have h: "rq_Header sample_request ''Authorization'' = ''Bearer '' @ ''old''" by (simp add: sample_request_def)
  have t: "TrimPrefix (''Bearer '' @ ''old'') ''Bearer '' = ''old''" by (rule TrimPrefix_append)
  have "fst (sql_ResolveAPIKey sql_home ''old'') = Inr home_key"
    by (simp add: sql_ResolveAPIKey_def exec_db_def sql_home_def decodeOrigins_def home_key_def)
  then obtain st where r: "sql_ResolveAPIKey sql_home ''old'' = (Inr home_key, st)" by (metis prod.collapse)
  show ?thesis unfolding authKey_def h Let_def t trim_old using r by simp
qed

text \<open>The states of the run; the world changes only in what was written.\<close>

definition rly :: "conc \<Rightarrow> sqliteStore \<Rightarrow> rateLimiter \<Rightarrow> (nat \<times> Envelope) list \<Rightarrow> link \<Rightarrow> call \<Rightarrow>
    (nat \<times> Envelope) list \<Rightarrow> sqliteStore relay" where
  "rly c st rl fs l cl evs = \<lparr>ry_conc = c, ry_store = st, ry_rl = rl, ry_world = world1\<lparr>wd_sent := fs\<rparr>,
     ry_link = (\<lambda>_. Fresh)(4 := l), ry_call = (\<lambda>_. Idle)(0 := cl), ry_qcall = (\<lambda>_. Idle), ry_heard = evs\<rparr>"

lemma rly_simps [simp]:
  "ry_conc (rly c st rl fs l cl evs) = c" "ry_store (rly c st rl fs l cl evs) = st"
  "ry_rl (rly c st rl fs l cl evs) = rl" "ry_world (rly c st rl fs l cl evs) = world1\<lparr>wd_sent := fs\<rparr>"
  "ry_link (rly c st rl fs l cl evs) 4 = l" "ry_call (rly c st rl fs l cl evs) 0 = cl"
  "ry_heard (rly c st rl fs l cl evs) = evs"
  "set_link 4 l' (rly c st rl fs l cl evs) = rly c st rl fs l' cl evs"
  "set_call 0 cl' (rly c st rl fs l cl evs) = rly c st rl fs l cl' evs"
  "hear ws env (rly c st rl fs l cl evs) = rly c st rl fs l cl ((ws, env) # evs)"
  "on_conc f (rly c st rl fs l cl evs) = rly (f c) st rl fs l cl evs"
  "(rly c st rl fs l cl evs)\<lparr>ry_store := st'\<rparr> = rly c st' rl fs l cl evs"
  "(rly c st rl fs l cl evs)\<lparr>ry_world := world1\<lparr>wd_sent := fs'\<rparr>\<rparr> = rly c st rl fs' l cl evs"
  "(rly c st rl fs l cl evs)\<lparr>ry_rl := rl', ry_world := world1\<lparr>wd_sent := fs\<rparr>\<rparr> = rly c st rl' fs l cl evs"
  by (simp_all add: rly_def set_link_def set_call_def hear_def on_conc_def)

lemma home_world:
  "randomBytes 32 (world1\<lparr>wd_sent := fs\<rparr>) = (replicate 32 0, world1\<lparr>wd_sent := fs\<rparr>)"
  "ws_WriteJSON ws v (world1\<lparr>wd_sent := fs\<rparr>) = (True, world1\<lparr>wd_sent := fs @ [(ws, v)]\<rparr>)"
  by (simp_all add: randomBytes_def rand_Read_def ws_WriteJSON_def world1_def map_replicate_const)

lemma home_limit: "\<exists>rl. rl_allow ''k1'' (newRateLimiter 5 20 Hour) (world1\<lparr>wd_sent := fs\<rparr>)
    = (True, rl, world1\<lparr>wd_sent := fs\<rparr>)"
proof -
  have "round64 20 = 20" "round64 19 = 19" using f64.rnd_int [of 20] f64.rnd_int [of 19] by simp_all
  then have "kl_allow_at 5 20 0 \<lparr>kl_tokens = 20, kl_last = 0\<rparr> = (True, \<lparr>kl_tokens = 19, kl_last = 0\<rparr>)"
    by (simp add: kl_allow_at_def Sub_def)
  then show ?thesis
    by (simp add: newRateLimiter_def rl_allow_def kl_allow_def time_Now_def world1_def)
qed

lemma home_build:
  "buildTxRequest pad_hash home_key sample_body (world1\<lparr>wd_sent := fs\<rparr>)
     = (Inr home_request, world1\<lparr>wd_sent := fs\<rparr>)"
proof -
  have "fst (buildTxRequest pad_hash home_key sample_body (world1\<lparr>wd_sent := fs\<rparr>)) = Inr home_request"
    by (simp add: build_accepts [OF pad_hash_ok] sample_body_def KindSend_def sample_dest_ok
        resolveAmount_def home_request_def tx_request_def Let_def)
  moreover have "snd (buildTxRequest pad_hash home_key sample_body (world1\<lparr>wd_sent := fs\<rparr>))
      = world1\<lparr>wd_sent := fs\<rparr>"
    by (simp add: build_world world1_def)
  ultimately show ?thesis by (metis prod.collapse)
qed

definition home_hello :: Envelope where
  "home_hello = honest_hello pad_hash toy ''d'' home_keys"

definition home_answer :: Envelope where
  "home_answer = honest_auth pad_hash toy (replicate 32 0) home_keys"

definition home_report :: Envelope where
  "home_report = (envelope TypeResult)\<lparr>e_Result := Some (result1 (tr_ID home_request))\<rparr>"

lemma home_proves:
  obtains au where "e_Auth home_answer = Some au" "e_Type home_answer = TypeAuth"
    "prove_loop pad_hash toy (replicate 32 0) (au_Signatures au) [home_acc] [] = Inr [home_acc]"
proof -
  let ?sigs = "map (\<lambda>pk. (key_address pad_hash toy pk, key_signature pad_hash toy (replicate 32 0) pk)) home_keys"
  have "proves pad_hash toy (replicate 32 0) ?sigs home_acc"
    unfolding home_acc_def by (rule honest_proves [OF pad_hash_ok toy_ok]) (simp add: home_keys_def)
  then have "prove_loop pad_hash toy (replicate 32 0) ?sigs [home_acc] [] = Inr [home_acc]"
    unfolding prove_loop_eq [OF pad_hash_ok] by simp
  then show ?thesis using that [of "\<lparr>au_Signatures = ?sigs\<rparr>"]
    by (simp add: home_answer_def honest_auth_def)
qed

abbreviation home_reach :: "sqliteStore relay \<Rightarrow> bool" where
  "home_reach \<equiv> relay_reach home_jobs sqlite_store pad_hash toy names sql_home world1"

text \<open>Up to the point where the call is handed to the hub.\<close>

lemma home_handed:
  obtains st rl fs where "home_reach (rly (smp home_dev Start QStart home_hub [] [] {}) st rl fs
      (Enrolled home_dev) (Running home_key) [(4, home_answer), (4, home_hello)])"
proof -
  let ?n = "replicate 32 0" and ?rl = "newRateLimiter 5 20 Hour"
  let ?h = "\<lparr>h_DeviceID = ''d'', h_Accounts = [home_acc]\<rparr>"
  let ?w = "(envelope TypeWelcome)\<lparr>e_Welcome := Some \<lparr>w_Accounts = ac_accounts home_dev\<rparr>\<rparr>"
  let ?c = "smp home_dev Start QStart home_hub [] [] {}"
  have hello: "e_Type home_hello = TypeHello" "e_Hello home_hello = Some ?h"
    by (simp_all add: home_hello_def honest_hello_def home_keys_def home_acc_def)
  have "home_reach (rly conc_init sql_home ?rl [] Fresh Idle [])"
    by (simp add: relay_reach_def relay_init_def rly_def world1_def fun_upd_def)
  from relay_go [OF this relay_step.Hello [of _ 4 home_hello ?h ?n "world1\<lparr>wd_sent := []\<rparr>" True
        "world1\<lparr>wd_sent := [(4, challenge_frame ?n)]\<rparr>"]]
  have "home_reach (rly conc_init sql_home ?rl [(4, challenge_frame ?n)] (Challenged ?h ?n) Idle [(4, home_hello)])"
    by (simp add: home_world hello)
  note r = this
  obtain au where au: "e_Auth home_answer = Some au" "e_Type home_answer = TypeAuth"
    "prove_loop pad_hash toy ?n (au_Signatures au) [home_acc] [] = Inr [home_acc]" by (rule home_proves)
  have bound: "(on_hub (Hub.bind home_dev) conc_init)\<lparr>cs_bound := insert home_dev (cs_bound conc_init)\<rparr> = ?c"
    by (simp add: conc_init_def smp_def on_hub_def home_hub_def fun_upd_def)
  from relay_go [OF r relay_step.Prove [of _ 4 ?h ?n home_answer au _ _ "[home_acc]" home_dev]] au bound
  have "home_reach (rly ?c sql_home ?rl [(4, challenge_frame ?n)] (Bound home_dev) Idle
      [(4, home_answer), (4, home_hello)])"
    by (simp add: home_dev_def)
  from relay_go [OF this relay_step.Welcome [of _ 4 home_dev True "world1\<lparr>wd_sent := [(4, challenge_frame ?n), (4, ?w)]\<rparr>"]]
  have "home_reach (rly ?c sql_home ?rl [(4, challenge_frame ?n), (4, ?w)] (Enrolled home_dev) Idle
      [(4, home_answer), (4, home_hello)])"
    by (simp add: writeJSON_conn_def home_world)
  note r = this
  obtain st where "authKey sqlite_store sample_request sql_home = ((home_key, True), st)" using home_auth by blast
  from relay_go [OF r relay_step.Key [of _ 0 sqlite_store sample_request home_key True st]] this
  have "home_reach (rly ?c st ?rl [(4, challenge_frame ?n), (4, ?w)] (Enrolled home_dev) (Known home_key)
      [(4, home_answer), (4, home_hello)])" by simp
  note r = this
  obtain rl where rl: "rl_allow (k_ID home_key) ?rl (world1\<lparr>wd_sent := [(4, challenge_frame ?n), (4, ?w)]\<rparr>)
      = (True, rl, world1\<lparr>wd_sent := [(4, challenge_frame ?n), (4, ?w)]\<rparr>)"
    using home_limit by auto
  from relay_go [OF r relay_step.Admit [of _ 0 home_key True rl]] rl
  have "home_reach (rly ?c st rl [(4, challenge_frame ?n), (4, ?w)] (Enrolled home_dev) (Allowed home_key)
      [(4, home_answer), (4, home_hello)])" by simp
  from relay_go [OF this relay_step.Build [of _ 0 home_key "rq_Body sample_request" sample_body pad_hash home_jobs
        "world1\<lparr>wd_sent := [(4, challenge_frame ?n), (4, ?w)]\<rparr>"]]
  have "home_reach (rly ?c st rl [(4, challenge_frame ?n), (4, ?w)] (Enrolled home_dev) (Running home_key)
      [(4, home_answer), (4, home_hello)])" by (simp add: home_build sample_decode)
  then show ?thesis by (rule that)
qed

text \<open>A step of the hub within the relay.\<close>

lemma home_hub_step:
  assumes "home_reach (rly c st rl fs l (Running home_key) evs)" "conc_step home_jobs c c'"
    "\<forall>t. t \<noteq> 0 \<longrightarrow> cs_phase c' t = cs_phase c t" "cs_qphase c' = cs_qphase c"
    "hb_bindings (cs_hub c') = hb_bindings (cs_hub c)" "cs_bound c' = cs_bound c"
    "cs_reported c' = cs_reported c" "cs_answered c' = cs_answered c"
  shows "home_reach (rly c' st rl fs l (Running home_key) evs)"
proof -
  have run: "ry_call (rly c st rl fs l (Running home_key) evs) 0 = Running home_key" by simp
  have "relay_step home_jobs sqlite_store pad_hash toy names (rly c st rl fs l (Running home_key) evs)
      (on_conc (\<lambda>_. c') (rly c st rl fs l (Running home_key) evs))"
  proof (rule relay_step.Run)
    show "\<forall>t. cs_phase c' t \<noteq> cs_phase (ry_conc (rly c st rl fs l (Running home_key) evs)) t \<longrightarrow>
        (\<exists>key. ry_call (rly c st rl fs l (Running home_key) evs) t = Running key)"
      using assms(3) run by (metis rly_simps(1))
  qed (use assms in simp_all)
  from relay_go [OF assms(1) this] show ?thesis by simp
qed

lemma smp_frame [simp]:
  "cs_bound (smp d ph qh h fl fs rep) = {d}" "cs_answered (smp d ph qh h fl fs rep) = {}"
  by (simp_all add: smp_def)

lemma home_run:
  obtains r where "home_reach r" "cs_phase (ry_conc r) 0 = Done (Inr (result1 (tr_ID home_request)))"
    "(4, request_frame home_request) \<in> set (cs_sent (ry_conc r))" "ry_call r 0 = Running home_key"
    "ry_heard r = [(4, home_report), (4, home_answer), (4, home_hello)]"
proof -
  let ?evs = "[(4, home_answer), (4, home_hello)]"
  let ?rid = "tr_ID home_request" and ?res = "result1 (tr_ID home_request)"
  let ?h1 = "register ?rid home_hub"
  let ?h2 = "set_chan 0 [?res] ?h1"
  let ?h3 = "deregister ?rid (set_chan 0 [] ?h2)"
  let ?fs = "[(4, request_frame home_request)]"
  obtain st rl fs where start: "home_reach (rly (smp home_dev Start QStart home_hub [] [] {}) st rl fs
      (Enrolled home_dev) (Running home_key) ?evs)"
    by (rule home_handed)
  let ?r = "\<lambda>ph h fl sn rep evs. rly (smp home_dev ph QStart h fl sn rep) st rl fs (Enrolled home_dev) (Running home_key) evs"
  have res: "res_RequestID ?res = ?rid" by (simp add: result1_def)
  from home_hub_step [OF start conc_step.List [of _ 0, OF _ refl]]
  have "home_reach (?r (Looked [home_dev]) home_hub [] [] {} ?evs)" by simp
  from home_hub_step [OF this conc_step.Register [of _ 0]]
  have "home_reach (?r (Writing 0 [home_dev] 0) ?h1 [] [] {} ?evs)" by simp
  from home_hub_step [OF this conc_step.Write [of _ 0 _ _ _ _ _ True]]
  have "home_reach (?r (Writing 0 [] 1) ?h1 [] ?fs {} ?evs)" by simp
  from home_hub_step [OF this conc_step.Written [of _ 0]]
  have r: "home_reach (?r (Waiting 0) ?h1 [] ?fs {} ?evs)" by (simp add: after_writes_def)
  have "names (?r (Waiting 0) ?h1 [] ?fs {} ?evs) 4 ?rid"
    unfolding names_def by (intro exI [of _ "request_frame home_request"]) (simp add: request_frame_def)
  with relay_go [OF r relay_step.Result [of _ 4 home_dev home_report ?res names 0]]
  have "home_reach (?r (Waiting 0) ?h1 [(0, ?res)] ?fs {?res} ((4, home_report) # ?evs))"
    by (simp add: home_report_def res)
  from home_hub_step [OF this conc_step.DeliverSend [of _ "[]"]]
  have "home_reach (?r (Waiting 0) ?h2 [] ?fs {?res} ((4, home_report) # ?evs))" by (simp add: offer_def)
  from home_hub_step [OF this conc_step.Receive [of _ 0 0 ?res "[]"]]
  have "home_reach (?r (Returning 0 (Inr ?res)) (set_chan 0 [] ?h2) [] ?fs {?res} ((4, home_report) # ?evs))"
    by simp
  from home_hub_step [OF this conc_step.Delete [of _ 0]]
  have "home_reach (?r (Deleted (Inr ?res)) ?h3 [] ?fs {?res} ((4, home_report) # ?evs))" by simp
  from home_hub_step [OF this conc_step.ListAgain [of _ 0]]
  have "home_reach (?r (Withdrawing (Inr ?res) [home_dev]) ?h3 [] ?fs {?res} ((4, home_report) # ?evs))" by simp
  from home_hub_step [OF this conc_step.Withdraw [of _ 0 _ _ _ _ False]]
  have "home_reach (?r (Withdrawing (Inr ?res) []) ?h3 [] ?fs {?res} ((4, home_report) # ?evs))" by simp
  from home_hub_step [OF this conc_step.Return [of _ 0]]
  have "home_reach (?r (Done (Inr ?res)) ?h3 [] ?fs {?res} ((4, home_report) # ?evs))" by simp
  then show ?thesis by (rule that) simp_all
qed

lemma world1_sent: "wd_sent world1 = []"
  by (simp add: world1_def)

section \<open>Properties\<close>

text \<open>
  C1. Requests reach only the owner's devices. Whatever callers and devices do, every frame of a
  request, withdrawal or query goes to a connection that signed its own challenge with the key of the
  account that owns the API key of the call; the frame names that API key and that account; and the
  API key belongs to the account because one of the account's own devices registered or rebound it
  there, or because the store had it so from the start.
\<close>

theorem frames_authenticated:
  assumes "sql_inv store" "blake2b_ok B" "relay_reach J sqlite_store B E G store w r"
    "(ws, env) \<in> set (cs_sent (ry_conc r))"
  shows "\<exists>d key. enrolled B E r d \<and> ac_ws d = ws \<and> k_OwnerAccount key \<in> set (ac_accounts d)
    \<and> call_frame J r key env
    \<and> (sponsored B E r (k_ID key) (k_OwnerAccount key) \<or> owned (sql_view store) (k_ID key) (k_OwnerAccount key))"
proof -
  obtain acc d where d: "proved_by (ry_conc r) acc d" "ws = ac_ws d" "job_frame J (ry_conc r) acc env"
    using routingD(3) [OF reach_routing [OF relay_conc_reach [OF assms(3)]] assms(4)] by blast
  obtain key where key: "acc = k_OwnerAccount key" "call_frame J r key env"
    using job_call_frame [OF assms(2) reach_calls [OF assms(3)] d(3)] by blast
  have "keys_backed B E (sql_view store) (sql_view (ry_store r)) r"
    using sq.reach_backed [OF _ assms(2) assms(1) assms(3)] by simp
  then have "backed B E (sql_view store) r key"
    using call_frame_key [OF key(2)] unfolding keys_backed_def by blast
  moreover have "enrolled B E r d" "acc \<in> set (ac_accounts d)"
    using d(1) links_okD(5) [OF reach_links [OF assms(2,3)]] unfolding proved_by_def by blast+
  ultimately show ?thesis using d(2) key unfolding backed_def by blast
qed

theorem frames_authenticated_witness:
  "\<exists>r d. home_reach r \<and> (4, request_frame home_request) \<in> set (cs_sent (ry_conc r))
     \<and> enrolled pad_hash toy r d \<and> ac_ws d = 4"
proof -
  obtain r where r: "home_reach r" "(4, request_frame home_request) \<in> set (cs_sent (ry_conc r))"
    by (rule home_run)
  show ?thesis using frames_authenticated [OF home_inv(1) pad_hash_ok r] r by blast
qed

text \<open>
  C2. Results come from the owner. When the devices can name in a result only what they were sent, a
  call that returns a result returns one that an enrolled connection of the account owning the call's
  API key sent; the same holds of a query's answer.
\<close>

theorem result_from_owner:
  assumes "blake2b_ok B" "distinct_ids J" "relay_reach J S B E names store w r"
  shows "(\<forall>t res. cs_phase (ry_conc r) t = Done (Inr res) \<longrightarrow> (\<exists>key d env. ry_call r t = Running key
      \<and> enrolled B E r d \<and> k_OwnerAccount key \<in> set (ac_accounts d) \<and> (ac_ws d, env) \<in> set (ry_heard r)
      \<and> e_Result env = Some res \<and> res_RequestID res = request_id J t))
    \<and> (\<forall>t qr. cs_qphase (ry_conc r) t = QDone (Inr qr) \<longrightarrow> (\<exists>key d env. ry_qcall r t = Running key
      \<and> enrolled B E r d \<and> k_OwnerAccount key \<in> set (ac_accounts d) \<and> (ac_ws d, env) \<in> set (ry_heard r)
      \<and> e_QueryResult env = Some qr \<and> e_ID env = jb_qid J t))"
proof -
  have "told_ok B E names r"
    by (rule reach_told [OF assms(1,3)]) (simp, rule names_mono)
  note told = told_okD [OF this]
  note results = conc_results_own [OF assms(2) relay_conc_reach [OF assms(3)]]
  note calls = calls_okD [OF reach_calls [OF assms(3)]]
  have "\<exists>key d env. ry_call r t = Running key \<and> enrolled B E r d \<and> k_OwnerAccount key \<in> set (ac_accounts d)
      \<and> (ac_ws d, env) \<in> set (ry_heard r) \<and> e_Result env = Some res \<and> res_RequestID res = request_id J t"
    if t: "cs_phase (ry_conc r) t = Done (Inr res)" for t res
  proof -
    have started: "cs_phase (ry_conc r) t \<noteq> Start" by (simp add: t)
    obtain key where key: "ry_call r t = Running key" "jb_account J t = k_OwnerAccount key"
      using calls(1) [OF started] unfolding request_for_def by blast
    obtain d :: agentConn and env where d: "(ac_ws d, env) \<in> set (ry_heard r)" "e_Result env = Some res"
      "names r (ac_ws d) (request_id J t)" 
      using told(1) [OF conjunct2 [OF results(1) [OF t]], unfolded conjunct1 [OF results(1) [OF t]]] by blast
    then obtain d' where "enrolled B E r d'" "ac_ws d' = ac_ws d" "k_OwnerAccount key \<in> set (ac_accounts d')"
      using named_request [OF assms(1,3,2) started] key(2) by metis
    then have "(ac_ws d', env) \<in> set (ry_heard r)" using d(1) by simp
    then show ?thesis using key(1) d(2) results(1) [OF t] \<open>enrolled B E r d'\<close> \<open>_ \<in> set (ac_accounts d')\<close> by blast
  qed
  moreover have "\<exists>key d env. ry_qcall r t = Running key \<and> enrolled B E r d \<and> k_OwnerAccount key \<in> set (ac_accounts d)
      \<and> (ac_ws d, env) \<in> set (ry_heard r) \<and> e_QueryResult env = Some qr \<and> e_ID env = jb_qid J t"
    if t: "cs_qphase (ry_conc r) t = QDone (Inr qr)" for t qr
  proof -
    have started: "cs_qphase (ry_conc r) t \<noteq> QStart" by (simp add: t)
    obtain key where key: "ry_qcall r t = Running key" "jb_qaccount J t = k_OwnerAccount key"
      using calls(2) [OF started] unfolding query_for_def by blast
    obtain d :: agentConn and env where d: "(ac_ws d, env) \<in> set (ry_heard r)" "e_QueryResult env = Some qr" "e_ID env = jb_qid J t"
      "names r (ac_ws d) (jb_qid J t)" using told(2) [OF results(2) [OF t]] by blast
    then obtain d' where "enrolled B E r d'" "ac_ws d' = ac_ws d" "k_OwnerAccount key \<in> set (ac_accounts d')"
      using named_query [OF assms(1,3,2) started] key(2) by metis
    then have "(ac_ws d', env) \<in> set (ry_heard r)" using d(1) by simp
    then show ?thesis using key(1) d(2,3) \<open>enrolled B E r d'\<close> \<open>_ \<in> set (ac_accounts d')\<close> by blast
  qed
  ultimately show ?thesis by blast
qed

theorem result_from_owner_witness:
  "\<exists>r d env. home_reach r \<and> enrolled pad_hash toy r d \<and> home_acc \<in> set (ac_accounts d)
     \<and> (ac_ws d, env) \<in> set (ry_heard r) \<and> e_Result env = Some (result1 (tr_ID home_request))"
proof -
  obtain r where r: "home_reach r" "cs_phase (ry_conc r) 0 = Done (Inr (result1 (tr_ID home_request)))"
    "ry_call r 0 = Running home_key" by (rule home_run)
  then obtain key d env where "ry_call r 0 = Running key" "enrolled pad_hash toy r d"
    "k_OwnerAccount key \<in> set (ac_accounts d)" "(ac_ws d, env) \<in> set (ry_heard r)"
    "e_Result env = Some (result1 (tr_ID home_request))"
    using result_from_owner [OF pad_hash_ok home_ids r(1)] by blast
  then show ?thesis using r(1,3) by auto
qed

text \<open>
  C3. What the store holds. After any run, every key of the store belongs to an account one of whose
  enrolled devices registered or rebound it, or belonged to it from the start; every policy was put by
  an enrolled device of its account, or is the one of the start; no account loses its policy or goes
  back to an older version; and the database keeps its invariant.
\<close>

theorem store_provenance:
  assumes "sql_inv store" "blake2b_ok B" "relay_reach J sqlite_store B E G store w r"
  shows "sql_inv (ry_store r)
    \<and> (\<forall>kid k. a_keys (sql_view (ry_store r)) kid = Some k \<longrightarrow>
         sponsored B E r kid (k_OwnerAccount k) \<or> owned (sql_view store) kid (k_OwnerAccount k))
    \<and> (\<forall>acc p. a_policy (sql_view (ry_store r)) acc = Some p \<longrightarrow>
         policy_from B E r acc p \<or> a_policy (sql_view store) acc = Some p)
    \<and> (\<forall>acc ver b. a_policy (sql_view store) acc = Some (ver, b) \<longrightarrow>
         (\<exists>ver' b'. a_policy (sql_view (ry_store r)) acc = Some (ver', b') \<and> ver \<le> ver'))"
proof -
  have b: "sql_inv (ry_store r)" "keys_backed B E (sql_view store) (sql_view (ry_store r)) r"
    using sq.reach_backed [OF _ assms(2) assms(1) assms(3)] by simp_all
  have p: "policies_ok B E (sql_view store) (sql_view (ry_store r)) r"
    using sq.reach_policies [OF _ assms(2) assms(1) assms(3)] by simp
  have "k_ID k = kid" if "a_keys (sql_view (ry_store r)) kid = Some k" for kid k
    using sq.view_inv [OF b(1)] that unfolding abs_inv_def by blast
  then have "sponsored B E r kid (k_OwnerAccount k) \<or> owned (sql_view store) kid (k_OwnerAccount k)"
    if "a_keys (sql_view (ry_store r)) kid = Some k" for kid k
    using that b(2) unfolding keys_backed_def backed_def by metis
  then show ?thesis using b(1) p unfolding policies_ok_def by blast
qed

theorem store_provenance_witness:
  "\<exists>r. home_reach r \<and> (\<forall>kid k. a_keys (sql_view (ry_store r)) kid = Some k \<longrightarrow>
     sponsored pad_hash toy r kid (k_OwnerAccount k) \<or> owned (sql_view sql_home) kid (k_OwnerAccount k))"
proof -
  obtain r where r: "home_reach r" by (rule home_run)
  show ?thesis using store_provenance [OF home_inv(1) pad_hash_ok r] r by blast
qed

text \<open>
  C12. Challenges are fresh. No two connections are challenged with the same part of the random source:
  the challenge of each is a stretch of 32 bytes of it, the stretches of two connections do not
  overlap, and a connection that was not challenged has none. A signature is therefore made for the
  connection that shows it.
\<close>

theorem challenges_fresh:
  assumes "relay_reach J S B E G store w r" "wd_sent w = []"
  shows "\<exists>pos. (\<forall>ws n. (ws, challenge_frame n) \<in> set (wd_sent (ry_world r)) \<longrightarrow>
        n = stake 32 (sdrop (pos ws) (wd_entropy w)) \<and> ry_link r ws \<noteq> Fresh)
    \<and> (\<forall>ws ws' n n'. (ws, challenge_frame n) \<in> set (wd_sent (ry_world r)) \<longrightarrow>
        (ws', challenge_frame n') \<in> set (wd_sent (ry_world r)) \<longrightarrow> ws \<noteq> ws' \<longrightarrow>
        pos ws + 32 \<le> pos ws' \<or> pos ws' + 32 \<le> pos ws)"
  using reach_draws [OF assms] unfolding draws_ok_def by blast

theorem challenges_fresh_witness:
  "\<exists>r. home_reach r \<and> (\<exists>pos. \<forall>n. (4, challenge_frame n) \<in> set (wd_sent (ry_world r)) \<longrightarrow>
     n = stake 32 (sdrop pos (wd_entropy world1)))"
proof -
  obtain r where r: "home_reach r" by (rule home_run)
  show ?thesis using challenges_fresh [OF r world1_sent] r by blast
qed

text \<open>
  C13. Frames are well typed. Every frame the relay writes to a device carries the protocol version, a
  type that only the relay sends, the payload of that type and no other, and a correlation id exactly
  when it belongs to a call.
\<close>

theorem frames_typed:
  assumes "blake2b_ok B" "relay_reach J S B E G store w r" "wd_sent w = []"
    "(ws, env) \<in> set (wd_sent (ry_world r)) \<or> (ws, env) \<in> set (cs_sent (ry_conc r))"
  shows "frame_ok env"
  using assms(4)
proof
  assume "(ws, env) \<in> set (wd_sent (ry_world r))"
  then show ?thesis using reach_frames [OF assms(2,3)] unfolding all_frames_ok_def by blast
next
  assume "(ws, env) \<in> set (cs_sent (ry_conc r))"
  then show ?thesis using job_call_frame [OF assms(1) reach_calls [OF assms(2)]]
      routingD(3) [OF reach_routing [OF relay_conc_reach [OF assms(2)]]] by blast
qed

theorem frames_typed_witness: "frame_ok (request_frame home_request)"
proof -
  obtain r where r: "home_reach r" "(4, request_frame home_request) \<in> set (cs_sent (ry_conc r))"
    by (rule home_run)
  show ?thesis using frames_typed [OF pad_hash_ok r(1) world1_sent] r(2) by blast
qed

end
