(* ===== verification/Timers.thy ===== *)
theory Timers
  imports Server_Props
begin

text \<open>
  What runs on timers. A device's connection in \<^verbatim>\<open>agentReadLoop\<close> and \<^verbatim>\<open>pinger\<close>
  (\<^verbatim>\<open>cmd/relay/http.go\<close>): the read deadline that every frame pushes back, the limit on the length of a
  message, and the pings that make a living device send something. Reading fails at the deadline, and the
  handler returns. And the ticker of \<^verbatim>\<open>newServer\<close>, which prunes the rate limiter. Handling a message
  takes no time here; times are in nanoseconds.
\<close>

section \<open>The read deadline\<close>

text \<open>A frame from the device: a pong, a message of some length in bytes, which may not be an envelope, or the close.\<close>

datatype ws_event = Pong | Message nat "Envelope option" | Gone

definition readLimit :: nat where
  "readLimit = 2 ^ 20"

definition readWait :: int where
  "readWait = 60 * Second"

text \<open>What the loop reads until a read fails, and when that is.\<close>

fun read_frames :: "time \<Rightarrow> (time \<times> ws_event) list \<Rightarrow> inbound \<times> time" where
  "read_frames deadline [] = ([None], deadline)"
| "read_frames deadline ((t, ev) # evs) =
     (if deadline \<le> t then ([None], deadline)
      else
        (case ev of
           Pong \<Rightarrow> read_frames (t + readWait) evs
         | Message n m \<Rightarrow>
             if readLimit < n then ([None], t)
             else (case m of
                 None \<Rightarrow> ([None], t)
               | Some env \<Rightarrow> (let (msgs, stop) = read_frames (t + readWait) evs in (Some env # msgs, stop)))
         | Gone \<Rightarrow> ([None], t)))"

definition timed_read_loop :: "'s Store \<Rightarrow> agentConn \<Rightarrow> time \<Rightarrow> (time \<times> ws_event) list \<Rightarrow> 's server \<Rightarrow>
    's server \<times> time" where
  "timed_read_loop S a now evs s =
     (let (msgs, stop) = read_frames (now + readWait) evs in (agentReadLoop S a msgs s, stop))"

section \<open>The pings\<close>

definition pingPeriod :: int where
  "pingPeriod = 25 * Second"

text \<open>The times of the pings, from the tick at \<open>t\<close>; \<open>oks\<close> says which writes succeed.\<close>

function pinger :: "time \<Rightarrow> time \<Rightarrow> bool stream \<Rightarrow> time list" where
  "pinger t stop oks =
     (if stop \<le> t then [] else t # (if shd oks then pinger (t + pingPeriod) stop (stl oks) else []))"
  by pat_completeness auto
termination
  by (relation "measure (\<lambda>(t, stop, oks). nat (stop - t))") (auto simp: pingPeriod_def Second_def)

declare pinger.simps [simp del]

lemma periods [simp]: "0 < readWait" "0 < pingPeriod"
  by (simp_all add: readWait_def pingPeriod_def Second_def)

text \<open>A frame that does not end the loop.\<close>

fun good_event :: "ws_event \<Rightarrow> bool" where
  "good_event Pong = True"
| "good_event (Message n m) \<longleftrightarrow> n \<le> readLimit \<and> m \<noteq> None"
| "good_event Gone = False"

fun message_of :: "ws_event \<Rightarrow> Envelope option" where
  "message_of (Message n m) = m"
| "message_of _ = None"

definition times_of :: "(time \<times> ws_event) list \<Rightarrow> time list" where
  "times_of evs = map fst evs"

definition messages_before :: "time \<Rightarrow> (time \<times> ws_event) list \<Rightarrow> Envelope list" where
  "messages_before stop evs = List.map_filter (\<lambda>(t, ev). if t < stop then message_of ev else None) evs"

lemma messages_simps [simp]:
  "messages_before stop [] = []"
  "messages_before stop ((t, ev) # evs) =
     (case message_of ev of Some env \<Rightarrow> if t < stop then [env] else [] | None \<Rightarrow> []) @ messages_before stop evs"
  by (auto simp: messages_before_def map_filter_simps split: option.splits)

lemma late_messages: "\<forall>t\<in>set (times_of evs). stop \<le> t \<Longrightarrow> messages_before stop evs = []"
  by (induction evs) (force simp: times_of_def split: option.splits)+

lemma read_step:
  "good_event ev \<Longrightarrow> t < deadline \<Longrightarrow> read_frames deadline ((t, ev) # evs) =
     ((case message_of ev of None \<Rightarrow> [] | Some env \<Rightarrow> [Some env]) @ fst (read_frames (t + readWait) evs),
      snd (read_frames (t + readWait) evs))"
  by (cases ev) (auto split: prod.splits option.splits)

text \<open>Reading ends exactly when nothing came for the length of the deadline.\<close>

lemma read_until:
  assumes "sorted (times_of evs)" "list_all (good_event \<circ> snd) evs"
    "\<forall>t\<in>set (times_of evs). deadline \<le> t + readWait" "read_frames deadline evs = (msgs, stop)"
  shows "msgs = map Some (messages_before stop evs) @ [None] \<and> deadline \<le> stop
    \<and> (stop = deadline \<or> (\<exists>t\<in>set (times_of evs). stop = t + readWait))
    \<and> (\<forall>t\<in>set (times_of evs). t < stop \<longrightarrow> t + readWait \<le> stop)"
  using assms
proof (induction evs arbitrary: deadline msgs)
  case (Cons e evs)
  obtain t ev where e: "e = (t, ev)" by fastforce
  show ?case
  proof (cases "deadline \<le> t")
    case True
    then have r: "msgs = [None]" "stop = deadline" using Cons.prems(4) by (simp_all add: e)
    then have "\<forall>t'\<in>set (times_of (e # evs)). stop \<le> t'"
      using Cons.prems(1) True by (auto simp: e times_of_def)
    then show ?thesis using late_messages [of "e # evs" stop] r by (auto simp: not_less)
  next
    case False
    obtain msgs' stop' where r: "read_frames (t + readWait) evs = (msgs', stop')" by fastforce
    then have m: "msgs = (case message_of ev of None \<Rightarrow> [] | Some env \<Rightarrow> [Some env]) @ msgs'" "stop' = stop"
      using Cons.prems(2,4) False read_step [of ev t deadline evs] by (auto simp: e)
    have "msgs' = map Some (messages_before stop evs) @ [None] \<and> t + readWait \<le> stop
      \<and> (stop = t + readWait \<or> (\<exists>t\<in>set (times_of evs). stop = t + readWait))
      \<and> (\<forall>t\<in>set (times_of evs). t < stop \<longrightarrow> t + readWait \<le> stop)"
      using Cons.prems(1,2) r m(2) by (intro Cons.IH) (auto simp: e times_of_def)
    moreover from this have "t < stop" using periods(1) by linarith
    ultimately show ?thesis using m(1) Cons.prems(3)
      by (auto simp: e times_of_def split: option.splits)
  qed
qed (simp add: times_of_def)

lemma read_messages: "agentReadLoop S a (map Some ms @ [None]) s = fold (agent_message S a) ms s"
  by (induction ms arbitrary: s) simp_all

text \<open>Whatever the messages, the \<open>k\<close>th ping is answered in time when some frame comes within 35 seconds.\<close>

definition ping :: "time \<Rightarrow> nat \<Rightarrow> time" where
  "ping now k = now + (int k + 1) * pingPeriod"

lemma ping_simps: "ping now 0 = now + pingPeriod" "ping now (Suc k) = ping now k + pingPeriod"
  by (simp_all add: ping_def algebra_simps)

lemma pinger_times:
  assumes "ping now (k + n) < stop"
  shows "take (Suc n) (pinger (ping now k) stop (sconst True)) = map (ping now) [k..<Suc (k + n)]"
  using assms
proof (induction n arbitrary: k)
  case 0
  then show ?case by (simp add: pinger.simps [of "ping now k"])
next
  case (Suc n)
  have "ping now k \<le> ping now (k + Suc n)" by (simp add: ping_def)
  then have "pinger (ping now k) stop (sconst True) = ping now k # pinger (ping now (Suc k)) stop (sconst True)"
    using Suc.prems by (simp add: pinger.simps [of "ping now k"] ping_simps)
  moreover have "take (Suc n) (pinger (ping now (Suc k)) stop (sconst True)) = map (ping now) [Suc k..<Suc (Suc k + n)]"
    using Suc.prems by (intro Suc.IH) simp
  ultimately have "take (Suc (Suc n)) (pinger (ping now k) stop (sconst True))
      = map (ping now) (k # [Suc k..<Suc (Suc k + n)])" by (simp only: take_Suc_Cons list.map)
  also have "k # [Suc k..<Suc (Suc k + n)] = [k..<Suc (k + Suc n)]"
    by (subst (2) upt_conv_Cons) simp_all
  finally show ?case .
qed

lemma answered_until:
  assumes "\<forall>t\<in>set (times_of evs). t < stop \<longrightarrow> t + readWait \<le> stop" "now + readWait \<le> stop"
    "\<forall>k<n. \<exists>t\<in>set (times_of evs). ping now k \<le> t \<and> t < ping now k + 35 * Second"
  shows "ping now n + 35 * Second \<le> stop"
  using assms(3)
proof (induction n)
  case 0
  then show ?case using assms(2) by (simp add: ping_simps pingPeriod_def readWait_def)
next
  case (Suc n)
  then obtain t where t: "t \<in> set (times_of evs)" "ping now n \<le> t" "t < ping now n + 35 * Second" by blast
  have "ping now n + 35 * Second \<le> stop" using Suc by simp
  then have "t + readWait \<le> stop" using t(1,3) assms(1) by force
  then show ?case using t(2) by (simp add: ping_simps pingPeriod_def readWait_def)
qed

section \<open>Properties\<close>

text \<open>
  C38. Keeping a connection. As long as some frame, such as the pong, comes within 35 seconds of every
  ping, the relay keeps reading: it is past the next two pings before it can give up; it handles every
  message that came before it stops, in order; and it stops exactly 60 seconds after the last frame.
\<close>

theorem answered_pings_keep_alive:
  assumes "sorted (times_of evs)" "list_all (good_event \<circ> snd) evs" "\<forall>t\<in>set (times_of evs). now \<le> t"
    "\<forall>k<n. \<exists>t\<in>set (times_of evs). ping now k \<le> t \<and> t < ping now k + 35 * Second"
    "timed_read_loop S a now evs s = (s', stop)"
  shows "take (n + 2) (pinger (now + pingPeriod) stop (sconst True)) = map (ping now) [0..<n + 2]
    \<and> s' = fold (agent_message S a) (messages_before stop evs) s
    \<and> (stop = now + readWait \<or> (\<exists>t\<in>set (times_of evs). stop = t + readWait))
    \<and> (\<forall>t\<in>set (times_of evs). t < stop \<longrightarrow> t + readWait \<le> stop)"
proof -
  obtain msgs where r: "read_frames (now + readWait) evs = (msgs, stop)" "s' = agentReadLoop S a msgs s"
    using assms(5) by (auto simp: timed_read_loop_def split: prod.splits)
  have u: "msgs = map Some (messages_before stop evs) @ [None]" "now + readWait \<le> stop"
    "stop = now + readWait \<or> (\<exists>t\<in>set (times_of evs). stop = t + readWait)"
    "\<forall>t\<in>set (times_of evs). t < stop \<longrightarrow> t + readWait \<le> stop"
    using read_until [OF assms(1,2) _ r(1)] assms(3) by auto
  have "ping now (0 + Suc n) < stop"
    using answered_until [OF u(4,2) assms(4)] by (simp add: ping_simps pingPeriod_def Second_def)
  from pinger_times [OF this] show ?thesis using u r(2) by (simp add: read_messages ping_simps(1))
qed

theorem answered_pings_keep_alive_witness:
  "take 3 (pinger pingPeriod (86 * Second) (sconst True)) = map (ping 0) [0..<3]"
proof -
  let ?evs = "[(26 * Second, Pong)]"
  have "timed_read_loop sqlite_store (\<lparr>ac_deviceID = [], ac_accounts = [], ac_ws = 0\<rparr>) 0 ?evs (s :: sqliteStore server)
      = (s, 86 * Second)" for s
    by (simp add: timed_read_loop_def readWait_def Second_def)
  from answered_pings_keep_alive [where n = 1, OF _ _ _ _ this] show ?thesis
    by (simp add: times_of_def ping_def pingPeriod_def Second_def numeral_3_eq_3 eval_nat_numeral)
qed

text \<open>Calls of any keys, one after the other.\<close>

fun rl_calls :: "string list \<Rightarrow> rateLimiter \<Rightarrow> World \<Rightarrow> rateLimiter \<times> World" where
  "rl_calls [] rl w = (rl, w)"
| "rl_calls (k # ks) rl w = (let (ok, rl1, w1) = rl_allow k rl w in rl_calls ks rl1 w1)"

lemma calls_dom: "rl_calls ks rl w = (rl', w') \<Longrightarrow> dom (rl_keys rl') = dom (rl_keys rl) \<union> set ks"
proof (induction ks arbitrary: rl w)
  case (Cons k ks)
  obtain ok rl1 w1 where r: "rl_allow k rl w = (ok, rl1, w1)" using prod_cases3 by blast
  then have "dom (rl_keys rl1) = insert k (dom (rl_keys rl))"
    by (auto simp: rl_allow_def Let_def split: prod.splits)
  then show ?case using Cons r by simp
qed simp

text \<open>
  The limiter's map stays bounded. Between two prunings it holds exactly the keys that were last
  used within its time to live when it was pruned, and those that called since.
\<close>

theorem limiter_keys_exact:
  assumes "prune rl w = (rl1, w1)" "rl_calls ks rl1 w1 = (rl2, w2)"
  shows "dom (rl_keys rl2)
    = {k. \<exists>l. rl_keys rl k = Some l \<and> shd (wd_clock w) - rl_ttl rl \<le> kl_last l} \<union> set ks"
proof -
  have "dom (rl_keys rl1) = {k. \<exists>l. rl_keys rl k = Some l \<and> shd (wd_clock w) - rl_ttl rl \<le> kl_last l}"
    using assms(1) by (auto simp: prune_def time_Now_def split: option.splits if_splits)
  then show ?thesis using calls_dom [OF assms(2)] by simp
qed

theorem limiter_keys_exact_witness:
  "dom (rl_keys (fst (rl_calls [''b''] (fst (prune (server_limiter\<lparr>rl_keys := [''a'' \<mapsto> \<lparr>kl_tokens = 3, kl_last = 0\<rparr>]\<rparr>)
     (still (2 * Hour)))) (still (2 * Hour))))) = {''b''}"
proof -
  let ?rl = "server_limiter\<lparr>rl_keys := [''a'' \<mapsto> \<lparr>kl_tokens = 3, kl_last = 0\<rparr>]\<rparr>"
  have p: "prune ?rl (still (2 * Hour)) = (fst (prune ?rl (still (2 * Hour))), still (2 * Hour))"
    by (simp add: prune_def time_Now_def still_def)
  obtain rl2 w2 where c: "rl_calls [''b''] (fst (prune ?rl (still (2 * Hour)))) (still (2 * Hour)) = (rl2, w2)"
    by fastforce
  show ?thesis using limiter_keys_exact [OF p c] c by (auto simp: still_def Hour_def Second_def)
qed

end
