(* ===== verification/Json_Text.thy ===== *)
theory Json_Text
  imports Json
begin

text \<open>
  More of \<^verbatim>\<open>encoding/json\<close>: the members of an object with their values as they stand in the text, which
  is what a type with a decoder of its own is given (\<^verbatim>\<open>time.Time\<close>, \<^verbatim>\<open>json.RawMessage\<close>); that the fuel of the
  parser is enough; and which texts read back as a value wherever they stand.
\<close>

section \<open>Fuel\<close>

lemma emit_eq: "emit p X = Some (x, r) \<longleftrightarrow> (\<exists>a. X = Some (a, r) \<and> x = p @ a)"
  by (auto simp: emit_def split: option.splits)

lemma skip_ws_shorter: "length (skip_ws s) \<le> length s"
  by (induction s) auto

lemma parse_str_shorter: "parse_str t = Some (x, r) \<Longrightarrow> length r < length t"
proof (induction "length t" arbitrary: t x r rule: less_induct)
  case less
  have IH: "length r < length t" if "emit p (parse_str s) = Some (y, r)" "length s < length t" for p s y r
    using less.hyps that unfolding emit_eq by fastforce
  show ?case
  proof (cases t)
    case Nil
    then show ?thesis using less.prems by (subst (asm) parse_str.simps) simp
  next
    case (Cons c u)
    note IH = IH [unfolded Cons]
    show ?thesis using less.prems unfolding Cons
      apply (subst (asm) parse_str.simps)
      apply (simp add: Let_def del: length_drop split: if_splits list.splits option.splits)
      apply (auto dest!: IH)
      done
  qed
qed

lemma span_shorter: "length (dropWhile (\<lambda>c. digit c) s) < Suc (length s)"
  using length_dropWhile_le [of "\<lambda>c. digit c" s] by linarith

lemma num_shorter:
  "num_int s = Some (x, r) \<Longrightarrow> length r < length s"
  "num_frac s = Some (x, r) \<Longrightarrow> length r \<le> length s"
  "num_exp s = Some (x, r) \<Longrightarrow> length r \<le> length s"
  by (auto simp: num_int_def num_frac_def num_exp_def span_digits_def span_shorter length_dropWhile_le Let_def
      split: list.splits if_splits intro: le_SucI order.trans [OF length_dropWhile_le])

lemma parse_num_shorter: "parse_num s = Some (x, r) \<Longrightarrow> length r < length s"
  unfolding parse_num_def Let_def
  by (auto split: if_splits option.splits dest!: num_shorter)

lemma parse_literal_shorter: "parse_literal w v s = Some (j, r) \<Longrightarrow> w \<noteq> [] \<Longrightarrow> length r < length s"
  by (auto simp: parse_literal_def HasPrefix_iff split: if_splits)

text \<open>
  A run of the parser with any fuel can be repeated with twice the number of bytes it consumes, and at
  a smaller depth; so \<open>parse_json\<close> finds every value there is.
\<close>

definition repeats :: "(nat \<Rightarrow> nat \<Rightarrow> (json \<times> string) option) \<Rightarrow> nat \<Rightarrow> string \<Rightarrow> json \<times> string \<Rightarrow> bool" where
  "repeats p d s x \<longleftrightarrow> length (snd x) < length s
     \<and> (\<forall>g e. 2 * (length s - length (snd x)) \<le> g \<longrightarrow> e \<le> d \<longrightarrow> p g e = Some x)"

lemma repeatsI:
  assumes "length r < length s" "\<And>g e. 2 * (length s - length r) \<le> Suc g \<Longrightarrow> e \<le> d \<Longrightarrow> p (Suc g) e = Some (v, r)"
  shows "repeats p d s (v, r)"
  unfolding repeats_def
proof (intro conjI allI impI)
  fix g e :: nat
  assume "2 * (length s - length (snd (v, r))) \<le> g" "e \<le> d"
  then show "p g e = Some (v, r)" using assms by (cases g) auto
qed (use assms in simp)

lemma repeatsD:
  "repeats p d s (v, r) \<Longrightarrow> length r < length s"
  "repeats p d s (v, r) \<Longrightarrow> 2 * (length s - length r) \<le> g \<Longrightarrow> e \<le> d \<Longrightarrow> p g e = Some (v, r)"
  by (simp_all add: repeats_def)

lemma value_repeats:
  assumes elems: "\<And>d acc s x. parse_elems f d acc s = Some x \<Longrightarrow> repeats (\<lambda>g e. parse_elems g e acc s) d s x"
    and members: "\<And>d acc s x. parse_members f d acc s = Some x \<Longrightarrow> repeats (\<lambda>g e. parse_members g e acc s) d s x"
    and p: "parse_value (Suc f) d s = Some (v, r)"
  shows "repeats (\<lambda>g e. parse_value g e s) d s (v, r)"
proof -
  obtain c t where ct: "skip_ws s = c # t" using p by (auto split: list.splits)
  then have len: "Suc (length t) \<le> length s" using skip_ws_shorter [of s] by simp
  consider (arr) d' u where "c = CHR ''[''" "d < maxNestingDepth" "skip_ws t = d' # u" "d' \<noteq> CHR '']''"
      "parse_elems f (d + 1) [] t = Some (v, r)"
    | (obj) d' u where "c = CHR 0x7B" "d < maxNestingDepth" "skip_ws t = d' # u" "d' \<noteq> CHR 0x7D"
      "parse_members f (d + 1) [] t = Some (v, r)"
    | (flat) "length r < length s" "\<And>g e. e \<le> d \<Longrightarrow> parse_value (Suc g) e s = Some (v, r)"
  proof -
    show thesis
    proof (cases "(c = CHR ''['' \<or> c = CHR 0x7B) \<and> (\<exists>d' u. skip_ws t = d' # u \<and> d' \<noteq> (if c = CHR ''['' then CHR '']'' else CHR 0x7D))")
      case True
      then show thesis using p ct arr obj by (auto split: if_splits)
    next
      case False
      have "parse_value (Suc g) e s = Some (v, r)" if "e \<le> d" for g e
        using p ct False that by (auto split: if_splits list.splits)
      moreover have "length r < length s"
        using p ct False len skip_ws_shorter [of t] parse_str_shorter [of t]
          parse_num_shorter [of "c # t" _ r] parse_literal_shorter [of _ _ "c # t" v r]
        by (auto split: if_splits list.splits) (fastforce dest: parse_str_shorter parse_num_shorter parse_literal_shorter)+
      ultimately show thesis by (rule flat [rotated])
    qed
  qed
  then show ?thesis
  proof cases
    case arr
    note r = repeatsD [OF elems [OF arr(5)]]
    show ?thesis using r(1) len
      by (intro repeatsI) (use arr ct r(2) in \<open>simp_all del: parse_elems.simps\<close>)
  next
    case obj
    note r = repeatsD [OF members [OF obj(5)]]
    show ?thesis using r(1) len
      by (intro repeatsI) (use obj ct r(2) in \<open>simp_all del: parse_members.simps\<close>)
  next
    case flat
    then show ?thesis by (intro repeatsI)
  qed
qed


lemma elems_repeats:
  assumes val: "\<And>d s x. parse_value f d s = Some x \<Longrightarrow> repeats (\<lambda>g e. parse_value g e s) d s x"
    and elems: "\<And>d acc s x. parse_elems f d acc s = Some x \<Longrightarrow> repeats (\<lambda>g e. parse_elems g e acc s) d s x"
    and p: "parse_elems (Suc f) d acc s = Some (v, r)"
  shows "repeats (\<lambda>g e. parse_elems g e acc s) d s (v, r)"
proof -
  obtain w r1 where w: "parse_value f d s = Some (w, r1)" using p by (auto split: option.splits)
  note v = repeatsD [OF val [OF w]]
  obtain c t where ct: "skip_ws r1 = c # t" using p w by (auto split: list.splits)
  then have len: "Suc (length t) \<le> length r1" using skip_ws_shorter [of r1] by simp
  show ?thesis
  proof (cases "c = CHR '',''")
    case True
    then have e: "parse_elems f d (acc @ [w]) t = Some (v, r)" using p w ct by simp
    note r = repeatsD [OF elems [OF e]]
    show ?thesis using v(1) len r(1)
      by (intro repeatsI) (use True ct v(2) r(2) in \<open>simp_all del: parse_elems.simps(1) parse_value.simps\<close>)
  next
    case False
    then have "r = t" "v = JArr (acc @ [w])" "c = CHR '']''" using p w ct by (auto split: if_splits)
    then show ?thesis using v(1) len
      by (intro repeatsI) (use False ct v(2) in \<open>simp_all del: parse_value.simps\<close>)
  qed
qed

lemma members_repeats:
  assumes val: "\<And>d s x. parse_value f d s = Some x \<Longrightarrow> repeats (\<lambda>g e. parse_value g e s) d s x"
    and members: "\<And>d acc s x. parse_members f d acc s = Some x \<Longrightarrow> repeats (\<lambda>g e. parse_members g e acc s) d s x"
    and p: "parse_members (Suc f) d acc s = Some (v, r)"
  shows "repeats (\<lambda>g e. parse_members g e acc s) d s (v, r)"
proof -
  obtain q t where q: "skip_ws s = q # t" "q = CHR 0x22" using p by (auto split: list.splits if_splits)
  obtain k r1 where k: "parse_str t = Some (k, r1)" using p q by (auto split: option.splits)
  obtain c u where c: "skip_ws r1 = c # u" "c = CHR '':''" using p q k by (auto split: list.splits if_splits)
  obtain w r2 where w: "parse_value f d u = Some (w, r2)" using p q k c by (auto split: option.splits)
  note v = repeatsD [OF val [OF w]]
  obtain b x where b: "skip_ws r2 = b # x" using p q k c w by (auto split: list.splits)
  have len: "Suc (length t) \<le> length s" "length r1 < length t" "Suc (length u) \<le> length r1" "Suc (length x) \<le> length r2"
    using skip_ws_shorter [of s] skip_ws_shorter [of r1] skip_ws_shorter [of r2] parse_str_shorter [OF k] q c b by simp_all
  show ?thesis
  proof (cases "b = CHR '',''")
    case True
    then have e: "parse_members f d (acc @ [(k, w)]) x = Some (v, r)" using p q k c w b by simp
    note r = repeatsD [OF members [OF e]]
    show ?thesis using v(1) len r(1)
      by (intro repeatsI)
         (use True q k c b v(2) r(2) in \<open>simp_all del: parse_members.simps(1) parse_value.simps\<close>)
  next
    case False
    then have "r = x" "v = JObj (acc @ [(k, w)])" "b = CHR 0x7D" using p q k c w b by (auto split: if_splits)
    then show ?thesis using v(1) len
      by (intro repeatsI) (use False q k c b v(2) in \<open>simp_all del: parse_value.simps\<close>)
  qed
qed

lemma parse_repeats:
  "parse_value f d s = Some x \<Longrightarrow> repeats (\<lambda>g e. parse_value g e s) d s x"
  "parse_elems f d acc s = Some x \<Longrightarrow> repeats (\<lambda>g e. parse_elems g e acc s) d s x"
  "parse_members f d acc' s = Some x \<Longrightarrow> repeats (\<lambda>g e. parse_members g e acc' s) d s x"
proof (induction f arbitrary: d acc acc' s x)
  case 0
  {
    case 1
    then show ?case by simp
  next
    case 2
    then show ?case by simp
  next
    case 3
    then show ?case by simp
  }
next
  case (Suc f)
  {
    case 1
    then show ?case using value_repeats [OF Suc.IH(2,3)] by (cases x) blast
  next
    case 2
    then show ?case using elems_repeats [OF Suc.IH(1,2)] by (cases x) blast
  next
    case 3
    then show ?case using members_repeats [OF Suc.IH(1,3)] by (cases x) blast
  }
qed

text \<open>The fuel of \<open>parse_json\<close> is enough.\<close>

lemma parse_json_complete:
  assumes "parse_value f d s = Some (v, r)"
  shows "parse_json s = Some (v, r)" "length r < length s"
  using repeatsD [OF parse_repeats(1) [OF assms]] by (simp_all add: parse_json_def del: parse_value.simps)

section \<open>Members as they stand\<close>

text \<open>
  The members of an object, after the opening brace: names decoded, values as the bytes from their
  first to their last.
\<close>

fun raw_members :: "nat \<Rightarrow> string \<Rightarrow> (string \<times> string) list option" where
  "raw_members 0 s = None"
| "raw_members (Suc f) s =
     (case skip_ws s of
        [] \<Rightarrow> None
      | q # t \<Rightarrow>
          if q \<noteq> CHR 0x22 then None
          else
            (case parse_str t of
               None \<Rightarrow> None
             | Some (k, r) \<Rightarrow>
                 (case skip_ws r of
                    [] \<Rightarrow> None
                  | c # u \<Rightarrow>
                      if c \<noteq> CHR '':'' then None
                      else
                        let v = skip_ws u in
                        (case parse_json v of
                           None \<Rightarrow> None
                         | Some (_, w) \<Rightarrow>
                             let m = (k, take (length v - length w) v) in
                             (case skip_ws w of
                                [] \<Rightarrow> None
                              | d # x \<Rightarrow>
                                  if d = CHR '','' then map_option ((#) m) (raw_members f x)
                                  else if d = CHR 0x7D then Some [m]
                                  else None)))))"

definition members_of :: "string \<Rightarrow> (string \<times> string) list option" where
  "members_of s =
     (case skip_ws s of
        [] \<Rightarrow> None
      | c # t \<Rightarrow>
          if c \<noteq> CHR 0x7B then None
          else
            (case skip_ws t of
               [] \<Rightarrow> None
             | d # u \<Rightarrow> if d = CHR 0x7D then Some [] else raw_members (length t) t))"

lemma skip_ws_idem [simp]: "skip_ws (skip_ws s) = skip_ws s"
  by (induction s) auto

lemma parse_value_skip [simp]: "parse_value f d (skip_ws s) = parse_value f d s"
  by (cases f) simp_all

lemma members_total:
  "parse_members f d acc s = Some (v, r) \<Longrightarrow> length s \<le> g \<Longrightarrow>
     \<exists>js ms. v = JObj (acc @ js) \<and> raw_members g s = Some ms \<and> map fst ms = map fst js"
proof (induction f arbitrary: acc s g)
  case 0
  then show ?case by simp
next
  case (Suc f)
  note p = Suc.prems(1)
  obtain q t where q: "skip_ws s = q # t" "q = CHR 0x22" using p by (auto split: list.splits if_splits)
  obtain k r1 where k: "parse_str t = Some (k, r1)" using p q by (auto split: option.splits)
  obtain c u where c: "skip_ws r1 = c # u" "c = CHR '':''" using p q k by (auto split: list.splits if_splits)
  obtain w r2 where w: "parse_value f d u = Some (w, r2)" using p q k c by (auto split: option.splits)
  then have j: "parse_json (skip_ws u) = Some (w, r2)" using parse_json_complete(1) [of f d "skip_ws u"] by simp
  obtain b x where b: "skip_ws r2 = b # x" using p q k c w by (auto split: list.splits)
  have len: "length x < length s"
    using skip_ws_shorter [of s] skip_ws_shorter [of r1] skip_ws_shorter [of r2] parse_str_shorter [OF k]
      parse_json_complete(2) [OF w] q c b by simp
  then obtain h where h: "g = Suc h" "length x \<le> h" using Suc.prems(2) by (cases g) auto
  show ?case
  proof (cases "b = CHR '',''")
    case True
    then have "parse_members f d (acc @ [(k, w)]) x = Some (v, r)" using p q k c w b by simp
    from Suc.IH [OF this h(2)] show ?thesis using True q k c b j unfolding h(1) by (auto simp: Let_def)
  next
    case False
    then have "v = JObj (acc @ [(k, w)])" "b = CHR 0x7D" using p q k c w b by (auto split: if_splits)
    then show ?thesis using False q k c b j unfolding h(1) by (auto simp: Let_def)
  qed
qed

lemma elems_array: "parse_elems f d acc s = Some (v, r) \<Longrightarrow> \<exists>js. v = JArr js"
  by (induction f arbitrary: acc s) (auto split: option.splits list.splits if_splits)

text \<open>Every object that the parser takes has its members.\<close>

lemma members_of_total:
  assumes "parse_value f d s = Some (JObj js, r)"
  shows "\<exists>ms. members_of s = Some ms \<and> map fst ms = map fst js"
proof -
  obtain g where g: "f = Suc g" using assms by (cases f) auto
  obtain c t where ct: "skip_ws s = c # t" using assms g by (auto split: list.splits)
  show ?thesis
  proof (cases "c = CHR 0x7B")
    case True
    then obtain d' u where u: "skip_ws t = d' # u" using assms g ct by (auto split: if_splits list.splits)
    show ?thesis
    proof (cases "d' = CHR 0x7D")
      case False
      then have "parse_members g (Suc d) [] t = Some (JObj js, r)" using assms g ct True u by (auto split: if_splits)
      from members_total [OF this order_refl] show ?thesis using ct True u False by (auto simp: members_of_def)
    qed (use assms g ct True u in \<open>auto simp: members_of_def split: if_splits\<close>)
  next
    case False
    then show ?thesis using assms g ct by (auto simp: parse_literal_def dest: elems_array split: if_splits list.splits)
  qed
qed

section \<open>Texts that read back\<close>

text \<open>What can follow a value: the end, or a delimiter.\<close>

definition value_end :: "string \<Rightarrow> bool" where
  "value_end r \<longleftrightarrow> (case r of [] \<Rightarrow> True | c # _ \<Rightarrow> c \<in> {CHR '','', CHR '']'', CHR 0x7D, CHR 0x0A})"

definition value_of :: "string \<Rightarrow> json" where
  "value_of s = fst (the (parse_json s))"

text \<open>A text without surrounding space that is one value of nesting \<open>n\<close> wherever it stands.\<close>

definition reads :: "nat \<Rightarrow> string \<Rightarrow> bool" where
  "reads n v \<longleftrightarrow> v \<noteq> [] \<and> skip_ws v = v \<and> (\<forall>d r. d + n \<le> maxNestingDepth \<longrightarrow> value_end r \<longrightarrow>
     (\<exists>f. parse_value f d (v @ r) = Some (value_of v, r)))"

lemma readsD:
  assumes "reads n v" "d + n \<le> maxNestingDepth" "value_end r" "2 * length v \<le> g"
  shows "parse_value g d (v @ r) = Some (value_of v, r)"
proof -
  obtain f where "parse_value f d (v @ r) = Some (value_of v, r)" using assms(1-3) unfolding reads_def by blast
  from repeatsD(2) [OF parse_repeats(1) [OF this]] show ?thesis using assms(4) by simp
qed

lemma reads_head: "reads n v \<Longrightarrow> v \<noteq> [] \<and> skip_ws (v @ r) = v @ r"
  using skip_ws_shorter [of "tl v"] unfolding reads_def by (cases v) (auto split: if_splits)

lemma reads_parse: "reads n v \<Longrightarrow> n \<le> maxNestingDepth \<Longrightarrow> value_end r \<Longrightarrow> parse_json (v @ r) = Some (value_of v, r)"
  by (rule parse_json_complete(1) [OF readsD [where d = 0, OF _ _ _ order_refl]]) simp_all

lemma readsI:
  assumes "v \<noteq> []" "skip_ws v = v"
    "\<And>d r. d + n \<le> maxNestingDepth \<Longrightarrow> value_end r \<Longrightarrow> \<exists>f. parse_value f d (v @ r) = Some (j, r)"
    "n \<le> maxNestingDepth"
  shows "reads n v" "value_of v = j"
proof -
  obtain f where "parse_value f 0 (v @ []) = Some (j, [])" using assms(3) [of 0 "[]"] assms(4) by (auto simp: value_end_def)
  then show j: "value_of v = j" using parse_json_complete(1) [of f 0 v j "[]"] by (simp add: value_of_def)
  show "reads n v" unfolding reads_def j using assms by blast
qed

lemma reads_mono: "reads n v \<Longrightarrow> n \<le> m \<Longrightarrow> reads m v"
  unfolding reads_def by (meson add_left_mono le_trans)

lemma reads_string:
  assumes "utf8_valid x"
  shows "reads 0 (marshal_string x)" "value_of (marshal_string x) = JStr x"
proof -
  have v: "\<exists>f. parse_value f d (marshal_string x @ r) = Some (JStr x, r)" for d r
    using parse_value_string [OF assms, of 0 d r] by blast
  have s: "marshal_string x \<noteq> []" "skip_ws (marshal_string x) = marshal_string x" by (simp_all add: marshal_string_def)
  show "reads 0 (marshal_string x)" "value_of (marshal_string x) = JStr x"
    using readsI [OF s, of 0 "JStr x"] v by simp_all
qed

lemma reads_null: "reads 0 ''null''" "value_of ''null'' = JNull"
proof -
  have v: "\<exists>f. parse_value f d (''null'' @ r) = Some (JNull, r)" for d r
    by (rule exI [of _ "Suc 0"]) (simp add: parse_literal_def HasPrefix_def)
  have s: "''null'' \<noteq> []" "skip_ws ''null'' = ''null''" by simp_all
  show "reads 0 ''null''" "value_of ''null'' = JNull" using readsI [OF s, of 0 JNull] v by simp_all
qed

section \<open>Objects\<close>

definition raw_member :: "string \<times> string \<Rightarrow> string" where
  "raw_member m = marshal_string (fst m) @ CHR '':'' # snd m"

fun raw_rest :: "(string \<times> string) list \<Rightarrow> string" where
  "raw_rest [] = [CHR 0x7D]"
| "raw_rest (m # ms) = CHR '','' # raw_member m @ raw_rest ms"

fun raw_object :: "(string \<times> string) list \<Rightarrow> string" where
  "raw_object [] = [CHR 0x7B, CHR 0x7D]"
| "raw_object (m # ms) = CHR 0x7B # raw_member m @ raw_rest ms"

definition members_read :: "nat \<Rightarrow> (string \<times> string) list \<Rightarrow> bool" where
  "members_read n ms \<longleftrightarrow> (\<forall>m\<in>set ms. utf8_valid (fst m) \<and> reads n (snd m))"

definition json_members :: "(string \<times> string) list \<Rightarrow> (string \<times> json) list" where
  "json_members = map (\<lambda>m. (fst m, value_of (snd m)))"

lemma members_read_simps [simp]:
  "members_read n []" "members_read n (m # ms) \<longleftrightarrow> utf8_valid (fst m) \<and> reads n (snd m) \<and> members_read n ms"
  "members_read n (xs @ ys) \<longleftrightarrow> members_read n xs \<and> members_read n ys"
  "json_members [] = []" "json_members (m # ms) = (fst m, value_of (snd m)) # json_members ms"
  by (auto simp: members_read_def json_members_def)

lemma raw_member_head: "raw_member m @ x = CHR 0x22 # (escape_text (fst m) @ CHR 0x22 # CHR '':'' # snd m @ x)"
  by (simp add: raw_member_def marshal_string_def)

lemma parse_raw_member:
  assumes "utf8_valid (fst m)" "reads n (snd m)" "d + n \<le> maxNestingDepth" "2 * length (snd m) \<le> g"
    and "c = CHR '','' \<or> c = CHR 0x7D"
  shows "parse_members (Suc g) d acc (raw_member m @ c # x) =
    (if c = CHR '','' then parse_members g d (acc @ [(fst m, value_of (snd m))]) x
     else Some (JObj (acc @ [(fst m, value_of (snd m))]), x))"
proof -
  have "parse_value g d (snd m @ c # x) = Some (value_of (snd m), c # x)"
    using assms(5) by (intro readsD [OF assms(2,3) _ assms(4)]) (auto simp: value_end_def)
  then show ?thesis using assms(5) unfolding raw_member_head
    by (subst parse_members.simps)
       (auto simp: parse_str_escape [OF assms(1)] simp del: parse_members.simps parse_value.simps)
qed

lemma length_raw_member: "2 * length (snd m) + 6 \<le> 2 * length (raw_member m)"
  by (simp add: raw_member_def marshal_string_def)

lemma parse_raw_members:
  "members_read n (m # ms) \<Longrightarrow> d + n \<le> maxNestingDepth \<Longrightarrow> 2 * length (raw_member m @ raw_rest ms) \<le> f \<Longrightarrow>
   parse_members f d acc (raw_member m @ raw_rest ms @ r) = Some (JObj (acc @ json_members (m # ms)), r)"
proof (induction ms arbitrary: m f acc)
  case Nil
  then obtain g where "f = Suc g" "2 * length (snd m) \<le> g" using length_raw_member [of m] by (cases f) auto
  with Nil show ?case using parse_raw_member [of m n d g "CHR 0x7D" acc r] by simp
next
  case (Cons k ms)
  then obtain g where f: "f = Suc g" "2 * length (snd m) \<le> g" "2 * length (raw_member k @ raw_rest ms) \<le> g"
    using length_raw_member [of m] by (cases f) auto
  have "parse_members g d (acc @ [(fst m, value_of (snd m))]) (raw_member k @ raw_rest ms @ r)
      = Some (JObj ((acc @ [(fst m, value_of (snd m))]) @ json_members (k # ms)), r)"
    using Cons.prems f(3) by (intro Cons.IH) simp_all
  then show ?case using Cons.prems parse_raw_member [of m n d g "CHR '',''" acc "raw_member k @ raw_rest ms @ r"] f(1,2)
    by (simp del: parse_members.simps)
qed

lemma raw_members_back:
  "members_read n (m # ms) \<Longrightarrow> n \<le> maxNestingDepth \<Longrightarrow> length (raw_member m @ raw_rest ms) \<le> f \<Longrightarrow>
   raw_members f (raw_member m @ raw_rest ms @ r) = Some (m # ms)"
proof (induction ms arbitrary: m f)
  case Nil
  then obtain g where "f = Suc g" using length_raw_member [of m] by (cases f) auto
  moreover have "parse_json (snd m @ CHR 0x7D # r) = Some (value_of (snd m), CHR 0x7D # r)"
    using Nil by (intro reads_parse) (auto simp: value_end_def)
  ultimately show ?case using Nil reads_head [of n "snd m" "CHR 0x7D # r"]
    by (simp add: raw_member_head parse_str_escape Let_def)
next
  case (Cons k ms)
  let ?x = "raw_member k @ raw_rest ms @ r"
  obtain g where f: "f = Suc g" "length (raw_member k @ raw_rest ms) \<le> g"
    using Cons.prems length_raw_member [of m] by (cases f) auto
  have "parse_json (snd m @ CHR '','' # ?x) = Some (value_of (snd m), CHR '','' # ?x)"
    using Cons.prems by (intro reads_parse) (auto simp: value_end_def)
  moreover have "raw_members g ?x = Some (k # ms)" using Cons.prems f(2) by (intro Cons.IH) simp_all
  ultimately show ?case using Cons.prems reads_head [of n "snd m" "CHR '','' # ?x"] f(1)
    by (simp add: raw_member_head [of m] parse_str_escape Let_def)
qed

text \<open>An object whose members read back reads back, with its members as they stand.\<close>

lemma members_of_object:
  assumes "members_read n ms" "n \<le> maxNestingDepth"
  shows "members_of (raw_object ms @ r) = Some ms"
proof (cases ms)
  case Nil
  then show ?thesis by (simp add: members_of_def)
next
  case (Cons m ns)
  have "raw_members (length (raw_member m @ raw_rest ns @ r)) (raw_member m @ raw_rest ns @ r) = Some (m # ns)"
    using assms Cons by (intro raw_members_back) simp_all
  then show ?thesis using Cons by (simp add: members_of_def raw_member_head [of m])
qed

lemma reads_object:
  assumes "members_read n ms" "Suc n \<le> maxNestingDepth"
  shows "reads (Suc n) (raw_object ms)" "value_of (raw_object ms) = JObj (json_members ms)"
proof -
  have v: "\<exists>f. parse_value f d (raw_object ms @ r) = Some (JObj (json_members ms), r)" if "d + Suc n \<le> maxNestingDepth" for d r
  proof (cases ms)
    case Nil
    have "parse_value (Suc 0) d (raw_object ms @ r) = Some (JObj (json_members ms), r)" using that Nil by simp
    then show ?thesis by blast
  next
    case (Cons m ns)
    let ?f = "2 * length (raw_member m @ raw_rest ns)"
    have "parse_members ?f (Suc d) [] (raw_member m @ raw_rest ns @ r) = Some (JObj (json_members ms), r)"
      using parse_raw_members [of n m ns "Suc d" ?f "[]" r] assms that Cons by simp
    then have "parse_value (Suc ?f) d (raw_object ms @ r) = Some (JObj (json_members ms), r)"
      using that Cons by (simp add: raw_member_head [of m] del: parse_members.simps)
    then show ?thesis by blast
  qed
  have s: "raw_object ms \<noteq> []" "skip_ws (raw_object ms) = raw_object ms" by (cases ms; simp)+
  show "reads (Suc n) (raw_object ms)" "value_of (raw_object ms) = JObj (json_members ms)"
    using readsI [OF s, of "Suc n" "JObj (json_members ms)"] v assms(2) by simp_all
qed

section \<open>Arrays\<close>

fun raw_more :: "string list \<Rightarrow> string" where
  "raw_more [] = '']''"
| "raw_more (v # vs) = CHR '','' # v @ raw_more vs"

fun raw_array :: "string list \<Rightarrow> string" where
  "raw_array [] = ''[]''"
| "raw_array (v # vs) = CHR ''['' # v @ raw_more vs"

lemma raw_array_strings: "marshal_strings xs = raw_array (map marshal_string xs)"
proof -
  have "marshal_rest ys = raw_more (map marshal_string ys)" for ys by (induction ys) simp_all
  then show ?thesis by (cases xs) simp_all
qed

lemma parse_raw_elems:
  "\<forall>u\<in>set (v # vs). reads n u \<Longrightarrow> d + n \<le> maxNestingDepth \<Longrightarrow> 2 * length (v @ raw_more vs) \<le> f \<Longrightarrow>
   parse_elems f d acc (v @ raw_more vs @ r) = Some (JArr (acc @ map value_of (v # vs)), r)"
proof (induction vs arbitrary: v f acc)
  case Nil
  then obtain g where f: "f = Suc g" "2 * length v \<le> g" by (cases f) auto
  have "parse_value g d (v @ CHR '']'' # r) = Some (value_of v, CHR '']'' # r)"
    using Nil.prems by (intro readsD [OF _ _ _ f(2)]) (simp_all add: value_end_def)
  then show ?case unfolding f(1) by (simp del: parse_value.simps)
next
  case (Cons u vs)
  then obtain g where f: "f = Suc g" "2 * length v \<le> g" "2 * length (u @ raw_more vs) \<le> g" by (cases f) auto
  have "parse_value g d (v @ CHR '','' # u @ raw_more vs @ r) = Some (value_of v, CHR '','' # u @ raw_more vs @ r)"
    using Cons.prems by (intro readsD [OF _ _ _ f(2)]) (simp_all add: value_end_def)
  moreover have "parse_elems g d (acc @ [value_of v]) (u @ raw_more vs @ r)
      = Some (JArr ((acc @ [value_of v]) @ map value_of (u # vs)), r)"
    using Cons.prems f(3) by (intro Cons.IH) simp_all
  ultimately show ?case unfolding f(1) by (simp del: parse_value.simps parse_elems.simps(1))
qed

lemma reads_array:
  assumes "\<forall>v\<in>set vs. reads n v" "Suc n \<le> maxNestingDepth" "\<forall>v\<in>set vs. hd v \<noteq> CHR '']''"
  shows "reads (Suc n) (raw_array vs)" "value_of (raw_array vs) = JArr (map value_of vs)"
proof -
  have v: "\<exists>f. parse_value f d (raw_array vs @ r) = Some (JArr (map value_of vs), r)" if "d + Suc n \<le> maxNestingDepth" for d r
  proof (cases vs)
    case Nil
    have "parse_value (Suc 0) d (raw_array vs @ r) = Some (JArr (map value_of vs), r)" using that Nil by simp
    then show ?thesis by blast
  next
    case (Cons u us)
    let ?f = "2 * length (u @ raw_more us)"
    have "parse_elems ?f (Suc d) [] (u @ raw_more us @ r) = Some (JArr (map value_of vs), r)"
      using parse_raw_elems [of u us n "Suc d" ?f "[]" r] assms that Cons by simp
    moreover obtain c t where "u = c # t" "c \<noteq> CHR '']''"
      using reads_head [of n u] assms(1,3) Cons by (cases u) auto
    moreover have "skip_ws (u @ raw_more us @ r) = u @ raw_more us @ r"
      using reads_head [of n u] assms(1) Cons by simp
    ultimately have "parse_value (Suc ?f) d (raw_array vs @ r) = Some (JArr (map value_of vs), r)"
      using that Cons by (simp del: parse_elems.simps)
    then show ?thesis by blast
  qed
  have s: "raw_array vs \<noteq> []" "skip_ws (raw_array vs) = raw_array vs" by (cases vs; simp)+
  show "reads (Suc n) (raw_array vs)" "value_of (raw_array vs) = JArr (map value_of vs)"
    using readsI [OF s, of "Suc n" "JArr (map value_of vs)"] v assms(2) by simp_all
qed

lemma reads_strings:
  assumes "\<forall>x\<in>set xs. utf8_valid x"
  shows "reads 1 (marshal_strings xs)" "value_of (marshal_strings xs) = JArr (map JStr xs)"
proof -
  have "\<forall>v\<in>set (map marshal_string xs). reads 0 v" "\<forall>v\<in>set (map marshal_string xs). hd v \<noteq> CHR '']''"
    using assms reads_string(1) by (auto simp: marshal_string_def)
  note a = reads_array [OF this(1) _ this(2)]
  have "map value_of (map marshal_string xs) = map JStr xs" using assms reads_string(2) by simp
  then show "reads 1 (marshal_strings xs)" "value_of (marshal_strings xs) = JArr (map JStr xs)"
    using a unfolding raw_array_strings by (simp_all add: maxNestingDepth_def)
qed

section \<open>Decoded texts are valid UTF-8\<close>

text \<open>A complete character.\<close>

definition rune :: "string \<Rightarrow> bool" where
  "rune p \<longleftrightarrow> p \<noteq> [] \<and> (\<forall>a. rune_len (p @ a) = length p)"

lemma utf8_rune: "rune p \<Longrightarrow> utf8_valid (p @ a) \<longleftrightarrow> utf8_valid a"
  unfolding rune_def by (subst utf8_valid.simps) auto

lemma rune_ascii: "ord c < 0x80 \<Longrightarrow> rune [c]"
  by (simp add: rune_def)

lemma utf8_nil [simp]: "utf8_valid []"
  by (subst utf8_valid.simps) simp

lemma ascii_utf8: "list_all (\<lambda>c. ord c < 0x80) s \<Longrightarrow> utf8_valid s"
proof (induction s)
  case (Cons c s)
  then show ?case using utf8_rune [OF rune_ascii, of c s] by simp
qed simp

lemma hex_ascii: "list_all (\<lambda>c. ord c < 0x80) (EncodeToString bs)"
proof -
  have "\<forall>c\<in>set hextable. ord c < 0x80" by (simp add: hextable_def)
  moreover have "hextable ! unat (drop_bit 4 b) \<in> set hextable" "hextable ! unat (b AND 15) \<in> set hextable" for b :: byte
    using unat_nibbles(1,2) [of b] by (auto simp: hextable_def simp del: list.set intro!: nth_mem)
  ultimately show ?thesis by (auto simp: EncodeToString_def hex_byte_def list_all_iff)
qed

lemma rune_replacement: "rune replacement"
  by (simp add: rune_def replacement_def)

lemma rune_taken: "rune_len s \<noteq> 0 \<Longrightarrow> rune (take (rune_len s) s)"
  using rune_len_pos_cases [of s] rune_len_le [of s] unfolding rune_def by fastforce

lemma rune_encoded: "rune (EncodeRune r)"
proof -
  consider "r < 0x80" | "0x80 \<le> r" "r < 0x800" | "0xD800 \<le> r \<and> r \<le> 0xDFFF \<or> 0x10FFFF < r"
    | "0x800 \<le> r" "r < 0x10000" "\<not> (0xD800 \<le> r \<and> r \<le> 0xDFFF)" | "0x10000 \<le> r" "r \<le> 0x10FFFF" by linarith
  then show ?thesis
  proof cases
    case 1
    then show ?thesis by (simp add: EncodeRune_def rune_def)
  next
    case 2
    then have "2 \<le> r div 64" "r div 64 < 32" by (simp_all add: div_less_iff_less_mult less_eq_div_iff_mult_less_eq)
    moreover have "r mod 64 < 64" by simp
    ultimately show ?thesis using 2 by (simp add: EncodeRune_def rune_def)
  next
    case 3
    then show ?thesis using rune_replacement by (auto simp: EncodeRune_def)
  next
    case 4
    have q: "r div 4096 = r div 64 div 64" by (simp flip: div_mult2_eq)
    have m: "r div 64 = 64 * (r div 4096) + r div 64 mod 64" unfolding q by simp
    have "r = 64 * (r div 64) + r mod 64" "r mod 64 \<le> 63" "r div 64 mod 64 \<le> 63" by simp_all
    moreover have "0 < r div 4096 \<or> 32 \<le> r div 64" using 4 by (simp add: less_eq_div_iff_mult_less_eq)
    moreover have "r div 4096 < 16" using 4 by (simp add: div_less_iff_less_mult)
    moreover have "r div 64 mod 64 \<le> 31" if "r div 4096 = 13" using calculation(1,2) m that 4 by linarith
    ultimately show ?thesis using 4 by (auto simp: EncodeRune_def rune_def)
  next
    case 5
    have q: "r div 262144 = r div 4096 div 64" by (simp flip: div_mult2_eq)
    have m: "r div 4096 = 64 * (r div 262144) + r div 4096 mod 64" unfolding q by simp
    have "r = 4096 * (r div 4096) + r mod 4096" "r mod 4096 < 4096" by simp_all
    moreover have "r mod 64 \<le> 63" "r div 64 mod 64 \<le> 63" "r div 4096 mod 64 \<le> 63" "r div 262144 < 5"
      using 5 by (simp_all add: div_less_iff_less_mult)
    moreover have "r div 4096 mod 64 \<ge> 16" if "r div 262144 = 0" using calculation(1,2) m that 5 by linarith
    moreover have "r div 4096 mod 64 \<le> 15" if "r div 262144 = 4" using calculation(1,2) m that 5 by linarith
    ultimately show ?thesis using 5 by (auto simp: EncodeRune_def rune_def)
  qed
qed

lemma parse_str_valid: "parse_str t = Some (x, r) \<Longrightarrow> utf8_valid x"
proof (induction "length t" arbitrary: t x r rule: less_induct)
  case less
  have IH: "utf8_valid x" if "emit p (parse_str s) = Some (x, r)" "length s < length t" "rune p" for p s r x
    using less.hyps that utf8_rune unfolding emit_eq by fastforce
  show ?case
  proof (cases t)
    case Nil
    then show ?thesis using less.prems by (subst (asm) parse_str.simps) simp
  next
    case (Cons c u)
    note IH = IH [unfolded Cons]
    have esc: "rune [e]" if "simple_escape b = Some e" for b e
      using that by (intro rune_ascii) (auto simp: simple_escape_def split: if_splits)
    have taken: "rune (take (rune_len (c # u)) (c # u))" if "rune_len (c # u) \<noteq> 0"
      using rune_taken [OF that] .
    have nil: "utf8_valid []" by (subst utf8_valid.simps) simp
    show ?thesis using less.prems unfolding Cons
      apply (subst (asm) parse_str.simps)
      apply (simp add: Let_def nil del: length_drop rune_len.simps split: if_splits list.splits option.splits)
      apply (auto dest!: IH simp del: rune_len.simps simp: esc rune_replacement rune_encoded taken nil)
      done
  qed
qed

text \<open>All texts of a value, names included, are valid.\<close>

primrec json_utf8 :: "json \<Rightarrow> bool" where
  "json_utf8 JNull = True"
| "json_utf8 (JBool b) = True"
| "json_utf8 (JNum s) = True"
| "json_utf8 (JStr s) = utf8_valid s"
| "json_utf8 (JArr js) = list_all id (map json_utf8 js)"
| "json_utf8 (JObj ms) = list_all (\<lambda>m. utf8_valid (fst m) \<and> snd m) (map (map_prod id json_utf8) ms)"

lemma parsed_utf8:
  "parse_value f d s = Some (v, r) \<Longrightarrow> json_utf8 v"
  "list_all json_utf8 acc \<Longrightarrow> parse_elems f d acc s = Some (v, r) \<Longrightarrow> json_utf8 v"
  "list_all (\<lambda>m. utf8_valid (fst m) \<and> json_utf8 (snd m)) acc' \<Longrightarrow> parse_members f d acc' s = Some (v, r) \<Longrightarrow> json_utf8 v"
proof (induction f arbitrary: d acc acc' s v r)
  case 0
  {
    case 1
    then show ?case by simp
  next
    case 2
    then show ?case by simp
  next
    case 3
    then show ?case by simp
  }
next
  case (Suc f)
  {
    case 1
    then show ?case using Suc.IH(2) [of "[]"] Suc.IH(3) [of "[]"]
      by (auto simp: parse_literal_def parse_str_valid split: list.splits if_splits)
  next
    case 2
    note p = 2(2)
    obtain w r1 where w: "parse_value f d s = Some (w, r1)" using p by (auto split: option.splits)
    have acc: "list_all json_utf8 (acc @ [w])" using 2(1) Suc.IH(1) [OF w] by simp
    obtain c t where c: "skip_ws r1 = c # t" using p w by (auto split: list.splits)
    consider "parse_elems f d (acc @ [w]) t = Some (v, r)" | "v = JArr (acc @ [w])" using p w c by (auto split: if_splits)
    then show ?case using Suc.IH(2) [OF acc] acc by cases (auto simp: list_all_iff)
  next
    case 3
    note p = 3(2)
    obtain q t where q: "skip_ws s = q # t" "q = CHR 0x22" using p by (auto split: list.splits if_splits)
    obtain k r1 where k: "parse_str t = Some (k, r1)" using p q by (auto split: option.splits)
    obtain c u where c: "skip_ws r1 = c # u" "c = CHR '':''" using p q k by (auto split: list.splits if_splits)
    obtain w r2 where w: "parse_value f d u = Some (w, r2)" using p q k c by (auto split: option.splits)
    have acc: "list_all (\<lambda>m. utf8_valid (fst m) \<and> json_utf8 (snd m)) (acc' @ [(k, w)])"
      using 3(1) Suc.IH(1) [OF w] parse_str_valid [OF k] by simp
    obtain b x where b: "skip_ws r2 = b # x" using p q k c w by (auto split: list.splits)
    consider "parse_members f d (acc' @ [(k, w)]) x = Some (v, r)" | "v = JObj (acc' @ [(k, w)])"
      using p q k c w b by (auto split: if_splits)
    then show ?case using Suc.IH(3) [OF acc] acc by cases (auto simp: list_all_iff)
  }
qed

lemma value_of_utf8: "parse_json s = Some x \<Longrightarrow> json_utf8 (value_of s)"
  using parsed_utf8(1) [of _ 0 s "fst x" "snd x"] by (simp add: parse_json_def value_of_def del: parse_value.simps)

end
