(* ===== verification/Rfc3339.thy ===== *)
theory Rfc3339
  imports Protocol Nano_Amount "HOL-Library.Monad_Syntax"
begin

text \<open>
  Points in time as Go's package \<^verbatim>\<open>time\<close> writes and reads them in JSON: RFC 3339 with nanoseconds. A
  stamp is an instant, in nanoseconds since 1970 in UTC, with the offset in minutes of the zone it is shown in.
  \<open>stamp_text\<close> is \<^verbatim>\<open>Time.MarshalJSON\<close>, which refuses years outside 0 to 9999 and offsets of 24 hours;
  \<open>parse_stamp\<close> is \<^verbatim>\<open>Time.UnmarshalJSON\<close>, which also takes a one-digit hour, a decimal comma and
  offsets up to 24:60, and cuts the fraction off after nine digits.
\<close>

section \<open>The calendar\<close>

definition leap :: "nat \<Rightarrow> bool" where
  "leap y \<longleftrightarrow> 4 dvd y \<and> (\<not> 100 dvd y \<or> 400 dvd y)"

definition year_days :: "nat \<Rightarrow> nat" where
  "year_days y = (if leap y then 366 else 365)"

definition month_days :: "nat \<Rightarrow> nat \<Rightarrow> nat" where
  "month_days y m = (if m = 2 then (if leap y then 29 else 28) else if m \<in> {4, 6, 9, 11} then 30 else 31)"

text \<open>The period, from \<open>i\<close> on, in which day \<open>n\<close> falls, and the days before it; the days of the periods before.\<close>

function peel :: "(nat \<Rightarrow> nat) \<Rightarrow> nat \<Rightarrow> nat \<Rightarrow> nat \<times> nat" where
  "peel len i n = (if len i = 0 \<or> n < len i then (i, n) else peel len (Suc i) (n - len i))"
  by pat_completeness auto
termination
  by (relation "measure (\<lambda>(len, i, n). n)") auto

declare peel.simps [simp del]

definition days_before :: "(nat \<Rightarrow> nat) \<Rightarrow> nat \<Rightarrow> nat \<Rightarrow> nat" where
  "days_before len a i = sum_list (map len [a..<i])"

lemma days_before_first: "a < i \<Longrightarrow> days_before len a i = len a + days_before len (Suc a) i"
  by (simp add: days_before_def upt_conv_Cons)

lemma days_before_mono: "a \<le> i \<Longrightarrow> i \<le> j \<Longrightarrow> days_before len a i \<le> days_before len a j"
  using upt_add_eq_append [of a i "j - i"] by (simp add: days_before_def)

lemma peel_days:
  assumes "\<And>i. 0 < len i"
  shows "peel len a n = (i, r) \<Longrightarrow> a \<le> i \<and> days_before len a i + r = n \<and> r < len i"
proof (induction n arbitrary: a rule: less_induct)
  case (less n)
  show ?case
  proof (cases "n < len a")
    case True
    then show ?thesis using less.prems assms [of a] by (simp add: peel.simps [of len a] days_before_def)
  next
    case False
    then have "peel len (Suc a) (n - len a) = (i, r)" "n - len a < n"
      using less.prems assms [of a] by (simp_all add: peel.simps [of len a])
    then show ?thesis
      using less.IH [of "n - len a" "Suc a"] False days_before_first [of a i len] by (auto simp: Suc_le_eq)
  qed
qed

text \<open>The date of a day, counted from the first of January of the year 0; and back.\<close>

definition civil_date :: "nat \<Rightarrow> nat \<times> nat \<times> nat" where
  "civil_date n = (let (y, r) = peel year_days 0 n; (m, d) = peel (month_days y) 1 r in (y, m, d + 1))"

definition day_number :: "nat \<Rightarrow> nat \<Rightarrow> nat \<Rightarrow> nat" where
  "day_number y m d = days_before year_days 0 y + days_before (month_days y) 1 m + (d - 1)"

lemma year_of_months: "days_before (month_days y) 1 13 = year_days y"
proof -
  have "[1..<13] = [1, 2, 3, 4, 5, 6, 7, 8, 9, 10, 11, 12 :: nat]" by code_simp
  then show ?thesis by (simp add: days_before_def month_days_def year_days_def)
qed

lemma civil_date_day:
  assumes "civil_date n = (y, m, d)"
  shows "day_number y m d = n" "1 \<le> m" "m \<le> 12" "1 \<le> d" "d \<le> month_days y m"
proof -
  obtain r where y: "peel year_days 0 n = (y, r)" and m: "peel (month_days y) 1 r = (m, d - 1)" "1 \<le> d"
    using assms by (auto simp: civil_date_def Let_def split: prod.splits)
  have pos: "0 < year_days i" "0 < month_days y i" for i by (simp_all add: year_days_def month_days_def)
  from peel_days [of year_days, OF pos(1) y] have yr: "days_before year_days 0 y + r = n" "r < year_days y" by simp_all
  from peel_days [of "month_days y", OF pos(2) m(1)]
  have mr: "1 \<le> m" "days_before (month_days y) 1 m + (d - 1) = r" "d - 1 < month_days y m" by simp_all
  show "day_number y m d = n" using yr(1) mr(2) by (simp add: day_number_def)
  show "1 \<le> m" "1 \<le> d" "d \<le> month_days y m" using mr m(2) by simp_all
  show "m \<le> 12"
  proof (rule ccontr)
    assume "\<not> m \<le> 12"
    then have "year_days y \<le> days_before (month_days y) 1 m"
      using days_before_mono [of 1 13 m "month_days y"] year_of_months by simp
    then show False using yr(2) mr(2) by simp
  qed
qed

section \<open>Writing\<close>

text \<open>The last \<open>k\<close> digits of a number.\<close>

fun fixed :: "nat \<Rightarrow> nat \<Rightarrow> string" where
  "fixed 0 n = []"
| "fixed (Suc k) n = fixed k (n div 10) @ [digit_char (int (n mod 10))]"

definition strip_zeros :: "string \<Rightarrow> string" where
  "strip_zeros s = rev (dropWhile (\<lambda>c. c = CHR ''0'') (rev s))"

definition fraction_text :: "nat \<Rightarrow> string" where
  "fraction_text n = (if n = 0 then [] else CHR ''.'' # strip_zeros (fixed 9 n))"

definition zone_text :: "int \<Rightarrow> string" where
  "zone_text z =
     (if z = 0 then ''Z''
      else (if z < 0 then CHR ''-'' else CHR ''+'') # fixed 2 (nat \<bar>z\<bar> div 60) @ CHR '':'' # fixed 2 (nat \<bar>z\<bar> mod 60))"

definition second :: int where
  "second = 10 ^ 9"

text \<open>The days from the first of January of the year 0 to that of 1970.\<close>

definition epoch_day :: int where
  "epoch_day = 719528"

definition stamp_text :: "stamp \<Rightarrow> string option" where
  "stamp_text = (\<lambda>(t, z).
     (let local = t + z * 60 * second;
          secs = local div second;
          n = nat (local mod second);
          s = nat (secs mod 86400);
          day = secs div 86400 + epoch_day;
          (y, m, d) = civil_date (nat day)
      in if day < 0 \<or> 10000 \<le> y \<or> 24 * 60 \<le> \<bar>z\<bar> then None
         else Some (fixed 4 y @ CHR ''-'' # fixed 2 m @ CHR ''-'' # fixed 2 d
                @ CHR ''T'' # fixed 2 (s div 3600) @ CHR '':'' # fixed 2 (s div 60 mod 60) @ CHR '':'' # fixed 2 (s mod 60)
                @ fraction_text n @ zone_text z)))"

section \<open>Reading\<close>

definition take_num :: "nat \<Rightarrow> string \<Rightarrow> (nat \<times> string) option" where
  "take_num k s =
     (if k \<le> length s \<and> list_all is_dec (take k s) then Some (nat (dec_val (take k s)), drop k s) else None)"

definition take_char :: "char set \<Rightarrow> string \<Rightarrow> (char \<times> string) option" where
  "take_char cs s = (case s of [] \<Rightarrow> None | c # t \<Rightarrow> if c \<in> cs then Some (c, t) else None)"

definition take_hour :: "string \<Rightarrow> (nat \<times> string) option" where
  "take_hour s = (case take_num 2 s of None \<Rightarrow> take_num 1 s | Some x \<Rightarrow> Some x)"

definition take_fraction :: "string \<Rightarrow> nat \<times> string" where
  "take_fraction s =
     (case s of
        c # d # t \<Rightarrow>
          if (c = CHR ''.'' \<or> c = CHR '','') \<and> is_dec d then
            (let ds = takeWhile is_dec (d # t); ns = take 9 ds
             in (nat (dec_val (ns @ replicate (9 - length ns) (CHR ''0''))), dropWhile is_dec (d # t)))
          else (0, s)
      | _ \<Rightarrow> (0, s))"

definition take_zone :: "string \<Rightarrow> (int \<times> string) option" where
  "take_zone s =
     (case take_char {CHR ''Z''} s of
        Some (_, t) \<Rightarrow> Some (0, t)
      | None \<Rightarrow> do {
          (sign, s) \<leftarrow> take_char {CHR ''+'', CHR ''-''} s;
          (hh, s) \<leftarrow> take_num 2 s;
          (_, s) \<leftarrow> take_char {CHR '':''} s;
          (mm, s) \<leftarrow> take_num 2 s;
          if 24 < hh \<or> 60 < mm then None
          else Some ((if sign = CHR ''-'' then - 1 else 1) * int (60 * hh + mm), s)
        })"

definition parse_stamp :: "string \<Rightarrow> stamp option" where
  "parse_stamp s0 = do {
     (y, s) \<leftarrow> take_num 4 s0; (_, s) \<leftarrow> take_char {CHR ''-''} s;
     (m, s) \<leftarrow> take_num 2 s; (_, s) \<leftarrow> take_char {CHR ''-''} s;
     (d, s) \<leftarrow> take_num 2 s; (_, s) \<leftarrow> take_char {CHR ''T''} s;
     (hh, s) \<leftarrow> take_hour s; (_, s) \<leftarrow> take_char {CHR '':''} s;
     (mm, s) \<leftarrow> take_num 2 s; (_, s) \<leftarrow> take_char {CHR '':''} s;
     (ss, s) \<leftarrow> take_num 2 s;
     let (n, s) = take_fraction s;
     (z, s) \<leftarrow> take_zone s;
     if s \<noteq> [] \<or> m < 1 \<or> 12 < m \<or> d < 1 \<or> month_days y m < d \<or> 23 < hh \<or> 59 < mm \<or> 59 < ss then None
     else Some ((((int (day_number y m d) - epoch_day) * 86400 + int (3600 * hh + 60 * mm + ss)) - z * 60) * second
            + int n, z)
   }"

section \<open>Round trip\<close>

lemma length_fixed [simp]: "length (fixed k n) = k"
  by (induction k arbitrary: n) simp_all

lemma fixed_dec: "list_all is_dec (fixed k n)"
  by (induction k arbitrary: n) (simp_all add: digit_char_val)

lemma fixed_val: "n < 10 ^ k \<Longrightarrow> dec_val (fixed k n) = int n"
proof (induction k arbitrary: n)
  case 0
  then show ?case by (simp add: dec_val_def)
next
  case (Suc k)
  have "n div 10 < 10 ^ k" using Suc.prems by (simp add: div_less_iff_less_mult mult.commute)
  moreover have "dec_val [digit_char (int (n mod 10))] = int (n mod 10)"
    using digit_char_val(1) [of "int (n mod 10)"] by (simp add: dec_val_def)
  ultimately show ?case using Suc.IH by (simp add: dec_val_append zdiv_int zmod_int)
qed

lemma take_num_fixed: "n < 10 ^ k \<Longrightarrow> take_num k (fixed k n @ s) = Some (n, s)"
  by (simp add: take_num_def fixed_dec fixed_val)

lemma take_hour_fixed: "n < 100 \<Longrightarrow> take_hour (fixed 2 n @ s) = Some (n, s)"
  using take_num_fixed [of n 2 s] by (simp add: take_hour_def)

lemma strip_pad: "strip_zeros s @ replicate (length s - length (strip_zeros s)) (CHR ''0'') = s"
proof -
  have "takeWhile (\<lambda>c. c = CHR ''0'') (rev s) = replicate (length s - length (strip_zeros s)) (CHR ''0'')"
    (is "?z = replicate ?k _")
  proof -
    have "set ?z \<subseteq> {CHR ''0''}" using set_takeWhileD by fastforce
    then have "?z = replicate (length ?z) (CHR ''0'')" by (metis replicate_length_same singletonD subsetD)
    moreover have "length ?z = ?k"
      using arg_cong [OF takeWhile_dropWhile_id [of "\<lambda>c. c = CHR ''0''" "rev s"], of length]
      unfolding length_append strip_zeros_def length_rev by linarith
    ultimately show ?thesis by simp
  qed
  then have "rev (replicate ?k (CHR ''0'') @ rev (strip_zeros s)) = s" for k
    using takeWhile_dropWhile_id [of "\<lambda>c. c = CHR ''0''" "rev s"] by (metis rev_rev_ident strip_zeros_def)
  then show ?thesis by simp
qed

lemma length_strip: "length (strip_zeros s) \<le> length s"
  using length_dropWhile_le [of "\<lambda>c. c = CHR ''0''" "rev s"] by (simp add: strip_zeros_def)

lemma fraction_back:
  assumes "n < 10 ^ 9" "r \<noteq> []" "\<not> is_dec (hd r)" "hd r \<noteq> CHR ''.''" "hd r \<noteq> CHR '',''"
  shows "take_fraction (fraction_text n @ r) = (n, r)"
proof (cases "n = 0")
  case True
  then show ?thesis using assms(2,4,5)
    by (cases r) (auto simp: fraction_text_def take_fraction_def split: list.split)
next
  case False
  let ?s = "strip_zeros (fixed 9 n)"
  have pad: "?s @ replicate (9 - length ?s) (CHR ''0'') = fixed 9 n" using strip_pad [of "fixed 9 n"] by simp
  then have dec: "list_all is_dec ?s" using fixed_dec [of 9 n] by (metis list_all_append)
  have "dec_val (replicate 9 (CHR ''0'')) = 0" using dec_val_zeros [of 9 "[]"] by (simp add: dec_val_def)
  then have "?s \<noteq> []" using pad fixed_val [OF assms(1)] False by auto
  then obtain d t where s: "?s = d # t" by (cases ?s) auto
  have "takeWhile is_dec (?s @ r) = ?s" "dropWhile is_dec (?s @ r) = r"
    using dec assms(2,3) by (cases r; simp add: takeWhile_append2 dropWhile_append2 list_all_iff)+
  moreover have "take 9 ?s = ?s" using length_strip [of "fixed 9 n"] by simp
  ultimately show ?thesis using dec pad fixed_val [OF assms(1)] False
    by (simp add: fraction_text_def take_fraction_def s)
qed

lemma zone_head: "zone_text z \<noteq> [] \<and> hd (zone_text z) \<in> {CHR ''Z'', CHR ''-'', CHR ''+''}"
  by (simp add: zone_text_def)

lemma zone_back:
  assumes "\<bar>z\<bar> < 24 * 60"
  shows "take_zone (zone_text z) = Some (z, [])"
proof -
  let ?h = "nat \<bar>z\<bar> div 60" and ?m = "nat \<bar>z\<bar> mod 60"
  have b: "?h < 24" "?m < 60" using assms by (auto simp: div_less_iff_less_mult)
  have num: "take_num 2 (fixed 2 ?h @ s) = Some (?h, s)" "take_num 2 (fixed 2 ?m) = Some (?m, [])" for s
    using b take_num_fixed [of ?h 2 s] take_num_fixed [of ?m 2 "[]"] by simp_all
  have "int (60 * ?h + ?m) = \<bar>z\<bar>" by simp
  then show ?thesis using b num
    by (auto simp: zone_text_def take_zone_def take_char_def simp del: fixed.simps)
qed

lemma hms_split: "3600 * (n div 3600) + 60 * (n div 60 mod 60) + n mod 60 = n" for n :: nat
proof -
  have "n div 3600 = n div 60 div 60" by (simp flip: div_mult2_eq)
  then show ?thesis using div_mult_mod_eq [of n 60] div_mult_mod_eq [of "n div 60" 60] by linarith
qed

text \<open>A date and time of day that is in range reads back.\<close>

lemma parse_civil:
  assumes "y < 10000" "1 \<le> m" "m \<le> 12" "1 \<le> d" "d \<le> month_days y m" "hh < 24" "mm < 60" "ss < 60" "n < 10 ^ 9"
    "\<bar>z\<bar> < 24 * 60"
  shows "parse_stamp (fixed 4 y @ CHR ''-'' # fixed 2 m @ CHR ''-'' # fixed 2 d
      @ CHR ''T'' # fixed 2 hh @ CHR '':'' # fixed 2 mm @ CHR '':'' # fixed 2 ss @ fraction_text n @ zone_text z)
    = Some ((((int (day_number y m d) - epoch_day) * 86400 + int (3600 * hh + 60 * mm + ss)) - z * 60) * second
            + int n, z)"
proof -
  have "month_days y m \<le> 31" by (simp add: month_days_def)
  then have d: "d < 100" using assms(5) by simp
  have num: "take_num 4 (fixed 4 y @ s) = Some (y, s)" "take_num 2 (fixed 2 m @ s) = Some (m, s)"
    "take_num 2 (fixed 2 d @ s) = Some (d, s)" "take_num 2 (fixed 2 mm @ s) = Some (mm, s)"
    "take_num 2 (fixed 2 ss @ s) = Some (ss, s)" "take_hour (fixed 2 hh @ s) = Some (hh, s)" for s
    using assms d by (simp_all add: take_num_fixed take_hour_fixed del: fixed.simps)
  have ch: "take_char cs (c # s) = Some (c, s)" if "c \<in> cs" for c s cs using that by (simp add: take_char_def)
  have "take_fraction (fraction_text n @ zone_text z) = (n, zone_text z)"
    using zone_head [of z] assms(9) by (intro fraction_back) (auto simp: is_dec_range)
  then show ?thesis using assms(2-8) zone_back [OF assms(10)]
    by (simp add: parse_stamp_def num ch Let_def del: fixed.simps)
qed

lemma stamp_back:
  assumes "stamp_text (t, z) = Some s"
  shows "parse_stamp s = Some (t, z)"
proof -
  let ?l = "t + z * 60 * second"
  let ?sec = "?l div second" and ?n = "nat (?l mod second)"
  let ?s = "nat (?sec mod 86400)" and ?day = "?sec div 86400 + epoch_day"
  obtain y m d where c: "civil_date (nat ?day) = (y, m, d)" using prod_cases3 by blast
  have ok: "0 \<le> ?day" "y < 10000" "\<bar>z\<bar> < 24 * 60"
    and s: "s = fixed 4 y @ CHR ''-'' # fixed 2 m @ CHR ''-'' # fixed 2 d
                @ CHR ''T'' # fixed 2 (?s div 3600) @ CHR '':'' # fixed 2 (?s div 60 mod 60) @ CHR '':'' # fixed 2 (?s mod 60)
                @ fraction_text ?n @ zone_text z"
    using assms by (auto simp: stamp_text_def c Let_def split: if_splits)
  note date = civil_date_day [OF c]
  have sod: "?s < 86400" by (simp add: nat_less_iff)
  have hms: "?s div 3600 < 24" "?s div 60 mod 60 < 60" "?s mod 60 < 60"
    using sod by (simp_all add: div_less_iff_less_mult)
  have n: "?n < 10 ^ 9" by (simp add: second_def nat_less_iff)
  have "parse_stamp s = Some ((((int (day_number y m d) - epoch_day) * 86400 + int ?s) - z * 60) * second + int ?n, z)"
    using parse_civil [OF ok(2) date(2-5) hms n ok(3)] unfolding s hms_split .
  moreover have "int (day_number y m d) - epoch_day = ?sec div 86400" using date(1) ok(1) by simp
  moreover have "?sec div 86400 * 86400 + int ?s = ?sec" by simp
  moreover have "?sec * second + int ?n = ?l" by (simp add: second_def)
  then have "(?sec - z * 60) * second + int ?n = t" by (simp add: left_diff_distrib)
  ultimately show ?thesis by simp
qed

text \<open>Times of UTC from the year 1 for some ten thousand years can be written.\<close>

lemma years_days: "365 * y \<le> days_before year_days 0 y"
  by (induction y) (auto simp: days_before_def year_days_def)

lemma writable_time:
  assumes "zero_time \<le> t" "t < 2 * 10 ^ 20"
  shows "\<exists>s. stamp_text (t, 0) = Some s"
proof -
  let ?day = "t div second div 86400 + epoch_day"
  obtain y m d where c: "civil_date (nat ?day) = (y, m, d)" using prod_cases3 by blast
  have day: "0 \<le> ?day" "?day < 3650000"
    using assms by (simp_all add: second_def epoch_day_def zero_time_def div_less_iff_less_mult flip: zdiv_zmult2_eq)
  have "365 * y \<le> nat ?day"
    using civil_date_day(1) [OF c] years_days [of y] by (simp add: day_number_def)
  then have "y < 10000" using day by linarith
  then show ?thesis using day(1) c by (simp add: stamp_text_def Let_def)
qed

text \<open>Of the times that can be read, those with an offset of a day or more cannot be written.\<close>

lemma dec_val_less: "list_all is_dec s \<Longrightarrow> dec_val s < 10 ^ length s"
proof (induction s rule: rev_induct)
  case (snoc c s)
  then have "dec_val s + 1 \<le> 10 ^ length s" "digit_val c < 10" by (auto simp: digit_val_def is_dec_range)
  then show ?case by (simp add: dec_val_append dec_val_def [of "[c]"])
qed (simp add: dec_val_def)

lemma take_num_less: "take_num k s = Some (n, r) \<Longrightarrow> n < 10 ^ k"
  using dec_val_less [of "take k s"] dec_val_nonneg [of "take k s"] by (auto simp: take_num_def nat_less_iff split: if_splits)

lemma take_fraction_less: "fst (take_fraction s) < 10 ^ 9"
proof -
  have "nat (dec_val (ns @ replicate (9 - length ns) (CHR ''0''))) < 10 ^ 9" if "list_all is_dec ns" "length ns \<le> 9" for ns
  proof -
    have "list_all is_dec (ns @ replicate (9 - length ns) (CHR ''0''))" using that(1) by (auto simp: list_all_iff is_dec_range)
    from dec_val_less [OF this] show ?thesis
      using that(2) dec_val_nonneg [of "ns @ replicate (9 - length ns) (CHR ''0'')"] by (simp add: nat_less_iff)
  qed
  moreover have "list_all is_dec (take 9 (takeWhile is_dec u))" for u
    by (auto simp: list_all_iff dest: in_set_takeD set_takeWhileD)
  ultimately have "nat (dec_val (take 9 (takeWhile is_dec u) @ replicate (9 - length (take 9 (takeWhile is_dec u))) (CHR ''0'')))
      < 10 ^ 9" for u by (metis length_take min.cobounded2)
  then show ?thesis by (simp add: take_fraction_def Let_def del: takeWhile.simps split: list.split)
qed

lemma day_number_less:
  assumes "y < 10000" "1 \<le> m" "m \<le> 12" "1 \<le> d" "d \<le> month_days y m"
  shows "day_number y m d < days_before year_days 0 10000"
proof -
  have "days_before (month_days y) 1 (Suc m) = days_before (month_days y) 1 m + month_days y m"
    using assms(2) by (simp add: days_before_def)
  then have "days_before (month_days y) 1 m + (d - 1) < year_days y"
    using days_before_mono [of 1 "Suc m" 13 "month_days y"] assms year_of_months [of y] by linarith
  moreover have "days_before year_days 0 (Suc y) = days_before year_days 0 y + year_days y" by (simp add: days_before_def)
  moreover have "days_before year_days 0 (Suc y) \<le> days_before year_days 0 10000" using assms(1) by (intro days_before_mono) simp_all
  ultimately show ?thesis by (simp add: day_number_def)
qed

lemma parsed_writable:
  assumes "parse_stamp s = Some (t, z)"
  shows "stamp_text (t, z) = None \<longleftrightarrow> 24 * 60 \<le> \<bar>z\<bar>"
proof -
  have "\<exists>y m d hh mm ss n. t = ((int (day_number y m d) - epoch_day) * 86400 + int (3600 * hh + 60 * mm + ss) - z * 60) * second
      + int n \<and> y < 10000 \<and> n < 10 ^ 9 \<and> 1 \<le> m \<and> m \<le> 12 \<and> 1 \<le> d \<and> d \<le> month_days y m \<and> hh < 24 \<and> mm < 60 \<and> ss < 60"
    using assms
    apply (clarsimp simp: parse_stamp_def bind_eq_Some_conv Let_def not_less case_prod_unfold split: if_split_asm)
    apply (intro exI conjI, rule refl)
    using take_num_less [of 4] take_fraction_less by auto
  then obtain y m d hh mm ss n where t: "t = ((int (day_number y m d) - epoch_day) * 86400
      + int (3600 * hh + 60 * mm + ss) - z * 60) * second + int n"
    and c: "y < 10000" "1 \<le> m" "m \<le> 12" "1 \<le> d" "d \<le> month_days y m" "hh < 24" "mm < 60" "ss < 60" "n < 10 ^ 9" by blast
  let ?secs = "(int (day_number y m d) - epoch_day) * 86400 + int (3600 * hh + 60 * mm + ss)"
  have "t + z * 60 * second = ?secs * second + int n" by (simp add: t algebra_simps)
  moreover have "(?secs * second + int n) div second = ?secs" using c(9) by (simp add: second_def)
  ultimately have secs: "(t + z * 60 * second) div second = ?secs" by simp
  have "int (3600 * hh + 60 * mm + ss) < 86400" using c(6-8) by simp
  then have day: "(t + z * 60 * second) div second div 86400 + epoch_day = int (day_number y m d)" unfolding secs by simp
  obtain y' m' d' where date: "civil_date (day_number y m d) = (y', m', d')" using prod_cases3 by blast
  have "y' < 10000"
  proof (rule ccontr)
    assume "\<not> y' < 10000"
    then have "days_before year_days 0 10000 \<le> day_number y' m' d'"
      using days_before_mono [of 0 10000 y' year_days] by (simp add: day_number_def)
    then show False using civil_date_day(1) [OF date] day_number_less [OF c(1-5)] by simp
  qed
  then show ?thesis using date by (simp add: stamp_text_def Let_def day)
qed

end
