(* ===== verification/Base64.thy ===== *)
theory Base64
  imports Relay_Prelude
begin

text \<open>
  \<^verbatim>\<open>base64.StdEncoding\<close>, which \<^verbatim>\<open>encoding/json\<close> uses for byte slices. The decoder skips line ends,
  wants full groups of four characters with padding, and does not look at the bits left over.
\<close>

definition b64_alphabet :: string where
  "b64_alphabet = ''ABCDEFGHIJKLMNOPQRSTUVWXYZabcdefghijklmnopqrstuvwxyz0123456789+/''"

abbreviation b64_char :: "nat \<Rightarrow> char" where
  "b64_char v \<equiv> b64_alphabet ! v"

definition b64_val :: "char \<Rightarrow> nat option" where
  "b64_val c =
     (let n = of_char c :: nat in
      if 65 \<le> n \<and> n \<le> 90 then Some (n - 65)
      else if 97 \<le> n \<and> n \<le> 122 then Some (n - 97 + 26)
      else if 48 \<le> n \<and> n \<le> 57 then Some (n - 48 + 52)
      else if n = 43 then Some 62
      else if n = 47 then Some 63
      else None)"

text \<open>The numbers of a byte list, three at a time.\<close>

fun b64_groups :: "nat list \<Rightarrow> string" where
  "b64_groups [] = []"
| "b64_groups [x] = [b64_char (x div 4), b64_char (x mod 4 * 16), CHR ''='', CHR ''='']"
| "b64_groups [x, y] =
     [b64_char (x div 4), b64_char (x mod 4 * 16 + y div 16), b64_char (y mod 16 * 4), CHR ''='']"
| "b64_groups (x # y # z # r) =
     [b64_char (x div 4), b64_char (x mod 4 * 16 + y div 16), b64_char (y mod 16 * 4 + z div 64), b64_char (z mod 64)]
     @ b64_groups r"

definition b64_encode :: "byte list \<Rightarrow> string" where
  "b64_encode bs = b64_groups (map unat bs)"

fun b64_read :: "string \<Rightarrow> nat list option" where
  "b64_read [] = Some []"
| "b64_read (a # b # c # d # r) =
     (if c = CHR ''='' then
        (if d = CHR ''='' \<and> r = [] then
           (case (b64_val a, b64_val b) of (Some u, Some v) \<Rightarrow> Some [u * 4 + v div 16] | _ \<Rightarrow> None)
         else None)
      else if d = CHR ''='' then
        (if r = [] then
           (case (b64_val a, b64_val b, b64_val c) of
              (Some u, Some v, Some w) \<Rightarrow> Some [u * 4 + v div 16, v mod 16 * 16 + w div 4] | _ \<Rightarrow> None)
         else None)
      else
        (case (b64_val a, b64_val b, b64_val c, b64_val d) of
           (Some u, Some v, Some w, Some x) \<Rightarrow>
             map_option (\<lambda>ns. (u * 4 + v div 16) # (v mod 16 * 16 + w div 4) # (w mod 4 * 64 + x) # ns) (b64_read r)
         | _ \<Rightarrow> None))"
| "b64_read _ = None"

definition b64_decode :: "string \<Rightarrow> byte list option" where
  "b64_decode s = map_option (map of_nat) (b64_read (filter (\<lambda>c. c \<noteq> CHR 0x0A \<and> c \<noteq> CHR 0x0D) s))"

section \<open>Round trip\<close>

text \<open>A printed character that a JSON string holds as it is.\<close>

definition plain :: "char \<Rightarrow> bool" where
  "plain c \<longleftrightarrow> (0x20 :: nat) \<le> of_char c \<and> of_char c < (0x80 :: nat) \<and> c \<noteq> CHR 0x22 \<and> c \<noteq> CHR 0x5C"

lemma plain_not_control: "plain c \<Longrightarrow> c \<noteq> CHR 0x0A \<and> c \<noteq> CHR 0x0D"
  by (auto simp: plain_def)

lemma length_b64_alphabet: "length b64_alphabet = 64"
  by (simp add: b64_alphabet_def)

lemma b64_char_props:
  assumes "v < 64"
  shows "b64_val (b64_char v) = Some v" "b64_char v \<noteq> CHR ''=''" "plain (b64_char v)"
proof -
  have "map b64_val b64_alphabet = map Some [0..<64]"
    by (simp add: b64_alphabet_def b64_val_def upt_rec [of _ 64])
  then have "map b64_val b64_alphabet ! v = map Some [0..<64] ! v" by (rule arg_cong)
  then show "b64_val (b64_char v) = Some v" using assms by (simp add: length_b64_alphabet)
  have "list_all (\<lambda>c. plain c \<and> c \<noteq> CHR ''='') b64_alphabet" by (simp add: b64_alphabet_def plain_def)
  then show "b64_char v \<noteq> CHR ''=''" "plain (b64_char v)"
    using assms by (simp_all add: list_all_length length_b64_alphabet)
qed

lemma b64_sextet_bounds:
  fixes x y :: nat
  assumes "x < 256" "y < 256"
  shows "x div 4 < 64" "x mod 4 * 16 + y div 16 < 64" "x mod 4 * 16 < 64" "y mod 16 * 4 < 64" "x mod 64 < 64"
proof -
  have "y div 16 < 16" "x mod 4 < 4" "y mod 16 < 16" using assms by (simp_all add: div_less_iff_less_mult)
  then show "x mod 4 * 16 + y div 16 < 64" "x mod 4 * 16 < 64" "y mod 16 * 4 < 64" by linarith+
qed (use assms in \<open>simp_all add: div_less_iff_less_mult\<close>)

lemma b64_last_bound: "y mod 16 * 4 + z div 64 < 64" if "z < 256" for y z :: nat
proof -
  have "z div 64 < 4" "y mod 16 < 16" using that by (simp_all add: div_less_iff_less_mult)
  then show ?thesis by linarith
qed

text \<open>Joining the halves of the bytes.\<close>

lemma b64_bytes:
  fixes x y z :: nat
  assumes "y < 256" "z < 256"
  shows "x div 4 * 4 + (x mod 4 * 16 + y div 16) div 16 = x" "x div 4 * 4 + x mod 4 * 16 div 16 = x"
    "(x mod 4 * 16 + y div 16) mod 16 * 16 + (y mod 16 * 4 + z div 64) div 4 = y"
    "(x mod 4 * 16 + y div 16) mod 16 * 16 + y mod 16 * 4 div 4 = y"
    "(y mod 16 * 4 + z div 64) mod 4 * 64 + z mod 64 = z"
proof -
  have "y div 16 < 16" "z div 64 < 4" using assms by (simp_all add: div_less_iff_less_mult)
  then have d: "(x mod 4 * 16 + y div 16) div 16 = x mod 4" "(x mod 4 * 16 + y div 16) mod 16 = y div 16"
    "(y mod 16 * 4 + z div 64) div 4 = y mod 16" "(y mod 16 * 4 + z div 64) mod 4 = z div 64" by simp_all
  show "x div 4 * 4 + (x mod 4 * 16 + y div 16) div 16 = x" "x div 4 * 4 + x mod 4 * 16 div 16 = x"
    "(x mod 4 * 16 + y div 16) mod 16 * 16 + (y mod 16 * 4 + z div 64) div 4 = y"
    "(x mod 4 * 16 + y div 16) mod 16 * 16 + y mod 16 * 4 div 4 = y"
    "(y mod 16 * 4 + z div 64) mod 4 * 64 + z mod 64 = z"
    unfolding d by simp_all
qed

lemma b64_plain: "\<forall>n\<in>set ns. n < 256 \<Longrightarrow> list_all plain (b64_groups ns)"
proof (induction ns rule: b64_groups.induct)
  case (4 x y z r)
  then show ?case using b64_sextet_bounds [of x y] b64_last_bound [of z y] by (simp add: b64_char_props)
next
  case (2 x)
  then show ?case using b64_sextet_bounds [of x 0] by (simp add: b64_char_props) (simp add: plain_def)
next
  case (3 x y)
  then show ?case using b64_sextet_bounds [of x y] by (simp add: b64_char_props) (simp add: plain_def)
qed simp

lemma b64_read_full:
  "u < 64 \<Longrightarrow> v < 64 \<Longrightarrow> w < 64 \<Longrightarrow> q < 64 \<Longrightarrow> b64_read (b64_char u # b64_char v # b64_char w # b64_char q # r)
     = map_option (\<lambda>ns. (u * 4 + v div 16) # (v mod 16 * 16 + w div 4) # (w mod 4 * 64 + q) # ns) (b64_read r)"
  by (simp add: b64_char_props)

lemma b64_read_last:
  "u < 64 \<Longrightarrow> v < 64 \<Longrightarrow> b64_read [b64_char u, b64_char v, CHR ''='', CHR ''=''] = Some [u * 4 + v div 16]"
  "u < 64 \<Longrightarrow> v < 64 \<Longrightarrow> w < 64 \<Longrightarrow> b64_read [b64_char u, b64_char v, b64_char w, CHR ''='']
     = Some [u * 4 + v div 16, v mod 16 * 16 + w div 4]"
  by (simp_all add: b64_char_props)

lemma b64_read_groups: "\<forall>n\<in>set ns. n < 256 \<Longrightarrow> b64_read (b64_groups ns) = Some ns"
proof (induction ns rule: b64_groups.induct)
  case (4 x y z r)
  then have n: "x < 256" "y < 256" "z < 256" and IH: "b64_read (b64_groups r) = Some r" by simp_all
  note s = b64_sextet_bounds [OF n(1,2)] b64_last_bound [OF n(3)] b64_sextet_bounds(5) [OF n(3,3)]
  show ?case
    unfolding b64_groups.simps append.simps b64_read_full [OF s(1,2,6,7)] IH option.map b64_bytes [OF n(2,3)] ..
next
  case (2 x)
  then have "x < 256" by simp
  note s = b64_sextet_bounds [OF this this]
  show ?case unfolding b64_groups.simps b64_read_last(1) [OF s(1,3)] by (simp add: b64_bytes(2) [of 0 0])
next
  case (3 x y)
  then have n: "x < 256" "y < 256" by simp_all
  note s = b64_sextet_bounds [OF n]
  show ?case unfolding b64_groups.simps b64_read_last(2) [OF s(1,2,4)] b64_bytes(1,4) [OF n(2,2)] ..
qed simp

lemma b64_encode_plain: "list_all plain (b64_encode bs)"
  unfolding b64_encode_def by (rule b64_plain) (simp add: unat_byte_less)

lemma b64_back: "b64_decode (b64_encode bs) = Some bs"
proof -
  have "filter (\<lambda>c. c \<noteq> CHR 0x0A \<and> c \<noteq> CHR 0x0D) (b64_encode bs) = b64_encode bs"
    using b64_encode_plain [of bs] by (simp add: filter_id_conv list_all_iff plain_not_control)
  moreover have "b64_read (b64_encode bs) = Some (map unat bs)"
    unfolding b64_encode_def by (rule b64_read_groups) (simp add: unat_byte_less)
  ultimately show ?thesis by (simp add: b64_decode_def o_def)
qed

end
