(* ===== verification/Wire_Fields.thy ===== *)
theory Wire_Fields
  imports Json_Text Rfc3339 Base64 "HOL-Library.List_Lexorder" "HOL-Library.Char_ord"
begin

text \<open>
  How \<^verbatim>\<open>encoding/json\<close> fills the fields of the structs of \<^verbatim>\<open>internal/protocol\<close> and writes them. A field is
  filled by each member whose name matches it up to case, in order; every decoder therefore takes the
  value so far. \<open>None\<close> is an error of the conversion; \<^verbatim>\<open>null\<close> leaves most fields as they are. The locale
  \<open>wire_field\<close> is what a struct needs to know of a field's type for its own round trip.
\<close>

section \<open>Reading fields\<close>

definition json_of :: "string \<Rightarrow> json option" where
  "json_of raw = map_option fst (parse_json raw)"

fun get_field :: "('a \<Rightarrow> string \<Rightarrow> 'a option) \<Rightarrow> string \<Rightarrow> (string \<times> string) list \<Rightarrow> 'a \<Rightarrow> 'a option" where
  "get_field rd name [] cur = Some cur"
| "get_field rd name ((k, raw) # ms) cur =
     (if foldName k = foldName name then
        (case rd cur raw of None \<Rightarrow> None | Some x \<Rightarrow> get_field rd name ms x)
      else get_field rd name ms cur)"

definition read_string :: "string \<Rightarrow> string \<Rightarrow> string option" where
  "read_string cur raw =
     (case json_of raw of
        Some (JStr x) \<Rightarrow> Some x
      | Some JNull \<Rightarrow> Some cur
      | _ \<Rightarrow> None)"

text \<open>\<^verbatim>\<open>strconv.ParseInt\<close> and \<^verbatim>\<open>strconv.ParseUint\<close>, base 10, on the text of a JSON number.\<close>

definition ParseInt10 :: "string \<Rightarrow> int option" where
  "ParseInt10 s =
     (let neg = HasPrefix s ''-''; t = TrimPrefix s ''-'';
          n = (if neg then - dec_val t else dec_val t)
      in if t = [] \<or> \<not> list_all is_dec t \<or> n < - (2 ^ 63) \<or> 2 ^ 63 \<le> n then None else Some n)"

definition read_int :: "int \<Rightarrow> string \<Rightarrow> int option" where
  "read_int cur raw =
     (case json_of raw of
        Some (JNum s) \<Rightarrow> ParseInt10 s
      | Some JNull \<Rightarrow> Some cur
      | _ \<Rightarrow> None)"

text \<open>
  A slice is its length and its backing array: an array is decoded into the elements that are there,
  so a repeated field can see old elements.
\<close>

type_synonym 'a slice = "nat \<times> 'a list"

fun fill :: "('a \<Rightarrow> json \<Rightarrow> 'a option) \<Rightarrow> 'a \<Rightarrow> json list \<Rightarrow> 'a list \<Rightarrow> 'a list option" where
  "fill elem z [] old = Some old"
| "fill elem z (j # js) old =
     (case elem (case old of [] \<Rightarrow> z | x # _ \<Rightarrow> x) j of
        None \<Rightarrow> None
      | Some x \<Rightarrow> map_option ((#) x) (fill elem z js (drop 1 old)))"

definition read_array :: "('a \<Rightarrow> json \<Rightarrow> 'a option) \<Rightarrow> 'a \<Rightarrow> 'a slice \<Rightarrow> json list \<Rightarrow> 'a slice option" where
  "read_array elem z cur js =
     (if js = [] then Some (0, []) else map_option (Pair (length js)) (fill elem z js (snd cur)))"

definition elements :: "'a slice \<Rightarrow> 'a list" where
  "elements s = take (fst s) (snd s)"

fun string_elem :: "string \<Rightarrow> json \<Rightarrow> string option" where
  "string_elem cur (JStr x) = Some x"
| "string_elem cur JNull = Some cur"
| "string_elem cur _ = None"

fun byte_elem :: "byte \<Rightarrow> json \<Rightarrow> byte option" where
  "byte_elem cur (JNum s) =
     (case ParseInt10 s of
        None \<Rightarrow> None
      | Some n \<Rightarrow> if HasPrefix s ''-'' \<or> 255 < n then None else Some (word_of_int n))"
| "byte_elem cur JNull = Some cur"
| "byte_elem cur _ = None"

definition read_strings :: "string slice \<Rightarrow> string \<Rightarrow> string slice option" where
  "read_strings cur raw =
     (case json_of raw of
        Some (JArr js) \<Rightarrow> read_array string_elem [] cur js
      | Some JNull \<Rightarrow> Some (0, [])
      | _ \<Rightarrow> None)"

text \<open>
  A byte slice is a base64 string, and then never nil; an array of numbers is taken too. \<open>None\<close> is the nil
  slice, of a field that no member or a \<^verbatim>\<open>null\<close> filled.
\<close>

definition read_bytes :: "byte slice option \<Rightarrow> string \<Rightarrow> byte slice option option" where
  "read_bytes cur raw =
     (case json_of raw of
        Some (JStr x) \<Rightarrow> map_option (\<lambda>b. Some (length b, b)) (b64_decode x)
      | Some (JArr js) \<Rightarrow>
          map_option Some (read_array byte_elem 0 (case cur of None \<Rightarrow> (0, []) | Some s \<Rightarrow> s) js)
      | Some JNull \<Rightarrow> Some None
      | _ \<Rightarrow> None)"

text \<open>A map of strings; a member that is \<^verbatim>\<open>null\<close> puts the empty string in.\<close>

fun fill_map :: "(string \<times> json) list \<Rightarrow> (string \<times> string) list \<Rightarrow> (string \<times> string) list option" where
  "fill_map [] cur = Some cur"
| "fill_map ((k, j) # ms) cur =
     (case j of
        JStr x \<Rightarrow> fill_map ms (AList.update k x cur)
      | JNull \<Rightarrow> fill_map ms (AList.update k [] cur)
      | _ \<Rightarrow> None)"

definition read_map :: "(string \<times> string) list \<Rightarrow> string \<Rightarrow> (string \<times> string) list option" where
  "read_map cur raw =
     (case json_of raw of
        Some (JObj ms) \<Rightarrow> fill_map ms cur
      | Some JNull \<Rightarrow> Some []
      | _ \<Rightarrow> None)"

text \<open>
  \<^verbatim>\<open>time.Time\<close> and \<^verbatim>\<open>json.RawMessage\<close> get the bytes as they stand: escapes in a time are not undone, and
  a \<^verbatim>\<open>null\<close> is a message.
\<close>

definition read_time :: "stamp \<Rightarrow> string \<Rightarrow> stamp option" where
  "read_time cur raw =
     (if raw = ''null'' then Some cur
      else if length raw < 2 \<or> hd raw \<noteq> CHR 0x22 \<or> last raw \<noteq> CHR 0x22 then None
      else parse_stamp (butlast (tl raw)))"

definition read_raw :: "string \<Rightarrow> string \<Rightarrow> string option" where
  "read_raw cur raw = Some raw"

text \<open>
  A pointer to a struct: the members of all objects given for it go to one struct, until a \<^verbatim>\<open>null\<close> drops
  it; a dropped struct has been decoded too.
\<close>

definition read_ptr :: "((string \<times> string) list \<Rightarrow> 'a option) \<Rightarrow> (string \<times> string) list option \<Rightarrow> string \<Rightarrow>
    (string \<times> string) list option option" where
  "read_ptr dec cur raw =
     (case json_of raw of
        Some (JObj _) \<Rightarrow> (case members_of raw of
            None \<Rightarrow> None
          | Some ms \<Rightarrow> Some (Some (case cur of None \<Rightarrow> ms | Some old \<Rightarrow> old @ ms)))
      | Some JNull \<Rightarrow> (case cur of
            None \<Rightarrow> Some None
          | Some old \<Rightarrow> if dec old = None then None else Some None)
      | _ \<Rightarrow> None)"

definition get_ptr :: "((string \<times> string) list \<Rightarrow> 'a option) \<Rightarrow> string \<Rightarrow> (string \<times> string) list \<Rightarrow> 'a option option" where
  "get_ptr dec name ms =
     (case get_field (read_ptr dec) name ms None of
        None \<Rightarrow> None
      | Some None \<Rightarrow> Some None
      | Some (Some xs) \<Rightarrow> map_option Some (dec xs))"

section \<open>Writing fields\<close>

definition quote :: "string \<Rightarrow> string" where
  "quote s = CHR 0x22 # s @ [CHR 0x22]"

definition marshal_bytes :: "byte list \<Rightarrow> string" where
  "marshal_bytes bs = quote (b64_encode bs)"

definition marshal_time :: "stamp \<Rightarrow> string option" where
  "marshal_time x = map_option quote (stamp_text x)"

text \<open>The members of a map are written in the order of their names.\<close>

definition marshal_map :: "(string \<times> string) list \<Rightarrow> string" where
  "marshal_map m = raw_object (map (\<lambda>(k, v). (k, marshal_string v)) (sort_key fst m))"

text \<open>
  A \<^verbatim>\<open>json.RawMessage\<close> is written without the spaces between its tokens and with the HTML characters
  and the line separators escaped; the flags say whether a string is open and the next byte escaped.
\<close>

fun compact :: "bool \<Rightarrow> bool \<Rightarrow> string \<Rightarrow> string" where
  "compact str esc [] = []"
| "compact str esc (c # s) =
     (let str' = (if c = CHR 0x22 \<and> \<not> esc then \<not> str else str); esc' = (str \<and> c = CHR 0x5C \<and> \<not> esc)
      in if c \<in> {CHR ''<'', CHR ''>'', CHR ''&''} then
           [CHR 0x5C, CHR ''u'', CHR ''0'', CHR ''0'', hextable ! (ord c div 16), hextable ! (ord c mod 16)]
           @ compact str' esc' s
         else if c = CHR 0xE2 \<and> (take 2 s = [CHR 0x80, CHR 0xA8] \<or> take 2 s = [CHR 0x80, CHR 0xA9]) then
           CHR 0x5C # (if take 2 s = [CHR 0x80, CHR 0xA8] then ''u2028'' else ''u2029'') @ compact str' esc' (drop 2 s)
         else if \<not> str \<and> ord c \<in> {0x20, 0x09, 0x0A, 0x0D} then compact str' esc' s
         else c # compact str' esc' s)"

definition marshal_raw :: "string \<Rightarrow> string" where
  "marshal_raw raw = compact False False raw"

text \<open>A member that is left out when the field is empty.\<close>

definition omit :: "bool \<Rightarrow> string \<Rightarrow> string \<Rightarrow> (string \<times> string) list" where
  "omit none k raw = (if none then [] else [(k, raw)])"

lemma parse_str_plain_text:
  "list_all plain s \<Longrightarrow> parse_str (s @ CHR 0x22 # r) = Some (s, r)"
proof (induction s)
  case Nil
  show ?case by (simp add: parse_str.simps [of "CHR 0x22 # r"])
next
  case (Cons c s)
  then show ?case using parse_str_plain [of c "s @ CHR 0x22 # r"] by (simp add: plain_def)
qed

lemma reads_quote:
  assumes "list_all plain s"
  shows "reads 0 (quote s)" "value_of (quote s) = JStr s"
proof -
  have v: "\<exists>f. parse_value f d (quote s @ r) = Some (JStr s, r)" for d r
    by (rule exI [of _ "Suc 0"]) (simp add: quote_def parse_str_plain_text [OF assms])
  have s: "quote s \<noteq> []" "skip_ws (quote s) = quote s" by (simp_all add: quote_def)
  show "reads 0 (quote s)" "value_of (quote s) = JStr s" using readsI [OF s, of 0 "JStr s"] v by simp_all
qed

lemma num_int_utoa:
  assumes "0 \<le> n" "value_end r"
  shows "num_int (utoa n @ r) = Some (utoa n, r)"
proof (cases "n = 0")
  case True
  then show ?thesis by (simp add: num_int_def utoa.simps [of 0] digit_char_def char_of_def bit_0)
next
  case False
  note u = utoa_props [OF assms(1)] utoa_first [of n]
  obtain c t where c: "utoa n = c # t" "c \<noteq> CHR ''0''" using u assms(1) False by (cases "utoa n") auto
  have "list_all (\<lambda>c. digit c) (utoa n)" using u(1) by (simp add: list_all_iff is_dec_range)
  then have "takeWhile (\<lambda>c. digit c) (utoa n @ r) = utoa n" "dropWhile (\<lambda>c. digit c) (utoa n @ r) = r"
    using assms(2) by (auto simp: list_all_iff takeWhile_append2 dropWhile_append2 value_end_def split: list.splits)
  then show ?thesis using c u(1) by (simp add: is_dec_range num_int_def span_digits_def)
qed

lemma num_tail: "value_end r \<Longrightarrow> num_frac r = Some ([], r) \<and> num_exp r = Some ([], r)"
  by (auto simp: value_end_def num_frac_def num_exp_def split: list.splits)

lemma parse_num_int: "value_end r \<Longrightarrow> parse_num (Int_String n @ r) = Some (Int_String n, r)"
proof (cases "n < 0")
  case True
  assume "value_end r"
  then show ?thesis using True num_int_utoa [of "- n" r] num_tail [of r]
    by (simp add: parse_num_def Int_String_def HasPrefix_def)
next
  case False
  assume r: "value_end r"
  obtain c t where c: "utoa n = c # t" "is_dec c" using utoa_props [of n] False by (cases "utoa n") auto
  then have "\<not> HasPrefix (utoa n @ r) ''-''" by (auto simp: HasPrefix_def is_dec_range)
  then show ?thesis using False r num_int_utoa [of n r] num_tail [of r]
    by (simp add: parse_num_def Int_String_def)
qed

lemma reads_int: "reads 0 (Int_String n)" "value_of (Int_String n) = JNum (Int_String n)"
proof -
  obtain c t where c: "Int_String n = c # t" "c = CHR ''-'' \<or> is_dec c"
  proof (cases "n < 0")
    case False
    then show thesis using utoa_props [of n] that by (cases "utoa n") (auto simp: Int_String_def)
  qed (use that in \<open>auto simp: Int_String_def\<close>)
  then have h: "c \<noteq> CHR 0x22" "c \<noteq> CHR ''[''" "c \<noteq> CHR 0x7B" "c \<noteq> CHR ''n''" "c \<noteq> CHR ''t''" "c \<noteq> CHR ''f''"
    "skip_ws (c # u) = c # u" for u by (auto simp: is_dec_range)
  have v: "\<exists>f. parse_value f d (Int_String n @ r) = Some (JNum (Int_String n), r)" if "value_end r" for d r
  proof (rule exI [of _ "Suc 0"])
    have "skip_ws (Int_String n @ r) = c # (t @ r)" using h(7) c(1) by simp
    then show "parse_value (Suc 0) d (Int_String n @ r) = Some (JNum (Int_String n), r)"
      using h parse_num_int [OF that, of n] c(1) by simp
  qed
  have s: "Int_String n \<noteq> []" "skip_ws (Int_String n) = Int_String n" using c h by simp_all
  show "reads 0 (Int_String n)" "value_of (Int_String n) = JNum (Int_String n)"
    using readsI [OF s, of 0 "JNum (Int_String n)"] v by simp_all
qed

lemma ParseInt10_String:
  assumes "- (2 ^ 63) \<le> n" "n < 2 ^ 63"
  shows "ParseInt10 (Int_String n) = Some n"
proof (cases "n < 0")
  case True
  then show ?thesis using assms utoa_props [of "- n"] TrimPrefix_append [of "''-''" "utoa (- n)"]
    by (auto simp: ParseInt10_def Int_String_def HasPrefix_def Let_def)
next
  case False
  obtain c t where c: "utoa n = c # t" "is_dec c" using utoa_props [of n] False by (cases "utoa n") auto
  then have "\<not> HasPrefix (utoa n) ''-''" by (auto simp: HasPrefix_def is_dec_range)
  then show ?thesis using False assms utoa_props [of n]
    by (simp add: ParseInt10_def Int_String_def TrimPrefix_def Let_def)
qed

section \<open>Names\<close>

text \<open>Names of lower-case letters and underscores match only themselves.\<close>

definition field_name :: "string \<Rightarrow> bool" where
  "field_name k \<longleftrightarrow> list_all (\<lambda>c. 97 \<le> ord c \<and> ord c \<le> 122 \<or> c = CHR ''_'') k"

lemma foldName_lower: "97 \<le> ord c \<Longrightarrow> ord c \<le> 122 \<Longrightarrow> foldName (c # s) = char_of (ord c - 32) # foldName s"
  by (subst foldName.simps(2)) simp

lemma foldName_underscore: "foldName (CHR ''_'' # s) = CHR ''_'' # foldName s"
  by (subst foldName.simps(2)) (simp del: foldName.simps(2) split: list.split)

lemma fold_field_name:
  "field_name k \<Longrightarrow> map (\<lambda>c. ord c) (foldName k) = map (\<lambda>c. if c = CHR ''_'' then 95 else ord c - 32) k"
proof (induction k)
  case (Cons c k)
  then have c: "97 \<le> ord c \<and> ord c \<le> 122 \<or> c = CHR ''_''" "field_name k" by (simp_all add: field_name_def)
  then show ?case using Cons.IH by (auto simp: foldName_lower foldName_underscore simp del: foldName.simps(2))
qed simp

lemma same_name:
  assumes "field_name k" "field_name l"
  shows "foldName k = foldName l \<longleftrightarrow> k = l"
proof
  let ?S = "{c. 97 \<le> ord c \<and> ord c \<le> 122 \<or> c = CHR ''_''}"
  have "inj_on (\<lambda>c. if c = CHR ''_'' then 95 else ord c - 32) ?S"
  proof (rule inj_onI)
    fix c d
    assume "c \<in> ?S" "d \<in> ?S" "(if c = CHR ''_'' then 95 else ord c - 32) = (if d = CHR ''_'' then 95 else ord d - 32)"
    then have "ord c = ord d" by (auto simp: eq_diff_iff split: if_splits)
    then show "c = d" by simp
  qed
  moreover have "set k \<union> set l \<subseteq> ?S" using assms by (auto simp: field_name_def list_all_iff)
  ultimately have inj: "inj_on (\<lambda>c. if c = CHR ''_'' then 95 else ord c - 32) (set k \<union> set l)" by (rule inj_on_subset)
  assume "foldName k = foldName l"
  then have "map (\<lambda>c. if c = CHR ''_'' then 95 else ord c - 32) k = map (\<lambda>c. if c = CHR ''_'' then 95 else ord c - 32) l"
    unfolding fold_field_name [OF assms(1), symmetric] fold_field_name [OF assms(2), symmetric] by simp
  then show "k = l" using inj by (rule map_inj_on)
qed simp

lemma field_name_utf8: "field_name k \<Longrightarrow> utf8_valid k"
proof (induction k)
  case Nil
  show ?case by (subst utf8_valid.simps) simp
next
  case (Cons c k)
  then have "rune [c]" "utf8_valid k" by (auto simp: field_name_def intro: rune_ascii)
  then show ?case using utf8_rune [of "[c]" k] by simp
qed

lemma get_field_append:
  "get_field rd name (xs @ ys) cur = (case get_field rd name xs cur of None \<Rightarrow> None | Some x \<Rightarrow> get_field rd name ys x)"
proof (induction xs arbitrary: cur)
  case (Cons m xs)
  obtain k raw where "m = (k, raw)" by fastforce
  then show ?case by (cases "foldName k = foldName name"; cases "rd cur raw") (simp_all add: Cons.IH)
qed simp

lemma get_field_other:
  "foldName k \<noteq> foldName name \<Longrightarrow> get_field rd name (omit none k raw) cur = Some cur"
  by (simp add: omit_def)

section \<open>Round trip of fields\<close>

text \<open>
  What is written for \<open>x\<close> reads back, into a field that still has its first value \<open>z\<close>, as \<open>held x\<close>.
\<close>

locale wire_field =
  fixes rd :: "'a \<Rightarrow> string \<Rightarrow> 'a option" and wr :: "'b \<Rightarrow> string" and held :: "'b \<Rightarrow> 'a" and z :: 'a
    and ok :: "'b \<Rightarrow> bool" and n :: nat
  assumes reads: "ok x \<Longrightarrow> reads n (wr x)"
    and reread: "ok x \<Longrightarrow> rd z (wr x) = Some (held x)"
begin

lemma get_own:
  "(\<not> none \<Longrightarrow> ok x) \<Longrightarrow> (none \<Longrightarrow> held x = z) \<Longrightarrow> get_field rd name (omit none name (wr x)) z = Some (held x)"
  by (auto simp: omit_def reread)

lemma omit_read: "(\<not> none \<Longrightarrow> ok x) \<Longrightarrow> utf8_valid name \<Longrightarrow> n \<le> m \<Longrightarrow> members_read m (omit none name (wr x))"
  by (auto simp: omit_def intro: reads_mono [OF reads])

end

lemma json_of_reads: "reads n v \<Longrightarrow> n \<le> maxNestingDepth \<Longrightarrow> json_of v = Some (value_of v)"
  using reads_parse [of n v "[]"] by (simp add: json_of_def value_end_def)

text \<open>A list as a fresh slice.\<close>

definition slice :: "'a list \<Rightarrow> 'a slice" where
  "slice xs = (length xs, xs)"

lemma elements_slice [simp]: "elements (slice xs) = xs"
  by (simp add: elements_def slice_def)

lemma slice_empty [simp]: "slice [] = (0, [])" "elements (0, []) = []"
  by (simp_all add: slice_def elements_def)

lemma fill_strings: "fill string_elem z (map JStr xs) [] = Some xs"
  by (induction xs) simp_all

lemma read_strings_back:
  "list_all utf8_valid xs \<Longrightarrow> read_strings (0, []) (marshal_strings xs) = Some (slice xs)"
  using json_of_reads [OF reads_strings(1)] reads_strings(2) [of xs]
  by (simp add: list_all_iff read_strings_def read_array_def fill_strings slice_def maxNestingDepth_def)

interpretation str: wire_field read_string marshal_string "\<lambda>x. x" "[]" utf8_valid 0
  by unfold_locales (auto simp: read_string_def json_of_reads [OF reads_string(1)] reads_string)

interpretation int: wire_field read_int Int_String "\<lambda>x. x" 0 "\<lambda>n. - (2 ^ 63) \<le> n \<and> n < 2 ^ 63" 0
  by unfold_locales (auto simp: read_int_def json_of_reads [OF reads_int(1)] reads_int ParseInt10_String)

interpretation strs: wire_field read_strings marshal_strings slice "(0, [])" "list_all utf8_valid" 1
  using reads_strings(1) by unfold_locales (auto simp: read_strings_back list_all_iff)

interpretation bytes: wire_field read_bytes marshal_bytes "\<lambda>bs. Some (slice bs)" None "\<lambda>_. True" 0
  using reads_quote [OF b64_encode_plain] json_of_reads [OF reads_quote(1) [OF b64_encode_plain]]
  by unfold_locales (simp_all add: marshal_bytes_def read_bytes_def b64_back slice_def)

lemma blob_back [simp]: "map_option elements (map_option slice b) = b"
  by (cases b) simp_all

interpretation blobs: wire_field read_bytes "\<lambda>b. marshal_bytes (bytes_in b)" "map_option slice" None "\<lambda>b. b \<noteq> None" 0
  using bytes.reads bytes.reread by unfold_locales auto

text \<open>A raw message that is written as it stands, nested no deeper than a frame allows.\<close>

interpretation raw: wire_field read_raw marshal_raw "\<lambda>x. x" "[]" "\<lambda>x. reads 9000 x \<and> marshal_raw x = x" 9000
  by unfold_locales (simp_all add: read_raw_def)

text \<open>A Go map has no order; the list that stands for it is in the order of its keys.\<close>

definition map_ok :: "(string \<times> string) list \<Rightarrow> bool" where
  "map_ok m \<longleftrightarrow> sorted (map fst m) \<and> distinct (map fst m) \<and> (\<forall>(k, v)\<in>set m. utf8_valid k \<and> utf8_valid v)"

lemma fill_map_back:
  "distinct (map fst (cur @ m)) \<Longrightarrow> fill_map (map (\<lambda>(k, v). (k, JStr v)) m) cur = Some (cur @ m)"
proof (induction m arbitrary: cur)
  case (Cons x m)
  obtain k v where x: "x = (k, v)" by fastforce
  then have "k \<notin> fst ` set cur" using Cons.prems by auto
  then have "AList.update k v cur = cur @ [(k, v)]" by (induction cur) auto
  then show ?case using Cons x by simp
qed simp

lemma map_reads:
  assumes "map_ok m"
  shows "reads 1 (marshal_map m)" "read_map [] (marshal_map m) = Some m"
proof -
  let ?ms = "map (\<lambda>(k, v). (k, marshal_string v)) m"
  have m: "marshal_map m = raw_object ?ms" using assms by (simp add: marshal_map_def map_ok_def sorted_sort_id sort_key_id_if_sorted)
  have r: "members_read 0 ?ms" using assms by (auto simp: members_read_def map_ok_def reads_string)
  note o = reads_object [OF r]
  show read: "reads 1 (marshal_map m)" using o(1) by (simp add: m maxNestingDepth_def)
  have j: "json_members ?ms = map (\<lambda>(k, v). (k, JStr v)) m"
    using assms by (auto simp: json_members_def map_ok_def reads_string)
  have "json_of (marshal_map m) = Some (JObj (map (\<lambda>(k, v). (k, JStr v)) m))"
    using json_of_reads [OF read] o(2) j by (simp add: m maxNestingDepth_def)
  then show "read_map [] (marshal_map m) = Some m"
    using fill_map_back [of "[]" m] assms by (simp add: read_map_def map_ok_def)
qed

interpretation maps: wire_field read_map marshal_map "\<lambda>x. x" "[]" map_ok 1
  by unfold_locales (rule map_reads, assumption)+

section \<open>Times\<close>

lemma fixed_plain: "list_all plain (fixed k n)"
  using fixed_dec [of k n] by (auto simp: list_all_iff plain_def is_dec_range)

lemma stamp_plain: "stamp_text x = Some s \<Longrightarrow> list_all plain s"
proof -
  have "list_all plain (strip_zeros (fixed 9 n))" for n
    using strip_pad [of "fixed 9 n"] fixed_plain [of 9 n] by (metis list_all_append)
  then have "list_all plain (fraction_text n)" "list_all plain (zone_text z)" for n z
    by (simp_all add: fraction_text_def zone_text_def fixed_plain plain_def del: fixed.simps)
  then show "stamp_text x = Some s \<Longrightarrow> list_all plain s"
    by (auto simp: stamp_text_def Let_def fixed_plain plain_def simp del: fixed.simps split: prod.splits if_splits)
qed

lemma time_reads:
  assumes "marshal_time x = Some raw"
  shows "reads 0 raw" "read_time y raw = Some x"
proof -
  obtain s where s: "stamp_text x = Some s" "raw = quote s" using assms by (auto simp: marshal_time_def)
  show "reads 0 raw" unfolding s(2) by (rule reads_quote(1) [OF stamp_plain [OF s(1)]])
  show "read_time y raw = Some x"
    using stamp_back [of "fst x" "snd x" s] s by (simp add: read_time_def quote_def)
qed

lemma time_read: "marshal_time x = Some raw \<Longrightarrow> utf8_valid name \<Longrightarrow> members_read m (omit False name raw)"
  using reads_mono [OF time_reads(1)] by (auto simp: omit_def)

lemma time_own: "marshal_time x = Some raw \<Longrightarrow> get_field read_time name (omit False name raw) y = Some x"
  by (simp add: omit_def time_reads(2))

section \<open>Round trip of structs\<close>

text \<open>A pointer to a struct with members \<open>enc x\<close>; \<open>enc\<close> may fail.\<close>

definition put_ptr :: "('a \<Rightarrow> (string \<times> string) list option) \<Rightarrow> string \<Rightarrow> 'a option \<Rightarrow> (string \<times> string) list option" where
  "put_ptr enc name p =
     (case p of
        None \<Rightarrow> Some []
      | Some x \<Rightarrow> map_option (\<lambda>ms. [(name, raw_object ms)]) (enc x))"

lemma put_ptr_other:
  "put_ptr enc k p = Some ms \<Longrightarrow> foldName k \<noteq> foldName name \<Longrightarrow> get_field rd name ms cur = Some cur"
  by (auto simp: put_ptr_def split: option.splits)

locale wire_struct =
  fixes dec :: "(string \<times> string) list \<Rightarrow> 'a option" and enc :: "'a \<Rightarrow> (string \<times> string) list option"
    and ok :: "'a \<Rightarrow> bool" and n :: nat
  assumes depth: "n < maxNestingDepth"
    and reads: "ok x \<Longrightarrow> enc x = Some ms \<Longrightarrow> members_read n ms"
    and reread: "ok x \<Longrightarrow> enc x = Some ms \<Longrightarrow> dec ms = Some x"
begin

lemma ptr_read: "(\<And>x. p = Some x \<Longrightarrow> ok x) \<Longrightarrow> put_ptr enc name p = Some ms \<Longrightarrow> utf8_valid name \<Longrightarrow> members_read (Suc n) ms"
  using depth by (auto simp: put_ptr_def intro!: reads_object(1) reads split: option.splits)

lemma ptr_own:
  assumes "\<And>x. p = Some x \<Longrightarrow> ok x" "put_ptr enc name p = Some ms"
  shows "get_field (read_ptr dec) name ms None = Some (Option.bind p enc)"
    "(case Option.bind p enc of None \<Rightarrow> Some None | Some xs \<Rightarrow> map_option Some (dec xs)) = Some p"
proof -
  have "read_ptr dec None (raw_object xs) = Some (Some xs)" if "p = Some x" "enc x = Some xs" for x xs
  proof -
    have r: "members_read n xs" using reads that assms(1) by blast
    have "json_of (raw_object xs) = Some (JObj (json_members xs))"
      using json_of_reads [OF reads_object(1) [OF r]] reads_object(2) [OF r] depth by simp
    moreover have "members_of (raw_object xs) = Some xs" using members_of_object [OF r, of "[]"] depth by simp
    ultimately show ?thesis by (simp add: read_ptr_def)
  qed
  then show "get_field (read_ptr dec) name ms None = Some (Option.bind p enc)"
    using assms(2) by (auto simp: put_ptr_def split: option.splits)
  show "(case Option.bind p enc of None \<Rightarrow> Some None | Some xs \<Rightarrow> map_option Some (dec xs)) = Some p"
    using assms reread by (auto simp: put_ptr_def split: option.splits)
qed

end

end
