(* ===== verification/Wire.thy ===== *)
theory Wire
  imports Wire_Fields
begin

text \<open>
  The JSON of the websocket frames: for each struct of \<^verbatim>\<open>internal/protocol/protocol.go\<close> the members it is
  written as (\<open>_members\<close>) and the struct that members are decoded to (\<open>decode_\<close>), field by field as the
  struct's tags say, and that each reads back what the other wrote. Reading fails on a value of the
  wrong kind; writing fails only on a time outside the years 0 to 9999.
\<close>

section \<open>Structs and their members\<close>

definition Query_members :: "Query \<Rightarrow> (string \<times> string) list" where
  "Query_members x =
     omit False ''op'' (marshal_string (q_Op x))
     @ omit False ''contact_id'' (marshal_string (q_ContactID x))
     @ omit False ''account'' (marshal_string (q_Account x))
     @ omit (q_Nonce x = []) ''nonce'' (marshal_string (q_Nonce x))"

definition decode_Query :: "(string \<times> string) list \<Rightarrow> Query option" where
  "decode_Query ms = do {
     op \<leftarrow> get_field read_string ''op'' ms [];
     contact_id \<leftarrow> get_field read_string ''contact_id'' ms [];
     account \<leftarrow> get_field read_string ''account'' ms [];
     nonce \<leftarrow> get_field read_string ''nonce'' ms [];
     Some \<lparr>q_Op = op, q_ContactID = contact_id, q_Account = account, q_Nonce = nonce\<rparr>
   }"

definition Query_ok :: "Query \<Rightarrow> bool" where
  "Query_ok x \<longleftrightarrow>
     utf8_valid (q_Op x) \<and> utf8_valid (q_ContactID x) \<and> utf8_valid (q_Account x)
     \<and> utf8_valid (q_Nonce x)"

definition QueryResult_members :: "QueryResult \<Rightarrow> (string \<times> string) list" where
  "QueryResult_members x =
     omit (qr_Error x = []) ''error'' (marshal_string (qr_Error x))
     @ omit (qr_Data x = []) ''data'' (marshal_raw (qr_Data x))"

definition decode_QueryResult :: "(string \<times> string) list \<Rightarrow> QueryResult option" where
  "decode_QueryResult ms = do {
     error \<leftarrow> get_field read_string ''error'' ms [];
     data \<leftarrow> get_field read_raw ''data'' ms [];
     Some \<lparr>qr_Error = error, qr_Data = data\<rparr>
   }"

definition QueryResult_ok :: "QueryResult \<Rightarrow> bool" where
  "QueryResult_ok x \<longleftrightarrow>
     utf8_valid (qr_Error x)
     \<and> (qr_Data x = [] \<or> reads 9000 (qr_Data x) \<and> marshal_raw (qr_Data x) = qr_Data x)"

definition Hello_members :: "Hello \<Rightarrow> (string \<times> string) list" where
  "Hello_members x =
     omit False ''device_id'' (marshal_string (h_DeviceID x))
     @ omit (h_Accounts x = []) ''accounts'' (marshal_strings (h_Accounts x))"

definition decode_Hello :: "(string \<times> string) list \<Rightarrow> Hello option" where
  "decode_Hello ms = do {
     device_id \<leftarrow> get_field read_string ''device_id'' ms [];
     accounts \<leftarrow> get_field read_strings ''accounts'' ms (0, []);
     Some \<lparr>h_DeviceID = device_id, h_Accounts = elements accounts\<rparr>
   }"

definition Hello_ok :: "Hello \<Rightarrow> bool" where
  "Hello_ok x \<longleftrightarrow>
     utf8_valid (h_DeviceID x) \<and> list_all utf8_valid (h_Accounts x)"

definition Challenge_members :: "Challenge \<Rightarrow> (string \<times> string) list" where
  "Challenge_members x =
     omit False ''nonce'' (marshal_bytes (ch_Nonce x))"

definition decode_Challenge :: "(string \<times> string) list \<Rightarrow> Challenge option" where
  "decode_Challenge ms = do {
     nonce \<leftarrow> get_field read_bytes ''nonce'' ms None;
     Some \<lparr>ch_Nonce = bytes_in (map_option elements nonce)\<rparr>
   }"

definition Challenge_ok :: "Challenge \<Rightarrow> bool" where
  "Challenge_ok x \<longleftrightarrow> True"

definition Auth_members :: "Auth \<Rightarrow> (string \<times> string) list" where
  "Auth_members x =
     omit False ''signatures'' (marshal_map (au_Signatures x))"

definition decode_Auth :: "(string \<times> string) list \<Rightarrow> Auth option" where
  "decode_Auth ms = do {
     signatures \<leftarrow> get_field read_map ''signatures'' ms [];
     Some \<lparr>au_Signatures = signatures\<rparr>
   }"

definition Auth_ok :: "Auth \<Rightarrow> bool" where
  "Auth_ok x \<longleftrightarrow>
     map_ok (au_Signatures x)"

definition Welcome_members :: "Welcome \<Rightarrow> (string \<times> string) list" where
  "Welcome_members x =
     omit False ''accounts'' (marshal_strings (w_Accounts x))"

definition decode_Welcome :: "(string \<times> string) list \<Rightarrow> Welcome option" where
  "decode_Welcome ms = do {
     accounts \<leftarrow> get_field read_strings ''accounts'' ms (0, []);
     Some \<lparr>w_Accounts = elements accounts\<rparr>
   }"

definition Welcome_ok :: "Welcome \<Rightarrow> bool" where
  "Welcome_ok x \<longleftrightarrow>
     list_all utf8_valid (w_Accounts x)"

definition Control_members :: "Control \<Rightarrow> (string \<times> string) list" where
  "Control_members x =
     omit False ''op'' (marshal_string (c_Op x)) @ omit False ''corr_id'' (marshal_string (c_CorrID x))
     @ omit (c_Account x = []) ''account'' (marshal_string (c_Account x))
     @ omit (c_KeyID x = []) ''key_id'' (marshal_string (c_KeyID x))
     @ omit (c_Hash x = []) ''hash'' (marshal_string (c_Hash x))
     @ omit (c_AllowedOrigins x = []) ''allowed_origins'' (marshal_strings (c_AllowedOrigins x))
     @ omit (c_Version x = 0) ''version'' (Int_String (c_Version x))
     @ omit (bytes_in (c_Blob x) = []) ''blob'' (marshal_bytes (bytes_in (c_Blob x)))
     @ omit (c_Error x = []) ''error'' (marshal_string (c_Error x))"

definition decode_Control :: "(string \<times> string) list \<Rightarrow> Control option" where
  "decode_Control ms = do {
     op \<leftarrow> get_field read_string ''op'' ms [];
     corr_id \<leftarrow> get_field read_string ''corr_id'' ms [];
     account \<leftarrow> get_field read_string ''account'' ms [];
     key_id \<leftarrow> get_field read_string ''key_id'' ms [];
     hash \<leftarrow> get_field read_string ''hash'' ms [];
     allowed_origins \<leftarrow> get_field read_strings ''allowed_origins'' ms (0, []);
     version \<leftarrow> get_field read_int ''version'' ms 0;
     blob \<leftarrow> get_field read_bytes ''blob'' ms None;
     error \<leftarrow> get_field read_string ''error'' ms [];
     Some \<lparr>c_Op = op, c_CorrID = corr_id, c_Account = account, c_KeyID = key_id, c_Hash = hash,
       c_AllowedOrigins = elements allowed_origins, c_Version = version, c_Blob = map_option elements blob,
       c_Error = error\<rparr>
   }"

definition Control_ok :: "Control \<Rightarrow> bool" where
  "Control_ok x \<longleftrightarrow>
     utf8_valid (c_Op x) \<and> utf8_valid (c_CorrID x) \<and> utf8_valid (c_Account x)
     \<and> utf8_valid (c_KeyID x) \<and> utf8_valid (c_Hash x)
     \<and> list_all utf8_valid (c_AllowedOrigins x)
     \<and> - (2 ^ 63) \<le> c_Version x \<and> c_Version x < 2 ^ 63 \<and> c_Blob x \<noteq> Some []
     \<and> utf8_valid (c_Error x)"

definition TxRequest_members :: "TxRequest \<Rightarrow> ((string \<times> string) list) option" where
  "TxRequest_members x = do {
     t \<leftarrow> marshal_time (tr_CreatedAt x, 0);
     Some (omit False ''id'' (marshal_string (tr_ID x))
     @ omit False ''contact_id'' (marshal_string (tr_ContactID x))
     @ omit (tr_ContactName x = []) ''contact_name'' (marshal_string (tr_ContactName x))
     @ omit False ''kind'' (marshal_string (tr_Kind x))
     @ omit (tr_Account x = []) ''account'' (marshal_string (tr_Account x))
     @ omit (tr_Counterparty x = []) ''counterparty'' (marshal_string (tr_Counterparty x))
     @ omit (tr_Destination x = []) ''destination'' (marshal_string (tr_Destination x))
     @ omit (tr_AmountRaw x = []) ''amount_raw'' (marshal_string (tr_AmountRaw x))
     @ omit (tr_Memo x = []) ''memo'' (marshal_string (tr_Memo x))
     @ omit False ''nonce'' (marshal_string (tr_Nonce x)) @ omit False ''created_at'' t
     @ omit (tr_ActionOverride x = []) ''action_override'' (marshal_string (tr_ActionOverride x)))
   }"

definition decode_TxRequest :: "(string \<times> string) list \<Rightarrow> TxRequest option" where
  "decode_TxRequest ms = do {
     ident \<leftarrow> get_field read_string ''id'' ms [];
     contact_id \<leftarrow> get_field read_string ''contact_id'' ms [];
     contact_name \<leftarrow> get_field read_string ''contact_name'' ms [];
     kind \<leftarrow> get_field read_string ''kind'' ms [];
     account \<leftarrow> get_field read_string ''account'' ms [];
     counterparty \<leftarrow> get_field read_string ''counterparty'' ms [];
     destination \<leftarrow> get_field read_string ''destination'' ms [];
     amount_raw \<leftarrow> get_field read_string ''amount_raw'' ms [];
     memo \<leftarrow> get_field read_string ''memo'' ms [];
     nonce \<leftarrow> get_field read_string ''nonce'' ms [];
     created_at \<leftarrow> get_field read_time ''created_at'' ms (zero_time, 0);
     action_override \<leftarrow> get_field read_string ''action_override'' ms [];
     Some \<lparr>tr_ID = ident, tr_ContactID = contact_id, tr_ContactName = contact_name, tr_Kind = kind,
       tr_Account = account, tr_Counterparty = counterparty, tr_Destination = destination,
       tr_AmountRaw = amount_raw, tr_Memo = memo, tr_Nonce = nonce, tr_CreatedAt = fst created_at,
       tr_ActionOverride = action_override\<rparr>
   }"

definition TxRequest_ok :: "TxRequest \<Rightarrow> bool" where
  "TxRequest_ok x \<longleftrightarrow>
     utf8_valid (tr_ID x) \<and> utf8_valid (tr_ContactID x) \<and> utf8_valid (tr_ContactName x)
     \<and> utf8_valid (tr_Kind x) \<and> utf8_valid (tr_Account x) \<and> utf8_valid (tr_Counterparty x)
     \<and> utf8_valid (tr_Destination x) \<and> utf8_valid (tr_AmountRaw x) \<and> utf8_valid (tr_Memo x)
     \<and> utf8_valid (tr_Nonce x) \<and> utf8_valid (tr_ActionOverride x)"

definition SignedBlock_members :: "SignedBlock \<Rightarrow> (string \<times> string) list" where
  "SignedBlock_members x =
     omit False ''type'' (marshal_string (sb_Type x))
     @ omit False ''account'' (marshal_string (sb_Account x))
     @ omit False ''previous'' (marshal_string (sb_Previous x))
     @ omit False ''representative'' (marshal_string (sb_Representative x))
     @ omit False ''balance'' (marshal_string (sb_Balance x))
     @ omit False ''link'' (marshal_string (sb_Link x))
     @ omit False ''signature'' (marshal_string (sb_Signature x))
     @ omit False ''work'' (marshal_string (sb_Work x))
     @ omit False ''subtype'' (marshal_string (sb_Subtype x))"

definition decode_SignedBlock :: "(string \<times> string) list \<Rightarrow> SignedBlock option" where
  "decode_SignedBlock ms = do {
     ty \<leftarrow> get_field read_string ''type'' ms [];
     account \<leftarrow> get_field read_string ''account'' ms [];
     previous \<leftarrow> get_field read_string ''previous'' ms [];
     representative \<leftarrow> get_field read_string ''representative'' ms [];
     balance \<leftarrow> get_field read_string ''balance'' ms [];
     lnk \<leftarrow> get_field read_string ''link'' ms [];
     signature \<leftarrow> get_field read_string ''signature'' ms [];
     work \<leftarrow> get_field read_string ''work'' ms [];
     subtype \<leftarrow> get_field read_string ''subtype'' ms [];
     Some \<lparr>sb_Type = ty, sb_Account = account, sb_Previous = previous,
       sb_Representative = representative, sb_Balance = balance, sb_Link = lnk, sb_Signature = signature,
       sb_Work = work, sb_Subtype = subtype\<rparr>
   }"

definition SignedBlock_ok :: "SignedBlock \<Rightarrow> bool" where
  "SignedBlock_ok x \<longleftrightarrow>
     utf8_valid (sb_Type x) \<and> utf8_valid (sb_Account x) \<and> utf8_valid (sb_Previous x)
     \<and> utf8_valid (sb_Representative x) \<and> utf8_valid (sb_Balance x) \<and> utf8_valid (sb_Link x)
     \<and> utf8_valid (sb_Signature x) \<and> utf8_valid (sb_Work x) \<and> utf8_valid (sb_Subtype x)"

definition TxResult_members :: "TxResult \<Rightarrow> ((string \<times> string) list) option" where
  "TxResult_members x = do {
     p0 \<leftarrow> put_ptr (\<lambda>x. Some (SignedBlock_members x)) ''signed_block'' (res_SignedBlock x);
     t \<leftarrow> marshal_time (res_DecidedAt x);
     Some (omit False ''request_id'' (marshal_string (res_RequestID x))
     @ omit False ''status'' (marshal_string (res_Status x))
     @ omit (res_BlockHash x = []) ''block_hash'' (marshal_string (res_BlockHash x)) @ p0
     @ omit (res_Reason x = []) ''reason'' (marshal_string (res_Reason x)) @ omit False ''decided_at'' t)
   }"

definition decode_TxResult :: "(string \<times> string) list \<Rightarrow> TxResult option" where
  "decode_TxResult ms = do {
     request_id \<leftarrow> get_field read_string ''request_id'' ms [];
     status \<leftarrow> get_field read_string ''status'' ms [];
     block_hash \<leftarrow> get_field read_string ''block_hash'' ms [];
     signed_block \<leftarrow> get_ptr decode_SignedBlock ''signed_block'' ms;
     reason \<leftarrow> get_field read_string ''reason'' ms [];
     decided_at \<leftarrow> get_field read_time ''decided_at'' ms (zero_time, 0);
     Some \<lparr>res_RequestID = request_id, res_Status = status, res_BlockHash = block_hash,
       res_SignedBlock = signed_block, res_Reason = reason, res_DecidedAt = decided_at\<rparr>
   }"

definition TxResult_ok :: "TxResult \<Rightarrow> bool" where
  "TxResult_ok x \<longleftrightarrow>
     utf8_valid (res_RequestID x) \<and> utf8_valid (res_Status x) \<and> utf8_valid (res_BlockHash x)
     \<and> pred_option SignedBlock_ok (res_SignedBlock x) \<and> utf8_valid (res_Reason x)"

section \<open>Round trip\<close>

lemma field_names [simp]:
  "field_name ''account''" "field_name ''accounts''" "field_name ''action_override''"
  "field_name ''allowed_origins''" "field_name ''amount_raw''" "field_name ''auth''"
  "field_name ''balance''" "field_name ''blob''" "field_name ''block_hash''" "field_name ''challenge''"
  "field_name ''contact_id''" "field_name ''contact_name''" "field_name ''control''"
  "field_name ''corr_id''" "field_name ''counterparty''" "field_name ''created_at''" "field_name ''data''"
  "field_name ''decided_at''" "field_name ''destination''" "field_name ''device_id''" "field_name ''error''"
  "field_name ''hash''" "field_name ''hello''" "field_name ''id''" "field_name ''key_id''"
  "field_name ''kind''" "field_name ''link''" "field_name ''memo''" "field_name ''nonce''"
  "field_name ''op''" "field_name ''previous''" "field_name ''query''" "field_name ''query_result''"
  "field_name ''reason''" "field_name ''representative''" "field_name ''request''"
  "field_name ''request_id''" "field_name ''result''" "field_name ''signature''" "field_name ''signatures''"
  "field_name ''signed_block''" "field_name ''status''" "field_name ''subtype''" "field_name ''type''"
  "field_name ''version''" "field_name ''welcome''" "field_name ''work''"
  by (simp_all add: field_name_def)

lemmas wire_simps = get_field_append get_field_other same_name field_name_utf8 str.get_own int.get_own strs.get_own
  bytes.get_own blobs.get_own raw.get_own maps.get_own time_own

lemmas wire_reads = str.omit_read int.omit_read strs.omit_read bytes.omit_read blobs.omit_read raw.omit_read maps.omit_read field_name_utf8

interpretation query: wire_struct decode_Query "\<lambda>x. Some (Query_members x)" Query_ok 0
  by unfold_locales
     (auto simp: maxNestingDepth_def decode_Query_def Query_members_def Query_ok_def wire_simps intro!: wire_reads)

interpretation queryresult: wire_struct decode_QueryResult "\<lambda>x. Some (QueryResult_members x)" QueryResult_ok 9000
proof unfold_locales
  fix x ms
  assume ok: "QueryResult_ok x" and ms: "Some (QueryResult_members x) = Some ms"
  have raw: "qr_Data x \<noteq> [] \<Longrightarrow> reads 9000 (qr_Data x) \<and> marshal_raw (qr_Data x) = qr_Data x"
    using ok by (simp add: QueryResult_ok_def)
  have error: "utf8_valid (qr_Error x)" using ok by (simp add: QueryResult_ok_def)
  note data = raw.get_own [OF raw, of "qr_Data x = []" "''data''"]
  have "members_read 9000 (omit (qr_Data x = []) ''data'' (marshal_raw (qr_Data x)))"
    by (rule raw.omit_read) (use raw in \<open>auto intro: field_name_utf8\<close>)
  then show "members_read 9000 ms" using ms error by (auto simp: QueryResult_members_def intro!: wire_reads)
  show "decode_QueryResult ms = Some x" using ms error data
    by (auto simp: QueryResult_members_def decode_QueryResult_def wire_simps)
qed (simp add: maxNestingDepth_def)

interpretation hello: wire_struct decode_Hello "\<lambda>x. Some (Hello_members x)" Hello_ok 1
  by unfold_locales
     (auto simp: maxNestingDepth_def decode_Hello_def Hello_members_def Hello_ok_def wire_simps intro!: wire_reads)

interpretation challenge: wire_struct decode_Challenge "\<lambda>x. Some (Challenge_members x)" Challenge_ok 0
  by unfold_locales
     (auto simp: maxNestingDepth_def decode_Challenge_def Challenge_members_def Challenge_ok_def wire_simps intro!: wire_reads)

interpretation auth: wire_struct decode_Auth "\<lambda>x. Some (Auth_members x)" Auth_ok 1
  by unfold_locales
     (auto simp: maxNestingDepth_def decode_Auth_def Auth_members_def Auth_ok_def wire_simps intro!: wire_reads)

interpretation greeting: wire_struct decode_Welcome "\<lambda>x. Some (Welcome_members x)" Welcome_ok 1
  by unfold_locales
     (auto simp: maxNestingDepth_def decode_Welcome_def Welcome_members_def Welcome_ok_def wire_simps intro!: wire_reads)

interpretation control: wire_struct decode_Control "\<lambda>x. Some (Control_members x)" Control_ok 1
proof unfold_locales
  fix x ms
  assume ok: "Control_ok x" and ms: "Some (Control_members x) = Some ms"
  have none: "bytes_in (c_Blob x) = [] \<Longrightarrow> map_option slice (c_Blob x) = None" "bytes_in (c_Blob x) \<noteq> [] \<Longrightarrow> c_Blob x \<noteq> None"
    using ok by (cases "c_Blob x"; simp add: Control_ok_def)+
  note own = blobs.get_own [where name = "''blob''", OF none(2,1)]
  have blob: "members_read 1 (omit (bytes_in (c_Blob x) = []) ''blob'' (marshal_bytes (bytes_in (c_Blob x))))"
    by (rule blobs.omit_read [OF none(2)]) (simp_all add: field_name_utf8)
  show "members_read 1 ms" using ms ok blob
    by (auto simp: Control_members_def Control_ok_def intro!: wire_reads)
  show "decode_Control ms = Some x" using ms ok
    by (auto simp: Control_members_def Control_ok_def decode_Control_def own wire_simps)
qed (simp add: maxNestingDepth_def)

interpretation signedblock: wire_struct decode_SignedBlock "\<lambda>x. Some (SignedBlock_members x)" SignedBlock_ok 0
  by unfold_locales
     (auto simp: maxNestingDepth_def decode_SignedBlock_def SignedBlock_members_def SignedBlock_ok_def wire_simps intro!: wire_reads)

interpretation txrequest: wire_struct decode_TxRequest TxRequest_members TxRequest_ok 0
proof unfold_locales
  fix x ms
  assume ok: "TxRequest_ok x" and "TxRequest_members x = Some ms"
  then obtain t where t: "marshal_time (tr_CreatedAt x, 0) = Some t"
    and ms: "TxRequest_members x = Some ms" by (auto simp: TxRequest_members_def bind_eq_Some_conv)
  show "members_read 0 ms" using ms ok time_reads(1) [OF t]
    by (auto simp: TxRequest_members_def TxRequest_ok_def t intro!: wire_reads time_read [OF t])
  show "decode_TxRequest ms = Some x" using ms ok
    by (auto simp: TxRequest_members_def TxRequest_ok_def decode_TxRequest_def t time_own [OF t] wire_simps)
qed (simp add: maxNestingDepth_def)

interpretation txresult: wire_struct decode_TxResult TxResult_members TxResult_ok 1
proof unfold_locales
  fix x ms
  assume ok: "TxResult_ok x" and ms: "TxResult_members x = Some ms"
  then obtain p t where t: "marshal_time (res_DecidedAt x) = Some t"
    and p: "put_ptr (\<lambda>x. Some (SignedBlock_members x)) ''signed_block'' (res_SignedBlock x) = Some p"
    by (auto simp: TxResult_members_def bind_eq_Some_conv)
  have b: "SignedBlock_ok y" if "res_SignedBlock x = Some y" for y using ok that by (simp add: TxResult_ok_def)
  note own = signedblock.ptr_own [OF b p] and other = put_ptr_other [OF p]
  show "members_read 1 ms" using ms ok signedblock.ptr_read [OF b p field_name_utf8]
    by (auto simp: TxResult_members_def TxResult_ok_def t p intro!: wire_reads time_read [OF t])
  show "decode_TxResult ms = Some x" using ms ok
    by (auto simp: TxResult_members_def TxResult_ok_def decode_TxResult_def t p time_own [OF t] wire_simps get_ptr_def own other)
qed (simp add: maxNestingDepth_def)

end
