(* ===== verification/Wire_Frames.thy ===== *)
theory Wire_Frames
  imports Wire
begin

text \<open>
  The frames of the agent websocket as texts: the envelope's members, what \<^verbatim>\<open>WriteJSON\<close> sends and what
  \<^verbatim>\<open>ReadJSON\<close> makes of a message, and that a frame survives the wire.
\<close>

section \<open>Envelopes\<close>

definition Envelope_members :: "Envelope \<Rightarrow> ((string \<times> string) list) option" where
  "Envelope_members x = do {
     p0 \<leftarrow> put_ptr (\<lambda>x. Some (Hello_members x)) ''hello'' (e_Hello x);
     p1 \<leftarrow> put_ptr (\<lambda>x. Some (Challenge_members x)) ''challenge'' (e_Challenge x);
     p2 \<leftarrow> put_ptr (\<lambda>x. Some (Auth_members x)) ''auth'' (e_Auth x);
     p3 \<leftarrow> put_ptr (\<lambda>x. Some (Welcome_members x)) ''welcome'' (e_Welcome x);
     p4 \<leftarrow> put_ptr TxRequest_members ''request'' (e_Request x);
     p5 \<leftarrow> put_ptr TxResult_members ''result'' (e_Result x);
     p6 \<leftarrow> put_ptr (\<lambda>x. Some (Control_members x)) ''control'' (e_Control x);
     p7 \<leftarrow> put_ptr (\<lambda>x. Some (Query_members x)) ''query'' (e_Query x);
     p8 \<leftarrow> put_ptr (\<lambda>x. Some (QueryResult_members x)) ''query_result'' (e_QueryResult x);
     Some (omit False ''version'' (Int_String (e_Version x)) @ omit False ''type'' (marshal_string (e_Type x))
     @ omit (e_ID x = []) ''id'' (marshal_string (e_ID x)) @ p0 @ p1 @ p2 @ p3 @ p4 @ p5 @ p6 @ p7 @ p8
     @ omit (e_Error x = []) ''error'' (marshal_string (e_Error x)))
   }"

definition decode_Envelope :: "(string \<times> string) list \<Rightarrow> Envelope option" where
  "decode_Envelope ms = do {
     version \<leftarrow> get_field read_int ''version'' ms 0;
     ty \<leftarrow> get_field read_string ''type'' ms [];
     ident \<leftarrow> get_field read_string ''id'' ms [];
     hello \<leftarrow> get_ptr decode_Hello ''hello'' ms;
     challenge \<leftarrow> get_ptr decode_Challenge ''challenge'' ms;
     auth \<leftarrow> get_ptr decode_Auth ''auth'' ms;
     welcome \<leftarrow> get_ptr decode_Welcome ''welcome'' ms;
     request \<leftarrow> get_ptr decode_TxRequest ''request'' ms;
     result \<leftarrow> get_ptr decode_TxResult ''result'' ms;
     control \<leftarrow> get_ptr decode_Control ''control'' ms;
     query \<leftarrow> get_ptr decode_Query ''query'' ms;
     query_result \<leftarrow> get_ptr decode_QueryResult ''query_result'' ms;
     error \<leftarrow> get_field read_string ''error'' ms [];
     Some \<lparr>e_Version = version, e_Type = ty, e_ID = ident, e_Hello = hello, e_Challenge = challenge,
       e_Auth = auth, e_Welcome = welcome, e_Request = request, e_Result = result, e_Control = control,
       e_Query = query, e_QueryResult = query_result, e_Error = error\<rparr>
   }"

definition Envelope_ok :: "Envelope \<Rightarrow> bool" where
  "Envelope_ok x \<longleftrightarrow>
     - (2 ^ 63) \<le> e_Version x \<and> e_Version x < 2 ^ 63 \<and> utf8_valid (e_Type x)
     \<and> utf8_valid (e_ID x) \<and> pred_option Hello_ok (e_Hello x)
     \<and> pred_option Challenge_ok (e_Challenge x) \<and> pred_option Auth_ok (e_Auth x)
     \<and> pred_option Welcome_ok (e_Welcome x) \<and> pred_option TxRequest_ok (e_Request x)
     \<and> pred_option TxResult_ok (e_Result x) \<and> pred_option Control_ok (e_Control x)
     \<and> pred_option Query_ok (e_Query x) \<and> pred_option QueryResult_ok (e_QueryResult x)
     \<and> utf8_valid (e_Error x)"

section \<open>Frames\<close>

text \<open>\<^verbatim>\<open>WriteJSON\<close>: the frame and a line end; \<open>None\<close> when it cannot be encoded.\<close>

definition marshal_frame :: "Envelope \<Rightarrow> string option" where
  "marshal_frame env = map_option (\<lambda>ms. raw_object ms @ [CHR 0x0A]) (Envelope_members env)"

text \<open>
  \<^verbatim>\<open>ReadJSON\<close> of one message: its first value, into a fresh envelope. \<^verbatim>\<open>null\<close> leaves that as it is, any other
  value that is no object is an error; what follows the value is not looked at.
\<close>

definition read_frame :: "string \<Rightarrow> Envelope option" where
  "read_frame text =
     (case json_of text of
        Some (JObj _) \<Rightarrow> Option.bind (members_of text) decode_Envelope
      | Some JNull \<Rightarrow> Some zero_Envelope
      | _ \<Rightarrow> None)"

section \<open>Round trip of frames\<close>

lemma members_read_mono: "members_read n ms \<Longrightarrow> n \<le> m \<Longrightarrow> members_read m ms"
  by (auto simp: members_read_def intro: reads_mono)

interpretation envelope: wire_struct decode_Envelope Envelope_members Envelope_ok 9001
proof unfold_locales
  fix x ms
  assume ok: "Envelope_ok x" and ms: "Envelope_members x = Some ms"
  then obtain p0 p1 p2 p3 p4 p5 p6 p7 p8 where
    p0: "put_ptr (\<lambda>x. Some (Hello_members x)) ''hello'' (e_Hello x) = Some p0" and
    p1: "put_ptr (\<lambda>x. Some (Challenge_members x)) ''challenge'' (e_Challenge x) = Some p1" and
    p2: "put_ptr (\<lambda>x. Some (Auth_members x)) ''auth'' (e_Auth x) = Some p2" and
    p3: "put_ptr (\<lambda>x. Some (Welcome_members x)) ''welcome'' (e_Welcome x) = Some p3" and
    p4: "put_ptr TxRequest_members ''request'' (e_Request x) = Some p4" and
    p5: "put_ptr TxResult_members ''result'' (e_Result x) = Some p5" and
    p6: "put_ptr (\<lambda>x. Some (Control_members x)) ''control'' (e_Control x) = Some p6" and
    p7: "put_ptr (\<lambda>x. Some (Query_members x)) ''query'' (e_Query x) = Some p7" and
    p8: "put_ptr (\<lambda>x. Some (QueryResult_members x)) ''query_result'' (e_QueryResult x) = Some p8"
    by (auto simp: Envelope_members_def bind_eq_Some_conv)
  have ok_ptr: "\<And>y. e_Hello x = Some y \<Longrightarrow> Hello_ok y"
    "\<And>y. e_Challenge x = Some y \<Longrightarrow> Challenge_ok y"
    "\<And>y. e_Auth x = Some y \<Longrightarrow> Auth_ok y"
    "\<And>y. e_Welcome x = Some y \<Longrightarrow> Welcome_ok y"
    "\<And>y. e_Request x = Some y \<Longrightarrow> TxRequest_ok y"
    "\<And>y. e_Result x = Some y \<Longrightarrow> TxResult_ok y"
    "\<And>y. e_Control x = Some y \<Longrightarrow> Control_ok y"
    "\<And>y. e_Query x = Some y \<Longrightarrow> Query_ok y"
    "\<And>y. e_QueryResult x = Some y \<Longrightarrow> QueryResult_ok y"
    using ok by (simp_all add: Envelope_ok_def)
  note p = p0 p1 p2 p3 p4 p5 p6 p7 p8
  note own = hello.ptr_own [OF ok_ptr(1) p0]
    challenge.ptr_own [OF ok_ptr(2) p1]
    auth.ptr_own [OF ok_ptr(3) p2]
    greeting.ptr_own [OF ok_ptr(4) p3]
    txrequest.ptr_own [OF ok_ptr(5) p4]
    txresult.ptr_own [OF ok_ptr(6) p5]
    control.ptr_own [OF ok_ptr(7) p6]
    query.ptr_own [OF ok_ptr(8) p7]
    queryresult.ptr_own [OF ok_ptr(9) p8]
  note read = hello.ptr_read [OF ok_ptr(1) p0 field_name_utf8]
    challenge.ptr_read [OF ok_ptr(2) p1 field_name_utf8]
    auth.ptr_read [OF ok_ptr(3) p2 field_name_utf8]
    greeting.ptr_read [OF ok_ptr(4) p3 field_name_utf8]
    txrequest.ptr_read [OF ok_ptr(5) p4 field_name_utf8]
    txresult.ptr_read [OF ok_ptr(6) p5 field_name_utf8]
    control.ptr_read [OF ok_ptr(7) p6 field_name_utf8]
    query.ptr_read [OF ok_ptr(8) p7 field_name_utf8]
    queryresult.ptr_read [OF ok_ptr(9) p8 field_name_utf8]
  note deep = members_read_mono [OF read(1)] members_read_mono [OF read(2)] members_read_mono [OF read(3)] members_read_mono [OF read(4)] members_read_mono [OF read(5)] members_read_mono [OF read(6)] members_read_mono [OF read(7)] members_read_mono [OF read(8)] members_read_mono [OF read(9)]
  note other = put_ptr_other [OF p0] put_ptr_other [OF p1] put_ptr_other [OF p2] put_ptr_other [OF p3] put_ptr_other [OF p4] put_ptr_other [OF p5] put_ptr_other [OF p6] put_ptr_other [OF p7] put_ptr_other [OF p8]
  show "members_read 9001 ms" using ms ok
    by (auto simp: Envelope_members_def Envelope_ok_def p intro!: wire_reads deep)
  show "decode_Envelope ms = Some x" using ms ok
    by (auto simp: Envelope_members_def Envelope_ok_def decode_Envelope_def p wire_simps get_ptr_def own other)
qed (simp add: maxNestingDepth_def)

text \<open>
  A frame survives the wire: what \<^verbatim>\<open>WriteJSON\<close> sends for an envelope reads back as that envelope.
\<close>

lemma frame_back:
  assumes "Envelope_ok env" "marshal_frame env = Some s"
  shows "read_frame s = Some env"
proof -
  obtain ms where ms: "Envelope_members env = Some ms" "s = raw_object ms @ [CHR 0x0A]"
    using assms(2) by (auto simp: marshal_frame_def)
  have r: "members_read 9001 ms" by (rule envelope.reads [OF assms(1) ms(1)])
  have m: "members_of s = Some ms" unfolding ms(2)
    by (rule members_of_object [OF r]) (simp add: maxNestingDepth_def)
  have "json_of s = Some (value_of (raw_object ms))" unfolding ms(2)
    using reads_parse [OF reads_object(1) [OF r], of "[CHR 0x0A]"]
    by (simp add: json_of_def value_end_def maxNestingDepth_def)
  then have "json_of s = Some (JObj (json_members ms))"
    using reads_object(2) [OF r] by (simp add: maxNestingDepth_def)
  then show ?thesis using m envelope.reread [OF assms(1) ms(1)] by (simp add: read_frame_def)
qed

section \<open>What is read is valid UTF-8\<close>

lemma json_of_utf8: "json_of raw = Some j \<Longrightarrow> json_utf8 j"
  using value_of_utf8 [of raw] by (auto simp: json_of_def value_of_def)

lemma get_field_keeps:
  assumes "\<And>cur raw x. P cur \<Longrightarrow> rd cur raw = Some x \<Longrightarrow> P x"
  shows "P cur \<Longrightarrow> get_field rd name ms cur = Some x \<Longrightarrow> P x"
proof (induction ms arbitrary: cur)
  case (Cons m ms)
  obtain k raw where "m = (k, raw)" by fastforce
  then show ?case using Cons assms by (auto split: if_splits option.splits)
qed simp

lemma fill_utf8:
  "list_all json_utf8 js \<Longrightarrow> list_all utf8_valid cur \<Longrightarrow> utf8_valid z \<Longrightarrow> fill string_elem z js cur = Some xs \<Longrightarrow>
   list_all utf8_valid xs"
proof (induction js arbitrary: cur xs)
  case (Cons j js)
  let ?o = "case cur of [] \<Rightarrow> z | x # _ \<Rightarrow> x"
  obtain x ys where x: "string_elem ?o j = Some x" "fill string_elem z js (drop 1 cur) = Some ys" "xs = x # ys"
    using Cons.prems(4) by (auto split: option.splits)
  have "utf8_valid ?o" using Cons.prems(2,3) by (cases cur) auto
  then have "utf8_valid x" using x(1) Cons.prems(1) by (cases j) auto
  moreover have "list_all utf8_valid (drop 1 cur)" using Cons.prems(2) by (cases cur) auto
  ultimately show ?case using Cons.IH [OF _ _ Cons.prems(3) x(2)] Cons.prems(1) x(3) by simp
qed simp

lemma read_strings_utf8:
  assumes "list_all utf8_valid (snd cur)" "read_strings cur raw = Some x"
  shows "list_all utf8_valid (snd x)"
proof -
  have nil: "utf8_valid []" by (subst utf8_valid.simps) simp
  show ?thesis using assms fill_utf8 [OF _ assms(1) nil] json_of_utf8 [of raw]
    by (auto simp: read_strings_def read_array_def list_all_iff split: option.splits json.splits if_splits)
qed

lemma elements_utf8: "list_all utf8_valid (snd x) \<Longrightarrow> list_all utf8_valid (elements x)"
  by (auto simp: elements_def list_all_iff dest: in_set_takeD)

lemma decode_Control_utf8:
  assumes "decode_Control ms = Some c"
  shows "list_all utf8_valid (c_AllowedOrigins c)"
proof -
  obtain x where x: "get_field read_strings ''allowed_origins'' ms (0, []) = Some x" "c_AllowedOrigins c = elements x"
    using assms by (auto simp: decode_Control_def bind_eq_Some_conv)
  have "list_all utf8_valid (snd x)"
    by (rule get_field_keeps [where P = "\<lambda>x. list_all utf8_valid (snd x)", OF read_strings_utf8 _ x(1)]) simp_all
  then show ?thesis by (simp add: x(2) elements_utf8)
qed

lemma decode_Envelope_utf8:
  assumes "decode_Envelope ms = Some env" "e_Control env = Some c"
  shows "list_all utf8_valid (c_AllowedOrigins c)"
proof -
  have "get_ptr decode_Control ''control'' ms = Some (e_Control env)"
    using assms(1) by (auto simp: decode_Envelope_def bind_eq_Some_conv)
  then obtain xs where "decode_Control xs = Some c" using assms(2) by (auto simp: get_ptr_def split: option.splits)
  then show ?thesis by (rule decode_Control_utf8)
qed

end
