(* ===== verification/Wire_Props.thy ===== *)
theory Wire_Props
  imports Wire_Frames Relay_Calls Timers
begin

text \<open>
  The relay at the level of bytes: a device's connection as the texts it sends, the bodies of responses as
  texts, and what the codec of the frames means for devices and callers.
\<close>

section \<open>A connection as texts\<close>

text \<open>The read limit is set when enrolment is over, that is after two messages.\<close>

definition read_message :: "string \<Rightarrow> Envelope option" where
  "read_message text = (if readLimit < length text then None else read_frame text)"

definition agent_messages :: "string list \<Rightarrow> inbound" where
  "agent_messages texts = map read_frame (take 2 texts) @ map read_message (drop 2 texts)"

lemma read_frame_cases:
  assumes "read_frame text = Some env"
  obtains "env = zero_Envelope" | ms where "decode_Envelope ms = Some env"
proof (cases "json_of text")
  case (Some j)
  then show ?thesis using assms that by (cases j) (auto simp: read_frame_def bind_eq_Some_conv)
qed (use assms in \<open>simp add: read_frame_def\<close>)

lemma read_frame_origins: "origins_ok utf8_valid (read_frame text)"
proof (cases "read_frame text")
  case (Some env)
  have "list_all utf8_valid (c_AllowedOrigins c)" if "e_Control env = Some c" for c
    using Some
  proof (cases rule: read_frame_cases)
    case 1
    then show ?thesis using that by (simp add: zero_Envelope_def)
  next
    case (2 ms)
    then show ?thesis using that by (rule decode_Envelope_utf8)
  qed
  then show ?thesis by (simp add: origins_ok_def Some split: option.split)
qed (simp add: origins_ok_def)

lemma agent_messages_ok: "list_all (origins_ok utf8_valid) (agent_messages texts)"
  by (auto simp: agent_messages_def list_all_iff read_frame_origins read_message_def)
     (simp add: origins_ok_def)

section \<open>Responses as texts\<close>

text \<open>
  The text of a body: \<^verbatim>\<open>Encode\<close> writes a value and a line end, or nothing when the value cannot be
  encoded; a map is written in the order of its keys. What \<^verbatim>\<open>net/http\<close> writes for a redirect or
  after a panic is left open.
\<close>

fun body_text :: "body \<Rightarrow> string option" where
  "body_text NoBody = Some []"
| "body_text (ErrorJSON msg) = Some (raw_object [(''error'', marshal_string msg)] @ [CHR 0x0A])"
| "body_text (StatusJSON contact account online) =
     Some (raw_object [(''account'', marshal_string account), (''contact_id'', marshal_string contact),
       (''device_online'', if online then ''true'' else ''false'')] @ [CHR 0x0A])"
| "body_text (ResultJSON res) =
     (case TxResult_members res of
        None \<Rightarrow> Some []
      | Some ms \<Rightarrow> Some (raw_object ms @ [CHR 0x0A]))"
| "body_text (Bytes b) = Some b"
| "body_text (MovedTo url) = None"
| "body_text (Aborted e) = None"

section \<open>Decoded structs can be written again\<close>

lemma read_string_utf8: "utf8_valid cur \<Longrightarrow> read_string cur raw = Some x \<Longrightarrow> utf8_valid x"
  using json_of_utf8 [of raw] by (auto simp: read_string_def split: option.splits json.splits)

lemma get_string_utf8: "get_field read_string name ms [] = Some x \<Longrightarrow> utf8_valid x"
  by (rule get_field_keeps [where P = utf8_valid, OF read_string_utf8]) simp_all

lemma decode_SignedBlock_ok: "decode_SignedBlock ms = Some b \<Longrightarrow> SignedBlock_ok b"
  by (auto simp: decode_SignedBlock_def bind_eq_Some_conv SignedBlock_ok_def dest!: get_string_utf8)

lemma get_ptr_keeps:
  assumes "\<And>xs y. dec xs = Some y \<Longrightarrow> P y" "get_ptr dec name ms = Some p"
  shows "pred_option P p"
  using assms by (auto simp: get_ptr_def split: option.splits)

lemma decode_TxResult_ok:
  assumes "decode_TxResult ms = Some res"
  shows "TxResult_ok res"
proof -
  have "get_ptr decode_SignedBlock ''signed_block'' ms = Some (res_SignedBlock res)"
    using assms by (auto simp: decode_TxResult_def bind_eq_Some_conv)
  from get_ptr_keeps [OF decode_SignedBlock_ok this] show ?thesis
    using assms by (auto simp: decode_TxResult_def bind_eq_Some_conv TxResult_ok_def dest!: get_string_utf8)
qed

text \<open>A time that was read can be written unless its zone is a day or more away.\<close>

definition zone_ok :: "stamp \<Rightarrow> bool" where
  "zone_ok x \<longleftrightarrow> (stamp_text x = None \<longleftrightarrow> 24 * 60 \<le> \<bar>snd x\<bar>)"

lemma get_time_zone:
  assumes "get_field read_time name ms (zero_time, 0) = Some x"
  shows "zone_ok x"
proof (rule get_field_keeps [where P = zone_ok, OF _ _ assms])
  show "zone_ok y" if "zone_ok cur" "read_time cur raw = Some y" for cur raw y
    using that parsed_writable [of "butlast (tl raw)" "fst y" "snd y"] by (auto simp: read_time_def zone_ok_def split: if_splits)
  show "zone_ok (zero_time, 0)" using writable_time [of zero_time] by (auto simp: zone_ok_def zero_time_def)
qed

lemma result_read_ok:
  assumes "read_frame text = Some env" "e_Result env = Some res"
  shows "TxResult_ok res \<and> zone_ok (res_DecidedAt res)"
  using assms(1)
proof (cases rule: read_frame_cases)
  case (2 ms)
  have z: "zone_ok (res_DecidedAt r)" if "decode_TxResult xs = Some r" for xs r
    using that by (auto simp: decode_TxResult_def bind_eq_Some_conv dest: get_time_zone)
  from 2 have "get_ptr decode_TxResult ''result'' ms = Some (e_Result env)"
    by (auto simp: decode_Envelope_def bind_eq_Some_conv)
  then have "pred_option (\<lambda>r. TxResult_ok r \<and> zone_ok (res_DecidedAt r)) (e_Result env)"
    by (rule get_ptr_keeps [rotated]) (use z decode_TxResult_ok in blast)
  then show ?thesis by (simp add: assms(2))
qed (use assms(2) in \<open>simp add: zero_Envelope_def\<close>)

text \<open>Only a time can keep a result from being written.\<close>

lemma TxResult_members_time: "TxResult_members res = None \<longleftrightarrow> stamp_text (res_DecidedAt res) = None"
  by (auto simp: TxResult_members_def put_ptr_def marshal_time_def bind_eq_None_conv split: option.splits)

lemma TxRequest_members_time: "TxRequest_members req = None \<longleftrightarrow> stamp_text (tr_CreatedAt req, 0) = None"
  by (auto simp: TxRequest_members_def marshal_time_def bind_eq_None_conv)

definition times_ok :: "Envelope \<Rightarrow> bool" where
  "times_ok env \<longleftrightarrow> pred_option (\<lambda>req. stamp_text (tr_CreatedAt req, 0) \<noteq> None) (e_Request env)
     \<and> pred_option (\<lambda>res. stamp_text (res_DecidedAt res) \<noteq> None) (e_Result env)"

lemma put_ptr_None: "put_ptr enc name p = None \<longleftrightarrow> (\<exists>x. p = Some x \<and> enc x = None)"
  by (auto simp: put_ptr_def split: option.splits)

lemma frame_written: "marshal_frame env = None \<longleftrightarrow> \<not> times_ok env"
  by (cases "e_Request env"; cases "e_Result env")
     (auto simp: marshal_frame_def Envelope_members_def times_ok_def bind_eq_None_conv put_ptr_def
       TxResult_members_time TxRequest_members_time split: option.split)

section \<open>Frames on the wire\<close>

text \<open>
  C21. Frames survive the wire. An envelope of which every string is valid UTF-8, every integer 64 bits,
  every raw message compact JSON and a blob nil or not empty is written exactly when its times lie in the years 0 to 9999, with zones of less
  than a day; and reading the text gives back the envelope, every field of every payload.
\<close>

theorem wire_roundtrip:
  assumes "Envelope_ok env"
  shows "if times_ok env then \<exists>s. marshal_frame env = Some s \<and> read_frame s = Some env
    else marshal_frame env = None"
  using frame_written [of env] frame_back [OF assms] by auto

definition wire_sample :: Envelope where
  "wire_sample = (envelope TypeControl)\<lparr>e_Control := Some (zero_Control\<lparr>c_Op := ''put_policy'', c_CorrID := ''c7'',
     c_Account := ''acc'', c_Version := -3, c_Blob := Some [0, 255, 7, 62], c_AllowedOrigins := [''https://a.b'', [CHR 0x22]]\<rparr>),
     e_Result := Some (result1 ''r1'')\<rparr>"

lemma wire_sample_ok: "Envelope_ok wire_sample" "times_ok wire_sample"
  by (simp_all add: ascii_utf8 Envelope_ok_def times_ok_def wire_sample_def zero_Envelope_def zero_Control_def envelope_types
      Control_ok_def TxResult_ok_def result1_def StatusSigned_def ProtocolVersion_def writable_time zero_time_def)

theorem wire_roundtrip_witness:
  "\<exists>s. marshal_frame wire_sample = Some s \<and> read_frame s = Some wire_sample"
  using wire_roundtrip [OF wire_sample_ok(1)] wire_sample_ok(2) by simp

text \<open>
  C23. The caller is told what the device reported. Whatever text a device sends, if it is a frame with
  a result then the body of a response made from that result reads back as exactly this result; only when the device
  gave its time in a zone of a day or more is the body empty.
\<close>

theorem result_relayed:
  assumes "read_frame text = Some env" "e_Result env = Some res"
  shows "if 24 * 60 \<le> \<bar>snd (res_DecidedAt res)\<bar> then body_text (ResultJSON res) = Some []
    else \<exists>out. body_text (ResultJSON res) = Some out \<and> Option.bind (members_of out) decode_TxResult = Some res"
proof (cases "TxResult_members res")
  case (Some ms)
  note ok = result_read_ok [OF assms, THEN conjunct1]
  have "members_of (raw_object ms @ [CHR 0x0A]) = Some ms"
    using txresult.reads [OF ok Some] by (rule members_of_object) (simp add: maxNestingDepth_def)
  then show ?thesis using Some txresult.reread [OF ok Some] TxResult_members_time [of res] result_read_ok [OF assms]
    by (auto simp: zone_ok_def)
qed (use TxResult_members_time [of res] result_read_ok [OF assms] in \<open>simp add: zone_ok_def\<close>)

theorem result_relayed_witness:
  "\<exists>out. body_text (ResultJSON (result1 ''r1'')) = Some out
     \<and> Option.bind (members_of out) decode_TxResult = Some (result1 ''r1'')"
proof -
  obtain s where "read_frame s = Some wire_sample"
    using frame_back [OF wire_sample_ok(1)] frame_written [of wire_sample] wire_sample_ok(2) by auto
  moreover have "e_Result wire_sample = Some (result1 ''r1'')" by (simp add: wire_sample_def)
  moreover have "snd (res_DecidedAt (result1 ''r1'')) = 0" by (simp add: result1_def)
  ultimately show ?thesis using result_relayed [of s wire_sample "result1 ''r1''"] by (simp del: body_text.simps)
qed

text \<open>
  C14. A connection is a run. Serving a device by \<open>handleAgent\<close>, whatever bytes it sends and however its
  enrolment ends, is a run of the relay's steps for that connection, from its start to its close,
  which moves no other connection and no call and leaves the hub, the store, the limiter and
  the outside world as the handler does.
\<close>

theorem agent_bytes_run:
  assumes "agrees s r" "ry_link r ws = Fresh"
  shows "\<exists>r'. (relay_step J S B E (\<lambda>_ _ _. True))\<^sup>*\<^sup>* r r'
    \<and> agrees (handleAgent S B E werr ws (agent_messages texts) s) r' \<and> ry_link r' ws = Closed \<and> spares ws r r'"
  using agent_is_run [OF assms agent_messages_ok] .

theorem agent_bytes_run_witness:
  "\<exists>r'. (relay_step sample_jobs sqlite_store pad_hash toy (\<lambda>_ _ _. True))\<^sup>*\<^sup>* (relay_init sql_sample world1) r'
     \<and> agrees (handleAgent sqlite_store pad_hash toy [] 4
         (agent_messages [''{\"type\":\"hello\",\"hello\":{\"device_id\":\"d\",\"accounts\":[\"a\"]}}'', ''nul''])
         (newServer \<lparr>cfg_Listen = [], cfg_RequestTimeoutSeconds = 45, cfg_SQLitePath = []\<rparr> sql_sample world1)) r'
     \<and> ry_link r' 4 = Closed"
proof -
  let ?s = "newServer \<lparr>cfg_Listen = [], cfg_RequestTimeoutSeconds = 45, cfg_SQLitePath = []\<rparr> sql_sample world1"
  have "agrees ?s (relay_init sql_sample world1)" "ry_link (relay_init sql_sample world1) 4 = Fresh"
    by (simp_all add: agrees_def relay_init_def newServer_def conc_init_def)
  then show ?thesis using agent_bytes_run by blast
qed

section \<open>A caller's request\<close>

lemma string_field_utf8:
  "list_all (\<lambda>m. utf8_valid (fst m) \<and> json_utf8 (snd m)) ms \<Longrightarrow> utf8_valid cur \<Longrightarrow> string_field name ms cur = Some x \<Longrightarrow>
   utf8_valid x"
proof (induction ms arbitrary: cur)
  case (Cons m ms)
  obtain k j where m: "m = (k, j)" by fastforce
  show ?case using Cons by (cases j) (auto simp: m split: if_splits)
qed simp

definition body_utf8 :: "createRequestBody \<Rightarrow> bool" where
  "body_utf8 b \<longleftrightarrow> list_all utf8_valid [cb_Kind b, cb_Destination b, cb_AmountRaw b, cb_Amount b, cb_Counterparty b,
     cb_Memo b, cb_Nonce b, cb_Action b]"

lemma decoded_body_utf8:
  assumes "decode_struct limit body_fields s = Some body"
  shows "body_utf8 body"
proof -
  obtain v r where v: "parse_json (take limit s) = Some (v, r)" "v = JNull \<or> (\<exists>ms. v = JObj ms)"
    "\<And>ms. v = JObj ms \<Longrightarrow> body_fields ms = Some body" "v = JNull \<Longrightarrow> body_fields [] = Some body"
    using assms by (auto simp: decode_struct_def decode_body_def split: option.splits json.splits if_splits)
  have u: "json_utf8 v" using parsed_utf8(1) [of _ 0 "take limit s" v r] v(1) by (simp add: parse_json_def del: parse_value.simps)
  obtain ms where ms: "body_fields ms = Some body" "list_all (\<lambda>m. utf8_valid (fst m) \<and> json_utf8 (snd m)) ms"
    using v(2-4) u by (auto simp: list_all_iff)
  show ?thesis using ms(1)
    by (auto simp: body_fields_def bind_eq_Some_conv body_utf8_def dest!: string_field_utf8 [OF ms(2) utf8_nil])
qed

lemma Int_String_ascii: "list_all (\<lambda>c. ord c < 0x80) (Int_String n)"
proof -
  have "list_all (\<lambda>c. ord c < 0x80) (utoa m)" if "0 \<le> m" for m
    using utoa_props [OF that] by (auto simp: list_all_iff is_dec_range)
  then show ?thesis by (simp add: Int_String_def)
qed

lemma resolved_utf8: "body_utf8 body \<Longrightarrow> resolveAmount body = Inr amount \<Longrightarrow> utf8_valid amount"
  by (auto simp: resolveAmount_def body_utf8_def ascii_utf8 Int_String_ascii split: if_splits sum.splits)

lemma request_frame_ok:
  assumes "body_utf8 body" "utf8_valid amount" "utf8_valid (k_ID key)" "utf8_valid (k_OwnerAccount key)"
  shows "Envelope_ok (request_frame (tx_request key body amount w))"
  using assms by (simp add: Envelope_ok_def request_frame_def zero_Envelope_def envelope_types ProtocolVersion_def
      TxRequest_ok_def tx_request_def Let_def body_utf8_def KindSend_def ascii_utf8 hex_ascii)

lemma withdraw_frame_ok: "utf8_valid rid \<Longrightarrow> Envelope_ok (withdraw_frame rid) \<and> times_ok (withdraw_frame rid)"
  by (simp add: Envelope_ok_def times_ok_def withdraw_frame_def zero_Envelope_def envelope_types ProtocolVersion_def ascii_utf8)

text \<open>A frame that the device reads as it was meant.\<close>

definition carried :: "Envelope \<Rightarrow> bool" where
  "carried env \<longleftrightarrow> (\<exists>text. marshal_frame env = Some text \<and> read_frame text = Some env)"

lemma carriedI: "Envelope_ok env \<Longrightarrow> times_ok env \<Longrightarrow> carried env"
  using frame_written [of env] frame_back [of env] by (auto simp: carried_def)

end
