(* ===== verification/Wire_Relay.thy ===== *)
theory Wire_Relay
  imports Wire_Props Relay_Guarantees
begin

text \<open>
  The frames of the calls in the running relay, as texts. Whatever interleaving brought the relay to a
  state, what it wrote for a call is what the device reads.
\<close>

section \<open>The clock\<close>

lemma clock_kept:
  "randomBytes n w = (b, w') \<Longrightarrow> wd_clock w' = wd_clock w"
  "randomSecret n w = (x, w') \<Longrightarrow> wd_clock w' = wd_clock w"
  "ws_WriteJSON ws env w = (ok, w') \<Longrightarrow> wd_clock w' = wd_clock w"
  "wd_clock (writeWSError ws msg w) = wd_clock w"
  by (auto simp: randomBytes_def randomSecret_def writeWSError_def ws_WriteJSON_def Let_def split: prod.splits if_splits)

text \<open>The readings that are still to come are among those at the start.\<close>

lemma later_readings: "sset (stl s) \<subseteq> sset s" "shd s \<in> sset s"
  by (cases s; auto)+

lemma clock_drawn:
  "rl_allow kid rl w = (ok, rl', w') \<Longrightarrow> sset (wd_clock w') \<subseteq> sset (wd_clock w)"
  "kl_allow rate burst kl w = (ok, kl', w') \<Longrightarrow> sset (wd_clock w') \<subseteq> sset (wd_clock w)"
  "prune rl w = (rl', w') \<Longrightarrow> sset (wd_clock w') \<subseteq> sset (wd_clock w)"
  "buildTxRequest B key body w = (q, w') \<Longrightarrow> sset (wd_clock w') \<subseteq> sset (wd_clock w)"
  using later_readings(1) [of "wd_clock w"] later_readings(1) [of "stl (wd_clock w)"] build_world [of B key body w]
  by (auto simp: rl_allow_def kl_allow_def prune_def time_Now_def Let_def split: option.splits prod.splits if_splits)

lemma clock_step: "relay_step J S B E G r r' \<Longrightarrow> sset (wd_clock (ry_world r')) \<subseteq> sset (wd_clock (ry_world r))"
proof (induction rule: relay_step.induct)
  case (Hello r ws env h nonce w1 ok w2 msg)
  then show ?case using clock_kept(1) [OF Hello(5)] clock_kept(3) [OF Hello(6)] by (simp add: clock_kept(4))
next
  case (Welcome r ws a ok w)
  then show ?case using clock_kept(3) by (auto simp: writeJSON_conn_def)
next
  case (Reply r ws a c reply ok w)
  then show ?case using clock_kept(3) by (auto simp: writeJSON_conn_def)
qed (auto dest: clock_kept(1-3) clock_drawn simp: clock_kept(4))

section \<open>What a call was built from\<close>

definition written_request :: "time set \<Rightarrow> APIKey \<Rightarrow> TxRequest \<Rightarrow> bool" where
  "written_request C key req \<longleftrightarrow> (\<exists>body amount w. body_utf8 body \<and> resolveAmount body = Inr amount \<and> shd (wd_clock w) \<in> C
     \<and> req = tx_request key body amount w)"

definition written_query :: "APIKey \<Rightarrow> string \<Rightarrow> Query \<Rightarrow> bool" where
  "written_query key qid q \<longleftrightarrow> (\<exists>bs op nonce. qid = ''qry_'' @ EncodeToString bs \<and> q = key_query key op nonce)"

definition calls_written :: "jobs \<Rightarrow> time set \<Rightarrow> 's relay \<Rightarrow> bool" where
  "calls_written J C r \<longleftrightarrow> sset (wd_clock (ry_world r)) \<subseteq> C
     \<and> (\<forall>t key. ry_call r t = Running key \<longrightarrow> written_request C key (jb_request J t))
     \<and> (\<forall>t key. ry_qcall r t = Running key \<longrightarrow> written_query key (jb_qid J t) (jb_query J t))"

lemma written_step:
  assumes B: "blake2b_ok B" and step: "relay_step J S B E G r r'" and ok: "calls_written J C r"
  shows "calls_written J C r'"
proof -
  have C: "sset (wd_clock (ry_world r')) \<subseteq> C" using clock_step [OF step] ok unfolding calls_written_def by blast
  show ?thesis using step
  proof (cases rule: relay_step.cases)
    case (Build t key raw body w)
    obtain amount where a: "resolveAmount body = Inr amount" "jb_request J t = tx_request key body amount (ry_world r)"
      using build_accepts [OF B, of key body "ry_world r" "jb_request J t"] Build(4) by auto
    have "shd (wd_clock (ry_world r)) \<in> C"
      using ok later_readings(2) [of "wd_clock (ry_world r)"] unfolding calls_written_def by blast
    then have "written_request C key (jb_request J t)"
      unfolding written_request_def using a decoded_body_utf8 [OF Build(3)] by blast
    then show ?thesis using ok C by (auto simp: calls_written_def Build(1))
  next
    case (QBuild t key op nonce secret w)
    then have "written_query key (jb_qid J t) (jb_query J t)"
      unfolding written_query_def by (auto simp: randomSecret_def Let_def split: prod.splits)
    then show ?thesis using ok C by (auto simp: calls_written_def QBuild(1))
  qed (use ok C in \<open>auto simp: calls_written_def split: if_splits\<close>)
qed

lemma reach_written:
  assumes "blake2b_ok B" "relay_reach J S B E G store w r"
  shows "calls_written J (sset (wd_clock w)) r"
  using assms(2)
proof (induction rule: relay_reach_induct)
  case init
  show ?case by (simp add: calls_written_def relay_init_def)
next
  case (step r r')
  then show ?case using written_step [OF assms(1)] by blast
qed

section \<open>The texts of a key\<close>

definition key_texts :: "APIKey \<Rightarrow> bool" where
  "key_texts key \<longleftrightarrow> utf8_valid (k_ID key) \<and> utf8_valid (k_OwnerAccount key)"

lemma control_read_utf8:
  assumes "read_frame text = Some env" "e_Control env = Some c"
  shows "utf8_valid (c_KeyID c) \<and> utf8_valid (c_Account c)"
  using assms(1)
proof (cases rule: read_frame_cases)
  case (2 ms)
  then have "get_ptr decode_Control ''control'' ms = Some (e_Control env)"
    by (auto simp: decode_Envelope_def bind_eq_Some_conv)
  then have "pred_option (\<lambda>c. utf8_valid (c_KeyID c) \<and> utf8_valid (c_Account c)) (e_Control env)"
    by (rule get_ptr_keeps [rotated]) (auto simp: decode_Control_def bind_eq_Some_conv dest!: get_string_utf8)
  then show ?thesis by (simp add: assms(2))
qed (use assms(2) in \<open>simp add: zero_Envelope_def\<close>)

text \<open>The control messages of the devices came as texts.\<close>

definition controls_read :: "'s relay \<Rightarrow> bool" where
  "controls_read r \<longleftrightarrow> (\<forall>(ws, env)\<in>set (ry_heard r). e_Control env \<noteq> None \<longrightarrow> (\<exists>text. read_frame text = Some env))"

lemma backed_texts:
  assumes "backed B E v r key" "controls_read r" "\<And>kid k. a_keys v kid = Some k \<Longrightarrow> k_ID k = kid \<and> key_texts k"
  shows "key_texts key"
  using assms(1) unfolding backed_def
proof
  assume "sponsored B E r (k_ID key) (k_OwnerAccount key)"
  then obtain ws env c where c: "(ws, env) \<in> set (ry_heard r)" "e_Control env = Some c"
    "c_KeyID c = k_ID key" "c_Account c = k_OwnerAccount key" unfolding sponsored_def bound_by_def by blast
  obtain s where "read_frame s = Some env" using assms(2) c(1,2) by (auto simp: controls_read_def)
  then show ?thesis using control_read_utf8 c(2-4) unfolding key_texts_def by metis
next
  assume "owned v (k_ID key) (k_OwnerAccount key)"
  then obtain k where k: "a_keys v (k_ID key) = Some k" "k_OwnerAccount k = k_OwnerAccount key"
    unfolding owned_def by blast
  then show ?thesis using assms(3) [OF k(1)] by (auto simp: key_texts_def)
qed

section \<open>The property\<close>

lemma query_frame_ok:
  assumes "written_query key qid q" "key_texts key" "utf8_valid (q_Op q)" "utf8_valid (q_Nonce q)"
  shows "carried (query_frame qid q)"
proof -
  obtain bs op nonce where q: "qid = ''qry_'' @ EncodeToString bs" "q = key_query key op nonce"
    using assms(1) by (auto simp: written_query_def)
  have "utf8_valid qid" unfolding q(1) by (rule ascii_utf8) (simp add: hex_ascii)
  then show ?thesis using assms(2-4)
    by (intro carriedI) (simp_all add: Envelope_ok_def times_ok_def query_frame_def zero_Envelope_def envelope_types
        ProtocolVersion_def Query_ok_def key_texts_def key_query_def q(2) ascii_utf8)
qed

lemma request_frames_carried:
  assumes "written_request C key req" "key_texts key" "\<And>t. t \<in> C \<Longrightarrow> stamp_text (t, 0) \<noteq> None"
  shows "carried (request_frame req)" "carried (withdraw_frame (tr_ID req))"
proof -
  obtain body amount w where r: "body_utf8 body" "resolveAmount body = Inr amount" "shd (wd_clock w) \<in> C"
    "req = tx_request key body amount w" using assms(1) by (auto simp: written_request_def)
  have "Envelope_ok (request_frame req)"
    unfolding r(4) by (rule request_frame_ok [OF r(1) resolved_utf8 [OF r(1,2)]]) (use assms(2) in \<open>simp_all add: key_texts_def\<close>)
  moreover have "times_ok (request_frame req)" using assms(3) [OF r(3)]
    by (simp add: times_ok_def request_frame_def zero_Envelope_def r(4) tx_request_def Let_def)
  ultimately show "carried (request_frame req)" by (rule carriedI)
  show "carried (withdraw_frame (tr_ID req))"
    using withdraw_frame_ok [of "tr_ID req"] carriedI by (simp add: r(4) tx_request_def Let_def ascii_utf8 hex_ascii)
qed

text \<open>
  C22. What the relay writes for a call is what the device reads. In every state that any interleaving of
  devices and callers can reach, every frame of a request, withdrawal or query is a text which reads back as exactly
  this frame, when the texts of the keys that the store had at the start are valid UTF-8, the control messages
  came as texts, and the clock shows years that RFC 3339 can write; of a query the operation and the
  nonce, which come from the caller's URL, have to be valid UTF-8 too.
\<close>

theorem calls_on_wire:
  assumes "sql_inv store" "blake2b_ok B" "relay_reach J sqlite_store B E G store w r"
    "\<And>kid key. a_keys (sql_view store) kid = Some key \<Longrightarrow> key_texts key" "controls_read r"
    "\<And>t. t \<in> sset (wd_clock w) \<Longrightarrow> stamp_text (t, 0) \<noteq> None"
    "(ws, env) \<in> set (cs_sent (ry_conc r))"
    "\<And>q. e_Query env = Some q \<Longrightarrow> utf8_valid (q_Op q) \<and> utf8_valid (q_Nonce q)"
  shows "carried env"
proof -
  have b: "keys_backed B E (sql_view store) (sql_view (ry_store r)) r"
    using sq.reach_backed [OF _ assms(2) assms(1) assms(3)] by simp
  have ids: "k_ID k = kid \<and> key_texts k" if "a_keys (sql_view store) kid = Some k" for kid k
    using sq.view_inv [OF assms(1)] assms(4) that unfolding abs_inv_def by blast
  have texts: "key_texts key" if "ry_call r t = Running key \<or> ry_qcall r t = Running key" for t key
  proof (rule backed_texts [OF _ assms(5) ids])
    show "backed B E (sql_view store) r key" using b that unfolding keys_backed_def by (metis key_of.simps(4))
  qed
  note written = reach_written [OF assms(2,3), unfolded calls_written_def]
  note calls = calls_okD [OF reach_calls [OF assms(3)]]
  obtain acc where "job_frame J (ry_conc r) acc env"
    using routingD(3) [OF reach_routing [OF relay_conc_reach [OF assms(3)]] assms(7)] by blast
  then consider t where "cs_phase (ry_conc r) t \<noteq> Start" "env = request_frame (jb_request J t) \<or> env = withdraw_frame (request_id J t)"
    | t where "cs_qphase (ry_conc r) t \<noteq> QStart" "env = query_frame (jb_qid J t) (jb_query J t)"
    unfolding job_frame_def by blast
  then show ?thesis
  proof cases
    case (1 t)
    obtain key where key: "ry_call r t = Running key" using calls(1) [OF 1(1)] by blast
    have "written_request (sset (wd_clock w)) key (jb_request J t)" using written key by blast
    note frames = request_frames_carried [OF this texts assms(6)]
    show ?thesis using 1(2) frames key by (auto simp: request_id_def)
  next
    case (2 t)
    obtain key where key: "ry_qcall r t = Running key" using calls(2) [OF 2(1)] by blast
    have "written_query key (jb_qid J t) (jb_query J t)" using written key by blast
    moreover have "e_Query env = Some (jb_query J t)" by (simp add: 2(2) query_frame_def)
    moreover have "key_texts key" using texts key by blast
    ultimately show ?thesis using assms(8) unfolding 2(2) by (intro query_frame_ok) simp_all
  qed
qed

lemma address_ascii:
  assumes "blake2b_ok B" "ParseAddress B a = Inr pk"
  shows "list_all (\<lambda>c. ord c < 0x80) a"
proof -
  obtain p acc cs where a: "p = ''nano_'' \<or> p = ''xrb_''" "a = p @ acc @ cs" "base32_text acc" "base32_text cs"
    using assms(2) unfolding ParseAddress_parts [OF assms(1)] by blast
  then show ?thesis using nanoAlphabet_ascii by (auto simp: list_all_iff)
qed

lemma home_acc_texts: "key_texts home_key"
proof -
  have "proves pad_hash toy [] (map (\<lambda>pk. (key_address pad_hash toy pk, key_signature pad_hash toy [] pk)) home_keys) home_acc"
    unfolding home_acc_def by (rule honest_proves [OF pad_hash_ok toy_ok]) (simp add: home_keys_def)
  then obtain pub where "ParseAddress pad_hash home_acc = Inr pub" unfolding proves_def by blast
  from address_ascii [OF pad_hash_ok this] show ?thesis by (simp add: key_texts_def ascii_utf8)
qed

theorem calls_on_wire_witness: "carried (request_frame home_request)"
proof -
  obtain r where r: "home_reach r" "(4, request_frame home_request) \<in> set (cs_sent (ry_conc r))"
    "ry_heard r = [(4, home_report), (4, home_answer), (4, home_hello)]"
    by (rule home_run)
  have "controls_read r"
    by (simp add: controls_read_def r(3) home_report_def home_answer_def honest_auth_def home_hello_def honest_hello_def
        zero_Envelope_def)
  moreover have "key_texts key" if "a_keys (sql_view sql_home) kid = Some key" for kid key
    using that home_acc_texts by (auto simp: key_texts_def sql_view_def sql_home_def row_key_def split: if_splits)
  moreover have "stamp_text (t, 0) \<noteq> None" if "t \<in> sset (wd_clock world1)" for t
    using that writable_time [of 0] by (simp add: world1_def zero_time_def)
  moreover have "e_Query (request_frame home_request) = None" by (simp add: request_frame_def zero_Envelope_def)
  ultimately show ?thesis using calls_on_wire [OF home_inv(1) pad_hash_ok r(1) _ _ _ r(2)] by simp
qed

end
