(* ===== verification/Migrate.thy ===== *)
theory Migrate
  imports Store_Props
begin

text \<open>
  Command \<^verbatim>\<open>cmd/migrate\<close>: the one-shot copy of the relay's state from Postgres into a SQLite file. What
  Postgres returns is an argument (the rows, an error when a row is scanned, an error at the end); the
  SQLite side is the database of \<open>Store_Sqlite\<close>, whose statements may fail.
\<close>

section \<open>The code\<close>

record pg_key =
  pk_id :: string
  pk_owner_account :: string
  pk_key_hash :: string
  pk_allowed_origins :: "string list option"    \<comment> \<open>\<^verbatim>\<open>nil\<close> for a NULL array\<close>

record pg_policy =
  pp_account :: string
  pp_version :: int
  pp_blob :: blob                                \<comment> \<open>\<^verbatim>\<open>nil\<close> for a NULL blob\<close>

text \<open>The answer of a query: an error, or the scanned rows in turn and the error of \<^verbatim>\<open>rows.Err()\<close>.\<close>

type_synonym 'a pg_rows = "go_error + (go_error + 'a) list \<times> go_error option"

definition origins_or_empty :: "string list option \<Rightarrow> string list" where
  "origins_or_empty os = (case os of None \<Rightarrow> [] | Some l \<Rightarrow> l)"

text \<open>\<^verbatim>\<open>INSERT ... ON CONFLICT(id) DO UPDATE\<close> of all three columns.\<close>

definition upsert_api_row :: "string \<Rightarrow> string \<Rightarrow> string \<Rightarrow> string \<Rightarrow> api_row list \<Rightarrow> api_row list option" where
  "upsert_api_row kid owner hash origins rows =
     (if \<exists>r\<in>set rows. ar_key_hash r = hash \<and> ar_id r \<noteq> kid then None
      else if \<exists>r\<in>set rows. ar_id r = kid then
        Some (map (\<lambda>r. if ar_id r = kid
                        then r\<lparr>ar_owner_account := owner, ar_key_hash := hash, ar_allowed_origins := origins\<rparr>
                        else r) rows)
      else Some (rows @ [\<lparr>ar_id = kid, ar_owner_account = owner, ar_key_hash = hash,
                          ar_allowed_origins = origins\<rparr>]))"

definition copy_key :: "pg_key \<Rightarrow> sqliteStore \<Rightarrow> (go_error + unit) \<times> sqliteStore" where
  "copy_key k dst =
     (let blob = marshal_strings (origins_or_empty (pk_allowed_origins k)) in
      exec_db dst (\<lambda>d.
        case upsert_api_row (pk_id k) (pk_owner_account k) (pk_key_hash k) blob (db_api_keys d) of
          None \<Rightarrow> (Inl (GoErr (db_unique_msg d)), d)
        | Some rows \<Rightarrow> (Inr (), d\<lparr>db_api_keys := rows\<rparr>)))"

definition copy_policy :: "pg_policy \<Rightarrow> sqliteStore \<Rightarrow> (go_error + unit) \<times> sqliteStore" where
  "copy_policy p dst = exec_db dst (\<lambda>d.
     case upsert_policy (pp_account p) (pp_version p) (pp_blob p) (db_policy_blobs d) of
       None \<Rightarrow> (Inl (GoErr (db_notnull_msg d)), d)
     | Some rows \<Rightarrow> (Inr (), d\<lparr>db_policy_blobs := rows\<rparr>))"

fun copy_rows :: "('a \<Rightarrow> sqliteStore \<Rightarrow> (go_error + unit) \<times> sqliteStore) \<Rightarrow> (go_error + 'a) list \<Rightarrow>
    go_error option \<Rightarrow> nat \<Rightarrow> sqliteStore \<Rightarrow> (nat \<times> go_error option) \<times> sqliteStore" where
  "copy_rows copy [] err n dst = ((n, err), dst)"
| "copy_rows copy (Inl e # rows) err n dst = ((n, Some e), dst)"
| "copy_rows copy (Inr r # rows) err n dst =
     (case copy r dst of
        (Inl e, dst') \<Rightarrow> ((n, Some e), dst')
      | (Inr _, dst') \<Rightarrow> copy_rows copy rows err (Suc n) dst')"

definition migrateAPIKeys :: "pg_key pg_rows \<Rightarrow> sqliteStore \<Rightarrow> (nat \<times> go_error option) \<times> sqliteStore" where
  "migrateAPIKeys q dst =
     (case q of
        Inl e \<Rightarrow> ((0, Some e), dst)
      | Inr (rows, err) \<Rightarrow> copy_rows copy_key rows err 0 dst)"

definition migratePolicyBlobs :: "pg_policy pg_rows \<Rightarrow> sqliteStore \<Rightarrow> (nat \<times> go_error option) \<times> sqliteStore" where
  "migratePolicyBlobs q dst =
     (case q of
        Inl e \<Rightarrow> ((0, Some e), dst)
      | Inr (rows, err) \<Rightarrow> copy_rows copy_policy rows err 0 dst)"

text \<open>
  \<^verbatim>\<open>main\<close>: \<open>pg\<close> is what connecting and pinging give, \<open>open_err\<close> the error of \<^verbatim>\<open>sql.Open\<close>. A fatal log line
  ends the program; otherwise it ends with the two counts.
\<close>

record postgres =
  pg_connect :: "go_error option"
  pg_ping :: "go_error option"
  pg_keys :: "pg_key pg_rows"
  pg_policies :: "pg_policy pg_rows"

definition migrate_main :: "string \<Rightarrow> string \<Rightarrow> postgres \<Rightarrow> string option \<Rightarrow> sqliteStore \<Rightarrow>
    (string + nat \<times> nat) \<times> sqliteStore" where
  "migrate_main pgURL sqlitePath pg open_err file =
     (if pgURL = [] \<or> sqlitePath = [] then
        (Inl ''set both DATABASE_URL (source) and SQLITE_PATH (destination)'', file)
      else case pg_connect pg of
        Some e \<Rightarrow> (Inl (''connect postgres: '' @ error_text e), file)
      | None \<Rightarrow>
          (case pg_ping pg of
             Some e \<Rightarrow> (Inl (''ping postgres: '' @ error_text e), file)
           | None \<Rightarrow>
               (case open_err of
                  Some e \<Rightarrow> (Inl (''open sqlite: '' @ e), file)
                | None \<Rightarrow>
                    (case exec_all file [(''PRAGMA journal_mode=WAL'', ''sqlite wal: ''),
                                         (''schema'', ''sqlite schema: '')] of
                       (Some e, db) \<Rightarrow> (Inl (error_text e), db)
                     | (None, db) \<Rightarrow>
                         (case migrateAPIKeys (pg_keys pg) db of
                            ((_, Some e), db1) \<Rightarrow> (Inl (''migrate api_keys: '' @ error_text e), db1)
                          | ((keys, None), db1) \<Rightarrow>
                              (case migratePolicyBlobs (pg_policies pg) db1 of
                                 ((_, Some e), db2) \<Rightarrow> (Inl (''migrate policy_blobs: '' @ error_text e), db2)
                               | ((blobs, None), db2) \<Rightarrow> (Inr (keys, blobs), db2)))))))"

section \<open>The specification\<close>

text \<open>Importing a row into the abstract content, and a content that already holds it.\<close>

definition import_key :: "pg_key \<Rightarrow> abs_store \<Rightarrow> abs_store" where
  "import_key k v = abs_origins (abs_register v (pk_id k) (pk_owner_account k) (pk_key_hash k)) (pk_id k)
     (origins_or_empty (pk_allowed_origins k))"

definition import_policy :: "pg_policy \<Rightarrow> abs_store \<Rightarrow> abs_store" where
  "import_policy p v = abs_put_policy v (pp_account p) (pp_version p) (pp_blob p)"

definition holds_key :: "abs_store \<Rightarrow> pg_key \<Rightarrow> bool" where
  "holds_key v k \<longleftrightarrow> a_hash v (pk_key_hash k) = Some (pk_id k)
     \<and> a_keys v (pk_id k) = Some \<lparr>k_ID = pk_id k, k_OwnerAccount = pk_owner_account k,
         k_AllowedOrigins = origins_or_empty (pk_allowed_origins k)\<rparr>"

text \<open>
  A row whose import would change nothing: the account has this version or a newer one. Which version
  and which blob an account has after all rows is \<open>fold_policies\<close>.
\<close>

definition superseded :: "abs_store \<Rightarrow> pg_policy \<Rightarrow> bool" where
  "superseded v p \<longleftrightarrow> pp_blob p \<noteq> None \<and> (\<exists>ver b. a_policy v (pp_account p) = Some (ver, b) \<and> pp_version p \<le> ver)"

lemma import_holds: "holds_key (import_key k v) k"
  by (simp add: holds_key_def import_key_def abs_register_def abs_origins_def)

lemma import_keeps:
  "holds_key v k \<Longrightarrow> pk_id k \<noteq> pk_id q \<Longrightarrow> pk_key_hash k \<noteq> pk_key_hash q \<Longrightarrow> holds_key (import_key q v) k"
  by (auto simp: holds_key_def import_key_def abs_register_def abs_origins_def)

lemma import_again:
  assumes "abs_inv v" "holds_key v k"
  shows "import_key k v = v"
proof -
  have "a_hash v x \<noteq> Some (pk_id k)" if "x \<noteq> pk_key_hash k" for x
    using that assms unfolding abs_inv_def holds_key_def by blast
  then have "a_hash (import_key k v) = a_hash v"
    using assms(2) by (auto simp: fun_eq_iff import_key_def abs_register_def abs_origins_def holds_key_def)
  moreover have "a_keys (import_key k v) = a_keys v" "a_policy (import_key k v) = a_policy v"
    using assms(2) by (auto simp: fun_eq_iff import_key_def abs_register_def abs_origins_def holds_key_def)
  ultimately show ?thesis by (intro abs_store.equality) simp_all
qed

lemma import_policy_holds: "pp_blob p \<noteq> None \<Longrightarrow> superseded (import_policy p v) p"
  by (auto simp: superseded_def import_policy_def abs_put_policy_def split: option.splits)

lemma import_policy_keeps: "superseded v p \<Longrightarrow> superseded (import_policy q v) p"
proof -
  assume "superseded v p"
  then obtain ver b where h: "a_policy v (pp_account p) = Some (ver, b)" "pp_version p \<le> ver"
    and b: "pp_blob p \<noteq> None" by (auto simp: superseded_def)
  show ?thesis
    using put_policy_version [OF h(1), of "pp_account q" "pp_version q" "pp_blob q"] h(2) b
    unfolding superseded_def import_policy_def by (meson order_trans)
qed

lemma import_policy_again: "superseded v p \<Longrightarrow> import_policy p v = v"
  by (auto simp: superseded_def import_policy_def abs_put_policy_def)

text \<open>What the content is after all rows: the keys that are not imported are as they were, and each account has
  the newest of its policy and the imported ones.\<close>

definition policies_of :: "pg_policy list \<Rightarrow> string \<Rightarrow> (int \<times> blob) list" where
  "policies_of ps acc = map (\<lambda>p. (pp_version p, pp_blob p)) (filter (\<lambda>p. pp_account p = acc) ps)"

lemma fold_policies: "a_policy (fold import_policy ps v) acc = newest (a_policy v acc) (policies_of ps acc)"
proof (induction ps arbitrary: v)
  case (Cons p ps)
  show ?case
  proof (cases "pp_account p = acc")
    case True
    then have "a_policy (import_policy p v) acc = newest (a_policy v acc) [(pp_version p, pp_blob p)]"
      using abs_put_policy_newest [of v acc "(pp_version p, pp_blob p)"] by (simp add: import_policy_def)
    moreover have pol: "policies_of (p # ps) acc = (pp_version p, pp_blob p) # policies_of ps acc"
      using True by (simp add: policies_of_def)
    have "newest (a_policy v acc) (policies_of (p # ps) acc)
        = newest (newest (a_policy v acc) [(pp_version p, pp_blob p)]) (policies_of ps acc)"
      unfolding pol by (rule newest_Cons)
    ultimately show ?thesis using Cons.IH [of "import_policy p v"] by (simp only: fold_Cons comp_apply)
  next
    case False
    then have "a_policy (import_policy p v) acc = a_policy v acc"
      by (auto simp: import_policy_def abs_put_policy_def split: option.splits)
    then show ?thesis using Cons.IH [of "import_policy p v"] False by (simp add: policies_of_def)
  qed
qed (simp add: policies_of_def)

lemma fold_policies_keys:
  "a_keys (fold import_policy ps v) = a_keys v" "a_hash (fold import_policy ps v) = a_hash v"
  by (induction ps arbitrary: v) (simp_all add: import_policy_def)

lemma fold_keys_policy: "a_policy (fold import_key ks v) = a_policy v"
  by (induction ks arbitrary: v) (simp_all add: import_key_def)

lemma fold_keys_other:
  "kid \<notin> pk_id ` set ks \<Longrightarrow> a_keys (fold import_key ks v) kid = a_keys v kid"
  "kid \<notin> pk_id ` set ks \<Longrightarrow> h \<notin> pk_key_hash ` set ks \<Longrightarrow> a_hash v h = Some kid \<Longrightarrow>
     a_hash (fold import_key ks v) h = Some kid"
proof -
  have one: "a_keys (import_key k v) kid = a_keys v kid"
    "h \<noteq> pk_key_hash k \<Longrightarrow> a_hash v h = Some kid \<Longrightarrow> a_hash (import_key k v) h = Some kid"
    if "kid \<noteq> pk_id k" for k v
    using that by (simp_all add: import_key_def abs_register_def abs_origins_def)
  show "kid \<notin> pk_id ` set ks \<Longrightarrow> a_keys (fold import_key ks v) kid = a_keys v kid"
    by (induction ks arbitrary: v) (simp_all add: one)
  show "kid \<notin> pk_id ` set ks \<Longrightarrow> h \<notin> pk_key_hash ` set ks \<Longrightarrow> a_hash v h = Some kid \<Longrightarrow>
      a_hash (fold import_key ks v) h = Some kid"
    by (induction ks arbitrary: v) (simp_all add: one)
qed

lemma abs_inv_import: "abs_inv v \<Longrightarrow> abs_inv (import_key k v)"
  by (simp add: import_key_def abs_inv_register abs_inv_origins)

text \<open>A hash of the source that is free in the destination, or the same key's.\<close>

definition key_fits :: "abs_store \<Rightarrow> pg_key \<Rightarrow> bool" where
  "key_fits v k \<longleftrightarrow> (\<forall>kid. a_hash v (pk_key_hash k) = Some kid \<longrightarrow> kid = pk_id k)"

lemma fits_import:
  "key_fits v k \<Longrightarrow> pk_key_hash k \<noteq> pk_key_hash q \<Longrightarrow> key_fits (import_key q v) k"
  by (auto simp: key_fits_def import_key_def abs_register_def abs_origins_def)

section \<open>One row\<close>

lemma upsert_api_row_eq:
  "upsert_api_row kid owner h os rows = map_option
     (map (\<lambda>r. if ar_id r = kid \<and> ar_owner_account r = owner then r\<lparr>ar_allowed_origins := os\<rparr> else r))
     (upsert_key kid owner h rows)"
  by (auto simp: upsert_api_row_def upsert_key_def intro!: map_idI [symmetric])

lemma copy_key_refines:
  assumes inv: "sql_inv d" and os: "list_all utf8_valid (origins_or_empty (pk_allowed_origins k))"
    and run: "copy_key k d = (q, d')"
  shows "sql_inv d' \<and> (sql_up d \<longrightarrow> sql_up d')
    \<and> sql_view d' = (case q of Inl _ \<Rightarrow> sql_view d | Inr _ \<Rightarrow> import_key k (sql_view d))
    \<and> (sql_up d \<and> key_fits (sql_view d) k \<longrightarrow> q = Inr ())"
proof -
  let ?blob = "marshal_strings (origins_or_empty (pk_allowed_origins k))"
  let ?d = "d\<lparr>db_faults := stl (db_faults d)\<rparr>"
  have up: "sql_up d \<Longrightarrow> sql_up (?d\<lparr>db_api_keys := x\<rparr>)" "sql_up d \<Longrightarrow> sql_up ?d" for x
    using sql_up_step [of d] by (simp_all add: sql_up_def)
  from run [unfolded copy_key_def Let_def] show ?thesis
  proof (cases rule: exec_db_cases)
    case (fault e n)
    then show ?thesis using inv sql_up_step [of d] by auto
  next
    case run': run
    show ?thesis
    proof (cases "upsert_key (pk_id k) (pk_owner_account k) (pk_key_hash k) (db_api_keys d)")
      case None
      then have "q = Inl (GoErr (db_unique_msg d))" "d' = ?d"
        using run'(2) by (simp_all add: upsert_api_row_eq)
      moreover have "\<not> key_fits (sql_view d) k"
        using None by (auto simp: upsert_key_def key_fits_def sql_key_Some(2) [OF inv] split: if_splits)
      ultimately show ?thesis using inv up by simp
    next
      case (Some rows)
      let ?f = "\<lambda>r. r\<lparr>ar_allowed_origins := ?blob\<rparr>"
      let ?d1 = "?d\<lparr>db_api_keys := rows\<rparr>"
      let ?v1 = "abs_register (sql_view d) (pk_id k) (pk_owner_account k) (pk_key_hash k)"
      have inv0: "sql_inv ?d" and some: "upsert_key (pk_id k) (pk_owner_account k) (pk_key_hash k)
          (db_api_keys ?d) = Some rows" using inv Some by simp_all
      have v1: "sql_inv ?d1" "sql_view ?d1 = ?v1" using upsert_key_view [OF inv0 some] by simp_all
      have own: "owned (sql_view ?d1) (pk_id k) (pk_owner_account k)"
        unfolding v1(2) by (simp add: owned_def abs_register_def)
      have d': "d' = ?d1\<lparr>db_api_keys := map (\<lambda>r. if ar_id r = pk_id k \<and> ar_owner_account r = pk_owner_account k
          then ?f r else r) (db_api_keys ?d1)\<rparr>" and q: "q = Inr ()"
        using run'(2) Some by (simp_all add: upsert_api_row_eq)
      have "sql_inv d' \<and> sql_view d' = (sql_view ?d1)\<lparr>a_keys := (a_keys (sql_view ?d1))(pk_id k :=
          map_option (\<lambda>x. x\<lparr>k_AllowedOrigins := origins_or_empty (pk_allowed_origins k)\<rparr>)
            (a_keys (sql_view ?d1) (pk_id k)))\<rparr>"
        using os by (intro update_rows_view [OF v1(1) own _ _ _ d'])
          (simp_all add: row_key_def decode_marshal list_all_iff)
      then show ?thesis using v1(2) q up by (simp add: import_key_def abs_origins_def d')
    qed
  qed
qed

lemma copy_policy_refines:
  assumes inv: "sql_inv d" and run: "copy_policy p d = (q, d')"
  shows "sql_inv d' \<and> (sql_up d \<longrightarrow> sql_up d' \<and> (q = Inr () \<longleftrightarrow> pp_blob p \<noteq> None))
    \<and> sql_view d' = (case q of Inl _ \<Rightarrow> sql_view d | Inr _ \<Rightarrow> import_policy p (sql_view d))"
proof -
  let ?d = "d\<lparr>db_faults := stl (db_faults d)\<rparr>"
  from run [unfolded copy_policy_def] show ?thesis
  proof (cases rule: exec_db_cases)
    case (fault e n)
    then show ?thesis using inv sql_up_step [of d] by auto
  next
    case run
    show ?thesis
    proof (cases "pp_blob p")
      case None
      then show ?thesis using run inv sql_up_step [of d] by (auto simp: upsert_policy_def sql_up_def)
    next
      case (Some b)
      then obtain rows where up: "upsert_policy (pp_account p) (pp_version p) (Some b) (db_policy_blobs ?d) = Some rows"
        by (simp add: upsert_policy_def)
      then have d': "d' = ?d\<lparr>db_policy_blobs := rows\<rparr>" and q: "q = Inr ()" using run Some by simp_all
      have "sql_inv ?d" using inv by simp
      from upsert_policy_view [OF this up d'] show ?thesis
        using q Some sql_up_step [of d] by (simp add: import_policy_def) (simp add: d' sql_up_def)
    qed
  qed
qed

section \<open>All rows\<close>

text \<open>
  What the loop relies on in the copy of one row: it does to the content what \<open>imp\<close> says or fails and
  does nothing; it does not fail on a row that \<open>fits\<close>; and importing a row that the content already
  \<open>holds\<close> changes nothing. Rows that are \<open>apart\<close> do not disturb one another.
\<close>

locale row_copy =
  fixes copy :: "'a \<Rightarrow> sqliteStore \<Rightarrow> (go_error + unit) \<times> sqliteStore"
    and imp :: "'a \<Rightarrow> abs_store \<Rightarrow> abs_store" and row_ok :: "'a \<Rightarrow> bool"
    and fits :: "abs_store \<Rightarrow> 'a \<Rightarrow> bool" and holds :: "abs_store \<Rightarrow> 'a \<Rightarrow> bool"
    and apart :: "'a \<Rightarrow> 'a \<Rightarrow> bool"
  assumes refines: "sql_inv d \<Longrightarrow> row_ok r \<Longrightarrow> copy r d = (q, d') \<Longrightarrow>
      sql_inv d' \<and> (sql_up d \<longrightarrow> sql_up d')
      \<and> sql_view d' = (case q of Inl _ \<Rightarrow> sql_view d | Inr _ \<Rightarrow> imp r (sql_view d))
      \<and> (sql_up d \<and> fits (sql_view d) r \<longrightarrow> q = Inr ())"
    and imp_holds: "fits v r \<Longrightarrow> holds (imp r v) r"
    and imp_again: "abs_inv v \<Longrightarrow> holds v r \<Longrightarrow> imp r v = v"
    and holds_fits: "holds v r \<Longrightarrow> fits v r"
    and keeps: "apart r p \<Longrightarrow> holds v r \<Longrightarrow> holds (imp p v) r"
    and stays: "apart p r \<Longrightarrow> fits v r \<Longrightarrow> fits (imp p v) r"
begin

text \<open>However the loop ends, exactly the rows it counted have been imported.\<close>

lemma copy_prefix:
  "sql_inv d \<Longrightarrow> (\<And>r. Inr r \<in> set items \<Longrightarrow> row_ok r) \<Longrightarrow> copy_rows copy items err n d = ((m, e), d') \<Longrightarrow>
     \<exists>rows. m = n + length rows \<and> map Inr rows = take (length rows) items \<and> sql_inv d'
       \<and> sql_view d' = fold imp rows (sql_view d)
       \<and> (e = None \<longrightarrow> length rows = length items \<and> err = None)"
proof (induction items arbitrary: n d)
  case (Cons item items)
  show ?case
  proof (cases item)
    case (Inl x)
    then show ?thesis using Cons.prems by (intro exI [of _ "[]"]) auto
  next
    case (Inr r)
    obtain q d1 where c: "copy r d = (q, d1)" by fastforce
    have "row_ok r" using Cons.prems(2) Inr by simp
    note step = refines [OF Cons.prems(1) this c]
    show ?thesis
    proof (cases q)
      case (Inl x)
      then show ?thesis using Cons.prems(3) step Inr c by (intro exI [of _ "[]"]) auto
    next
      case q: (Inr u)
      have run: "copy_rows copy items err (Suc n) d1 = ((m, e), d')" "sql_inv d1"
        using Cons.prems(3) step Inr c q by simp_all
      obtain rows where "m = Suc n + length rows" "map Inr rows = take (length rows) items" "sql_inv d'"
        "sql_view d' = fold imp rows (sql_view d1)" "e = None \<longrightarrow> length rows = length items \<and> err = None"
        using Cons.IH [OF run(2) Cons.prems(2) run(1)] by auto
      then show ?thesis using step q Inr by (intro exI [of _ "r # rows"]) simp
    qed
  qed
qed auto

lemma copy_exact:
  assumes "sql_inv d" "\<And>r. r \<in> set rows \<Longrightarrow> row_ok r" "copy_rows copy (map Inr rows) err n d = ((m, None), d')"
  shows "sql_view d' = fold imp rows (sql_view d)"
proof -
  have ok: "\<And>r. Inr r \<in> set (map Inr rows) \<Longrightarrow> row_ok r" using assms(2) by auto
  obtain rs where "map Inr rs = take (length rs) (map Inr rows :: (go_error + 'a) list)"
    and view: "sql_view d' = fold imp rs (sql_view d)"
    and "length rs = length (map Inr rows :: (go_error + 'a) list)"
    using copy_prefix [OF assms(1) ok assms(3)] by blast
  then have "map Inr rs = (map Inr rows :: (go_error + 'a) list)" by simp
  then have "rs = rows" by (simp add: inj_def)
  then show ?thesis using view by simp
qed

text \<open>Rows that fit are all imported, and the content holds every one of them afterwards.\<close>

lemma copy_total:
  "sql_inv d \<Longrightarrow> sql_up d \<Longrightarrow> \<forall>r\<in>set rows. row_ok r \<and> fits (sql_view d) r \<Longrightarrow> sorted_wrt (\<lambda>p r. apart p r \<and> apart r p) rows \<Longrightarrow>
     \<exists>d'. copy_rows copy (map Inr rows) err n d = ((n + length rows, err), d') \<and> sql_inv d' \<and> sql_up d'
       \<and> (\<forall>r\<in>set rows. holds (sql_view d') r)
       \<and> (\<forall>p. holds (sql_view d) p \<and> (\<forall>r\<in>set rows. apart p r) \<longrightarrow> holds (sql_view d') p)"
proof (induction rows arbitrary: d n)
  case (Cons r rows)
  obtain q d1 where c: "copy r d = (q, d1)" by fastforce
  have "row_ok r" "fits (sql_view d) r" using Cons.prems(3) by simp_all
  note step = refines [OF Cons.prems(1) this(1) c]
  then have d1: "q = Inr ()" "sql_inv d1" "sql_up d1" "sql_view d1 = imp r (sql_view d)"
    using Cons.prems(2) \<open>fits (sql_view d) r\<close> by auto
  have "\<forall>p\<in>set rows. row_ok p \<and> fits (sql_view d1) p"
    using Cons.prems(3,4) stays unfolding d1(4) by auto
  then obtain d' where d': "copy_rows copy (map Inr rows) err (Suc n) d1 = ((Suc n + length rows, err), d')"
    "sql_inv d'" "sql_up d'" "\<forall>p\<in>set rows. holds (sql_view d') p"
    "\<forall>p. holds (sql_view d1) p \<and> (\<forall>x\<in>set rows. apart p x) \<longrightarrow> holds (sql_view d') p"
    using Cons.IH [OF d1(2,3), of "Suc n"] Cons.prems(4) by auto
  have "holds (sql_view d') r" using d'(5) imp_holds [of "sql_view d" r] \<open>fits (sql_view d) r\<close> Cons.prems(4) d1(4) by simp
  moreover have "holds (sql_view d') p" if "holds (sql_view d) p" "\<forall>x\<in>set (r # rows). apart p x" for p
    using d'(5) keeps [of p r "sql_view d"] that d1(4) by simp
  ultimately show ?case using d' c d1(1) by simp
qed auto

text \<open>Rows the content already holds are counted again and change nothing.\<close>

lemma copy_again:
  "sql_inv d \<Longrightarrow> sql_up d \<Longrightarrow> \<forall>r\<in>set rows. row_ok r \<and> holds (sql_view d) r \<Longrightarrow>
     \<exists>d'. copy_rows copy (map Inr rows) err n d = ((n + length rows, err), d') \<and> sql_inv d' \<and> sql_up d'
       \<and> sql_view d' = sql_view d"
proof (induction rows arbitrary: d n)
  case (Cons r rows)
  obtain q d1 where c: "copy r d = (q, d1)" by fastforce
  have r: "row_ok r" "holds (sql_view d) r" using Cons.prems(3) by simp_all
  note step = refines [OF Cons.prems(1) r(1) c]
  then have d1: "q = Inr ()" "sql_inv d1" "sql_up d1" "sql_view d1 = sql_view d"
    using Cons.prems(2) holds_fits [OF r(2)] imp_again [OF sql_view_inv [OF Cons.prems(1)] r(2)] by auto
  then show ?case using Cons.IH [OF d1(2,3), of "Suc n"] Cons.prems(3) c by auto
qed auto

end

abbreviation key_row_ok :: "pg_key \<Rightarrow> bool" where
  "key_row_ok k \<equiv> list_all utf8_valid (origins_or_empty (pk_allowed_origins k))"

interpretation kc: row_copy copy_key import_key key_row_ok key_fits holds_key
    "\<lambda>k q. pk_id k \<noteq> pk_id q \<and> pk_key_hash k \<noteq> pk_key_hash q"
proof
  show "holds_key v r \<Longrightarrow> key_fits v r" for v r by (simp add: holds_key_def key_fits_def)
  show "pk_id p \<noteq> pk_id r \<and> pk_key_hash p \<noteq> pk_key_hash r \<Longrightarrow> key_fits v r \<Longrightarrow> key_fits (import_key p v) r" for p r v
    using fits_import [of v r p] by metis
qed (use copy_key_refines import_holds import_again import_keeps in \<open>blast+\<close>)

interpretation pc: row_copy copy_policy import_policy "\<lambda>_. True" "\<lambda>_ p. pp_blob p \<noteq> None" superseded "\<lambda>_ _. True"
proof
  show "superseded v p \<Longrightarrow> pp_blob p \<noteq> None" for v p by (simp add: superseded_def)
qed (use copy_policy_refines import_policy_holds import_policy_again import_policy_keeps in \<open>blast+\<close>)

section \<open>Properties\<close>

text \<open>
  C28. A migration that fails leaves a prefix. Whatever goes wrong, a row that cannot be scanned, a
  statement that fails, a hash that belongs to another key, the number that is returned counts the
  leading rows that were copied, and the destination's content is what importing exactly these rows
  in order makes of it; without an error these are all the rows.
\<close>

theorem migrate_keys_prefix:
  assumes "sql_inv d" "\<forall>k. Inr k \<in> set items \<longrightarrow> key_row_ok k"
    and "migrateAPIKeys (Inr (items, err)) d = ((n, e), d')"
  shows "\<exists>rows. n = length rows \<and> map Inr rows = take n items \<and> sql_inv d'
    \<and> sql_view d' = fold import_key rows (sql_view d) \<and> (e = None \<longrightarrow> n = length items \<and> err = None)"
proof -
  have run: "copy_rows copy_key items err 0 d = ((n, e), d')" using assms(3) by (simp add: migrateAPIKeys_def)
  have ok: "\<And>r. Inr r \<in> set items \<Longrightarrow> key_row_ok r" using assms(2) by blast
  show ?thesis using kc.copy_prefix [OF assms(1) ok run] by auto
qed

lemma hash_not_short: "hashSecret x \<noteq> ''h1''" "hashSecret x \<noteq> ''h2''"
proof -
  have "length (hashSecret x) \<noteq> 2" by simp
  then show "hashSecret x \<noteq> ''h1''" "hashSecret x \<noteq> ''h2''" by force+
qed

definition moved_keys :: "pg_key list" where
  "moved_keys = [\<lparr>pk_id = ''k1'', pk_owner_account = ''acc2'', pk_key_hash = ''h1'', pk_allowed_origins = None\<rparr>,
     \<lparr>pk_id = ''k2'', pk_owner_account = ''acc'', pk_key_hash = ''h2'', pk_allowed_origins = Some []\<rparr>]"

theorem migrate_keys_prefix_witness:
  "\<exists>rows. prefix rows moved_keys
     \<and> sql_view (snd (migrateAPIKeys (Inr (map Inr moved_keys @ [Inl (GoErr ''cut'')], None)) sql_sample))
       = fold import_key rows (sql_view sql_sample)"
proof -
  let ?items = "map Inr moved_keys @ [Inl (GoErr ''cut'')] :: (go_error + pg_key) list"
  obtain n e d' where run: "migrateAPIKeys (Inr (?items, None)) sql_sample = ((n, e), d')"
    by (metis prod.exhaust)
  have ok: "\<forall>k. Inr k \<in> set ?items \<longrightarrow> key_row_ok k"
    by (auto simp: moved_keys_def origins_or_empty_def)
  obtain rows where rows: "n = length rows" "map Inr rows = take n ?items"
    "sql_view d' = fold import_key rows (sql_view sql_sample)"
    using migrate_keys_prefix [OF sample_ok(2) ok run] by blast
  have "n \<le> length moved_keys"
  proof (rule ccontr)
    assume "\<not> n \<le> length moved_keys"
    then have "Inl (GoErr ''cut'') \<in> set (take n ?items)" by simp
    then show False unfolding rows(2) [symmetric] by auto
  qed
  then have "map Inr rows = (map Inr (take n moved_keys) :: (go_error + pg_key) list)"
    using rows(2) by (simp add: take_map)
  then have "rows = take n moved_keys" by (simp add: inj_def)
  then show ?thesis using rows(3) run take_is_prefix by auto
qed

lemma exec_all_up: "sql_up d \<Longrightarrow> \<exists>d'. exec_all d stmts = (None, d') \<and> sql_up d' \<and> sql_view d' = sql_view d \<and> (sql_inv d \<longrightarrow> sql_inv d')"
proof (induction d stmts rule: exec_all.induct)
  case (2 d stmt what rest)
  let ?d = "d\<lparr>db_faults := stl (db_faults d)\<rparr>"
  have e: "exec_db d (\<lambda>s'. (Inr (), s')) = (Inr (), ?d)" and up: "sql_up ?d"
    using sql_up_step [OF "2.prems"] by (simp_all add: exec_db_def sql_up_def)
  from "2.IH" [OF e [symmetric] refl up] show ?case by (simp add: e)
qed simp

lemma sorted_apart:
  "distinct (map f xs) \<Longrightarrow> distinct (map g xs) \<Longrightarrow>
     sorted_wrt (\<lambda>p r. (f p \<noteq> f r \<and> g p \<noteq> g r) \<and> (f r \<noteq> f p \<and> g r \<noteq> g p)) xs"
  by (induction xs) (auto simp: image_iff)

lemma holds_key_policies: "holds_key (fold import_policy ps v) k = holds_key v k"
  by (simp add: holds_key_def fold_policies_keys)

lemma apart_all: "sorted_wrt (\<lambda>p r. True \<and> True) xs"
  by (induction xs) simp_all

definition source :: "pg_key list \<Rightarrow> pg_policy list \<Rightarrow> postgres" where
  "source keys pols = \<lparr>pg_connect = None, pg_ping = None, pg_keys = Inr (map Inr keys, None),
     pg_policies = Inr (map Inr pols, None)\<rparr>"

text \<open>
  C27. The migration is complete and idempotent. From a source with distinct key ids and hashes, none of
  which is the hash of another key in the destination, and with no NULL blob, the program copies everything and
  reports the numbers of rows. Afterwards every key of the source can be resolved as it was there, and
  every other key of the destination and its secret are as before. Each account has exactly the first
  policy, version and blob, among those with the highest version of the one the destination had
  and the rows of the source in order; so a policy of the source is there with its blob
  unless a version at least as new was there. Running the program again reports the same numbers
  and changes nothing.
\<close>

theorem migrate_idempotent:
  assumes "sql_inv file" "sql_up file" "url \<noteq> []" "path \<noteq> []"
    and "distinct (map pk_id keys)" "distinct (map pk_key_hash keys)"
    and "\<forall>k\<in>set keys. key_row_ok k \<and> key_fits (sql_view file) k" "\<forall>p\<in>set pols. pp_blob p \<noteq> None"
  shows "\<exists>db db'. migrate_main url path (source keys pols) None file = (Inr (length keys, length pols), db)
    \<and> (\<forall>k\<in>set keys. holds_key (sql_view db) k)
    \<and> (\<forall>kid. kid \<notin> pk_id ` set keys \<longrightarrow> a_keys (sql_view db) kid = a_keys (sql_view file) kid
         \<and> (\<forall>h. a_hash (sql_view file) h = Some kid \<longrightarrow> a_hash (sql_view db) h = Some kid))
    \<and> (\<forall>acc. a_policy (sql_view db) acc = newest (a_policy (sql_view file) acc) (policies_of pols acc))
    \<and> migrate_main url path (source keys pols) None db = (Inr (length keys, length pols), db')
    \<and> sql_view db' = sql_view db"
proof -
  let ?boot = "[(''PRAGMA journal_mode=WAL'', ''sqlite wal: ''), (''schema'', ''sqlite schema: '')]"
  have main: "migrate_main url path (source keys pols) None f = (Inr (length keys, length pols), f3)"
    if "exec_all f ?boot = (None, f1)" "copy_rows copy_key (map Inr keys) None 0 f1 = ((length keys, None), f2)"
      "copy_rows copy_policy (map Inr pols) None 0 f2 = ((length pols, None), f3)" for f f1 f2 f3
    using that assms(3,4)
    by (simp add: migrate_main_def source_def migrateAPIKeys_def migratePolicyBlobs_def)
  obtain d0 where d0: "exec_all file ?boot = (None, d0)" "sql_up d0" "sql_view d0 = sql_view file" "sql_inv d0"
    using exec_all_up [OF assms(2)] assms(1) by blast
  obtain d1 where d1: "copy_rows copy_key (map Inr keys) None 0 d0 = ((length keys, None), d1)" "sql_inv d1"
    "sql_up d1" "\<forall>k\<in>set keys. holds_key (sql_view d1) k"
    using kc.copy_total [OF d0(4,2) _ sorted_apart [OF assms(5,6)], of None 0] assms(7) d0(3) by auto
  obtain d2 where d2: "copy_rows copy_policy (map Inr pols) None 0 d1 = ((length pols, None), d2)" "sql_inv d2"
    "sql_up d2" "\<forall>p\<in>set pols. superseded (sql_view d2) p"
    using pc.copy_total [OF d1(2,3) _ apart_all, of pols None 0] assms(8) by auto
  have v1: "sql_view d1 = fold import_key keys (sql_view file)"
    using kc.copy_exact [OF d0(4) _ d1(1)] assms(7) d0(3) by simp
  have v2: "sql_view d2 = fold import_policy pols (sql_view d1)" using pc.copy_exact [OF d1(2) _ d2(1)] by simp
  then have keys: "\<forall>k\<in>set keys. holds_key (sql_view d2) k" using d1(4) by (simp add: holds_key_policies)
  have others: "a_keys (sql_view d2) kid = a_keys (sql_view file) kid
      \<and> (\<forall>h. a_hash (sql_view file) h = Some kid \<longrightarrow> a_hash (sql_view d2) h = Some kid)"
    if kid: "kid \<notin> pk_id ` set keys" for kid
  proof -
    have "h \<notin> pk_key_hash ` set keys" if "a_hash (sql_view file) h = Some kid" for h
      using assms(7) that kid by (auto simp: key_fits_def)
    then show ?thesis using fold_keys_other [OF kid] by (simp add: v2 v1 fold_policies_keys)
  qed
  have pols: "a_policy (sql_view d2) acc = newest (a_policy (sql_view file) acc) (policies_of pols acc)" for acc
    by (simp add: v2 v1 fold_policies fold_keys_policy)
  obtain e0 where e0: "exec_all d2 ?boot = (None, e0)" "sql_up e0" "sql_view e0 = sql_view d2" "sql_inv e0"
    using exec_all_up [OF d2(3)] d2(2) by blast
  obtain e1 where e1: "copy_rows copy_key (map Inr keys) None 0 e0 = ((length keys, None), e1)" "sql_inv e1"
    "sql_up e1" "sql_view e1 = sql_view e0"
    using kc.copy_again [OF e0(4,2), of keys None 0] keys assms(7) e0(3) by auto
  obtain e2 where e2: "copy_rows copy_policy (map Inr pols) None 0 e1 = ((length pols, None), e2)"
    "sql_view e2 = sql_view e1"
    using pc.copy_again [OF e1(2,3), of pols None 0] d2(4) e1(4) e0(3) by auto
  have same: "sql_view e2 = sql_view d2" using e2(2) e1(4) e0(3) by simp
  show ?thesis
    by (rule exI [of _ d2], rule exI [of _ e2])
       (use main [OF d0(1) d1(1) d2(1)] main [OF e0(1) e1(1) e2(1)] keys others pols same in blast)
qed

theorem migrate_idempotent_witness:
  "\<exists>db. migrate_main ''pg'' ''db'' (source moved_keys
     [\<lparr>pp_account = ''acc'', pp_version = 2, pp_blob = Some [1]\<rparr>]) None sql_sample = (Inr (2, 1), db)
     \<and> a_policy (sql_view db) ''acc'' = Some (2, Some [1])"
proof -
  have "\<forall>k\<in>set moved_keys. key_row_ok k \<and> key_fits (sql_view sql_sample) k"
    using hash_not_short [of "''old''", symmetric] by (auto simp: moved_keys_def origins_or_empty_def key_fits_def sample_ok split: if_splits)
  moreover have "distinct (map pk_id moved_keys)" "distinct (map pk_key_hash moved_keys)"
    by (simp_all add: moved_keys_def)
  moreover have "length moved_keys = 2" "a_policy (sql_view sql_sample) ''acc'' = None"
    by (simp_all add: moved_keys_def sql_view_def sql_sample_def)
  moreover have "policies_of [\<lparr>pp_account = ''acc'', pp_version = 2, pp_blob = Some [1]\<rparr>] ''acc'' = [(2, Some [1])]"
    by (simp add: policies_of_def)
  ultimately show ?thesis
    using migrate_idempotent [OF sample_ok(2,3), of "''pg''" "''db''" moved_keys
        "[\<lparr>pp_account = ''acc'', pp_version = 2, pp_blob = Some [1]\<rparr>]"] by fastforce
qed

end
