(* ===== verification/Env_Config.thy ===== *)
theory Env_Config
  imports Http Store_Props
begin

text \<open>
  Files \<^verbatim>\<open>cmd/relay/env.go\<close> and \<^verbatim>\<open>cmd/relay/main.go\<close>: the environment files, the configuration and the
  choice of the store. The environment is a map, the working directory a map from names to contents;
  an error while a file is being read ends the scan like its end.
\<close>

section \<open>env.go\<close>

type_synonym environ = "string \<rightharpoonup> string"
type_synonym directory = "string \<rightharpoonup> string"

text \<open>
  \<^verbatim>\<open>bufio.Scanner\<close> with its default limits: lines end at a newline, a carriage return before it is
  dropped, and a line that does not fit into 65535 bytes ends the scan.
\<close>

definition maxLine :: nat where
  "maxLine = 65535"

definition dropCR :: "string \<Rightarrow> string" where
  "dropCR l = (if l \<noteq> [] \<and> last l = CHR 0x0D then butlast l else l)"

function scan_lines :: "string \<Rightarrow> string list" where
  "scan_lines s =
     (if s = [] then []
      else
        let l = takeWhile (\<lambda>c. c \<noteq> CHR 0x0A) s; r = drop 1 (dropWhile (\<lambda>c. c \<noteq> CHR 0x0A) s)
        in if maxLine < length l then [] else dropCR l # scan_lines r)"
  by pat_completeness auto
termination
proof (relation "measure length")
  fix s l r :: string assume "s \<noteq> []" "r = drop 1 (dropWhile (\<lambda>c. c \<noteq> CHR 0x0A) s)"
  moreover have "length (dropWhile (\<lambda>c. c \<noteq> CHR 0x0A) s) \<le> length s" by (rule length_dropWhile_le)
  ultimately show "(r, s) \<in> measure length" by (cases s) auto
qed simp

declare scan_lines.simps [simp del]

definition Getenv :: "environ \<Rightarrow> string \<Rightarrow> string" where
  "Getenv env key = (case env key of None \<Rightarrow> [] | Some v \<Rightarrow> v)"

text \<open>\<^verbatim>\<open>os.Setenv\<close> refuses an empty key, a key with \<open>=\<close> and any NUL byte; the code ignores the error.\<close>

definition Setenv :: "string \<Rightarrow> string \<Rightarrow> environ \<Rightarrow> environ" where
  "Setenv key v env =
     (if key = [] \<or> CHR ''='' \<in> set key \<or> CHR 0x00 \<in> set key \<or> CHR 0x00 \<in> set v then env
      else env(key \<mapsto> v))"

definition dotenvValue :: "string \<Rightarrow> string" where
  "dotenvValue v0 =
     (let v = TrimSpace v0 in
      if 2 \<le> length v then
        if (hd v = CHR 0x22 \<and> last v = CHR 0x22) \<or> (hd v = CHR 0x27 \<and> last v = CHR 0x27)
        then butlast (tl v) else v
      else v)"

definition apply_line :: "string \<Rightarrow> environ \<Rightarrow> environ" where
  "apply_line text env =
     (let line = TrimSpace text in
      if line = [] \<or> HasPrefix line ''#'' then env
      else
        (case Cut (TrimPrefix line ''export '') CHR ''='' of
           None \<Rightarrow> env
         | Some (k, val) \<Rightarrow>
             let key = TrimSpace k in
             if key = [] then env
             else (case env key of
                     Some _ \<Rightarrow> env
                   | None \<Rightarrow> Setenv key (dotenvValue val) env)))"

definition applyEnvFile :: "directory \<Rightarrow> string \<Rightarrow> environ \<Rightarrow> bool \<times> environ" where
  "applyEnvFile dir path env =
     (case dir path of
        None \<Rightarrow> (False, env)
      | Some content \<Rightarrow> (True, fold apply_line (scan_lines content) env))"

definition loadDotEnv :: "directory \<Rightarrow> environ \<Rightarrow> environ" where
  "loadDotEnv dir env =
     fold (\<lambda>name env. snd (applyEnvFile dir name env)) [''.env.local'', ''.env''] env"

section \<open>main.go\<close>

definition envOr :: "environ \<Rightarrow> string \<Rightarrow> string \<Rightarrow> string" where
  "envOr env key d = (let v = Getenv env key in if v \<noteq> [] then v else d)"

text \<open>The flags given on the command line, as \<^verbatim>\<open>flag.Parse\<close> leaves them.\<close>

definition main_config :: "directory \<Rightarrow> environ \<Rightarrow> string option \<Rightarrow> int option \<Rightarrow> Config" where
  "main_config dir env0 listen_flag timeout_flag =
     (let env = loadDotEnv dir env0;
          listen = (case listen_flag of None \<Rightarrow> envOr env ''LISTEN'' '':8080'' | Some l \<Rightarrow> l);
          timeout = (case timeout_flag of None \<Rightarrow> 45 | Some t \<Rightarrow> t)
      in \<lparr>cfg_Listen = listen, cfg_RequestTimeoutSeconds = timeout,
          cfg_SQLitePath = Getenv env ''SQLITE_PATH''\<rparr>)"

datatype opened = InMemory memStore | OnDisk sqliteStore

text \<open>\<open>disk\<close> gives, for a path, the error of \<^verbatim>\<open>sql.Open\<close> and the database found there.\<close>

definition openStore :: "Config \<Rightarrow> (string \<Rightarrow> string option \<times> sqliteStore) \<Rightarrow> go_error + opened" where
  "openStore cfg disk =
     (if cfg_SQLitePath cfg = [] then Inr (InMemory newMemStore)
      else
        let (open_err, file) = disk (cfg_SQLitePath cfg)
        in case newSQLiteStore open_err file of
             Inl e \<Rightarrow> Inl e
           | Inr s \<Rightarrow> Inr (OnDisk s))"

section \<open>What a file defines\<close>

definition line_def :: "string \<Rightarrow> (string \<times> string) option" where
  "line_def text =
     (let line = TrimSpace text in
      if line = [] \<or> HasPrefix line ''#'' then None
      else
        (case Cut (TrimPrefix line ''export '') CHR ''='' of
           None \<Rightarrow> None
         | Some (k, val) \<Rightarrow>
             let key = TrimSpace k; v = dotenvValue val in
             if key = [] \<or> CHR ''='' \<in> set key \<or> CHR 0x00 \<in> set key \<or> CHR 0x00 \<in> set v then None
             else Some (key, v)))"

definition file_defs :: "directory \<Rightarrow> string \<Rightarrow> (string \<times> string) list" where
  "file_defs dir name =
     (case dir name of None \<Rightarrow> [] | Some content \<Rightarrow> List.map_filter line_def (scan_lines content))"

lemma apply_line_def':
  "apply_line text env =
     (case line_def text of None \<Rightarrow> env | Some (k, v) \<Rightarrow> if env k = None then env(k \<mapsto> v) else env)"
  by (auto simp: apply_line_def line_def_def Setenv_def Let_def split: option.splits prod.splits)

lemma fold_lines: "fold apply_line ls env = map_of (List.map_filter line_def ls) ++ env"
proof (induction ls arbitrary: env)
  case (Cons l ls)
  have "map_of (List.map_filter line_def ls) ++ apply_line l env = map_of (List.map_filter line_def (l # ls)) ++ env"
    by (auto simp: apply_line_def' map_filter_simps map_add_def fun_eq_iff split: option.splits)
  then show ?case by (simp add: Cons.IH)
qed (simp add: map_filter_simps)

lemma applyEnvFile_defs: "snd (applyEnvFile dir name env) = map_of (file_defs dir name) ++ env"
  by (simp add: applyEnvFile_def file_defs_def fold_lines split: option.split)

section \<open>Properties\<close>

text \<open>
  C40. Precedence of the environment files. The environment after loading is the real environment where
  it defines a variable, otherwise the first definition in \<^verbatim>\<open>.env.local\<close>, otherwise the first in
  \<^verbatim>\<open>.env\<close>; a missing file defines nothing.
\<close>

theorem dotenv_precedence:
  "loadDotEnv dir env = map_of (file_defs dir ''.env.local'' @ file_defs dir ''.env'') ++ env"
  by (simp add: loadDotEnv_def applyEnvFile_defs)

lemma exec_all_view: "exec_all d stmts = (None, d') \<Longrightarrow> sql_view d' = sql_view d \<and> sql_inv d' = sql_inv d"
proof (induction d stmts rule: exec_all.induct)
  case (2 d stmt what rest)
  obtain q d1 where e: "exec_db d (\<lambda>s'. (Inr (), s')) = (q, d1)" by fastforce
  then have d1: "d1 = d\<lparr>db_faults := stl (db_faults d)\<rparr>"
    by (cases rule: exec_db_cases) simp_all
  show ?case
  proof (cases q)
    case (Inr u)
    then show ?thesis using "2.IH" [OF e [symmetric]] "2.prems" e d1 by simp
  qed (use "2.prems" e in simp)
qed simp

text \<open>
  The store that is opened. With no path configured the relay runs on an empty in-memory store
  that satisfies the store's invariant; with a path it runs on the database found there, with the
  content it had, or does not start.
\<close>

theorem open_store:
  assumes "openStore cfg disk = Inr st" "\<forall>p. sql_inv (snd (disk p))"
  shows "case st of
      InMemory m \<Rightarrow> cfg_SQLitePath cfg = [] \<and> mem_inv m \<and> mem_view m = abs_empty
    | OnDisk d \<Rightarrow> cfg_SQLitePath cfg \<noteq> [] \<and> sql_inv d \<and> sql_view d = sql_view (snd (disk (cfg_SQLitePath cfg)))"
proof (cases "cfg_SQLitePath cfg = []")
  case True
  then show ?thesis using assms(1) mem_inv_new mem_view_new by (auto simp: openStore_def)
next
  case False
  obtain open_err db where d: "disk (cfg_SQLitePath cfg) = (open_err, db)" by fastforce
  then obtain s where s: "newSQLiteStore open_err db = Inr s" "st = OnDisk s"
    using assms(1) False by (auto simp: openStore_def split: sum.splits)
  then have "exec_all db sqlite_boot = (None, s)"
    by (auto simp: newSQLiteStore_def split: option.splits prod.splits)
  then have "sql_view s = sql_view db" "sql_inv s = sql_inv db" using exec_all_view by blast+
  moreover have "sql_inv db" using assms(2) d by (metis snd_conv)
  ultimately show ?thesis using d s(2) False by simp
qed

theorem open_store_witness:
  "openStore \<lparr>cfg_Listen = [], cfg_RequestTimeoutSeconds = 45, cfg_SQLitePath = []\<rparr> (\<lambda>_. (None, sql_sample))
     = Inr (InMemory newMemStore) \<and> mem_inv newMemStore"
proof -
  let ?cfg = "\<lparr>cfg_Listen = [], cfg_RequestTimeoutSeconds = 45, cfg_SQLitePath = []\<rparr>"
  have o: "openStore ?cfg (\<lambda>_. (None, sql_sample)) = Inr (InMemory newMemStore)" by (simp add: openStore_def)
  show ?thesis using open_store [OF o] sample_ok(2) o by simp
qed

end
