(* ===== verification/Program_Start.thy ===== *)
theory Program_Start
  imports Env_Config Nano_Amount
begin

text \<open>
  The start of the program, \<^verbatim>\<open>main\<close> of \<^verbatim>\<open>cmd/relay/main.go\<close>: the command line with the rules of Go's
  \<^verbatim>\<open>flag\<close> and \<^verbatim>\<open>strconv\<close> packages for its two flags, the configuration, the store, and the server
  or the exit code. A disk gives for every path what opening a database there yields.
\<close>

section \<open>Integers on the command line\<close>

text \<open>The digits of \<^verbatim>\<open>strconv.ParseUint\<close> with base argument 0; separators are checked afterwards.\<close>

fun uint_loop :: "nat \<Rightarrow> nat \<Rightarrow> string \<Rightarrow> nat option" where
  "uint_loop b n [] = Some n"
| "uint_loop b n (c # s) =
     (if c = CHR ''_'' then uint_loop b n s
      else if b \<le> digit_val c then None
      else if 2 ^ 64 \<le> n * b + digit_val c then None
      else uint_loop b (n * b + digit_val c) s)"

text \<open>Separators stand between digits or after the prefix of the base.\<close>

fun separators_ok :: "bool \<Rightarrow> char \<Rightarrow> string \<Rightarrow> bool" where
  "separators_ok hex prev [] \<longleftrightarrow> prev \<noteq> CHR ''_''"
| "separators_ok hex prev (c # s) \<longleftrightarrow>
     (if digit_val c < 10 \<or> hex \<and> digit_val c < 16 then separators_ok hex (CHR ''0'') s
      else if c = CHR ''_'' then prev = CHR ''0'' \<and> separators_ok hex (CHR ''_'') s
      else prev \<noteq> CHR ''_'' \<and> separators_ok hex (CHR ''!'') s)"

definition underscoreOK :: "string \<Rightarrow> bool" where
  "underscoreOK s =
     (if 2 \<le> length s \<and> s ! 0 = CHR ''0'' \<and> s ! 1 \<in> {CHR ''b'', CHR ''B'', CHR ''o'', CHR ''O'', CHR ''x'', CHR ''X''}
      then separators_ok (s ! 1 \<in> {CHR ''x'', CHR ''X''}) (CHR ''0'') (drop 2 s)
      else separators_ok False (CHR ''^'') s)"

definition base_prefix :: "string \<Rightarrow> nat \<times> string" where
  "base_prefix s =
     (if s \<noteq> [] \<and> s ! 0 = CHR ''0'' then
        (if 3 \<le> length s \<and> s ! 1 \<in> {CHR ''b'', CHR ''B''} then (2, drop 2 s)
         else if 3 \<le> length s \<and> s ! 1 \<in> {CHR ''o'', CHR ''O''} then (8, drop 2 s)
         else if 3 \<le> length s \<and> s ! 1 \<in> {CHR ''x'', CHR ''X''} then (16, drop 2 s)
         else (8, drop 1 s))
      else (10, s))"

definition ParseUint :: "string \<Rightarrow> nat option" where
  "ParseUint s =
     (if s = [] then None
      else case uint_loop (fst (base_prefix s)) 0 (snd (base_prefix s)) of
          None \<Rightarrow> None
        | Some n \<Rightarrow> if CHR ''_'' \<in> set (snd (base_prefix s)) \<and> \<not> underscoreOK s then None else Some n)"

definition ParseInt :: "string \<Rightarrow> int option" where
  "ParseInt s =
     (if s = [] then None
      else
        let neg = (s ! 0 = CHR ''-''); t = (if s ! 0 \<in> {CHR ''+'', CHR ''-''} then drop 1 s else s)
        in case ParseUint t of
             None \<Rightarrow> None
           | Some n \<Rightarrow>
               if \<not> neg \<and> 2 ^ 63 \<le> n then None
               else if neg \<and> 2 ^ 63 < n then None
               else Some (if neg then - int n else int n))"

section \<open>The flags\<close>

text \<open>The listen and timeout flags that were set, or that the program ends: help was asked, or an error.\<close>

datatype flags = Flags "string option" "int option" | Usage | BadFlags

text \<open>\<^verbatim>\<open>flag.Parse\<close> takes one argument apart: not a flag (parsing ends), malformed, or a name and a value.\<close>

datatype flag_arg = NoFlag | Malformed | FlagNamed string "string option"

definition flag_arg :: "string \<Rightarrow> flag_arg" where
  "flag_arg s =
     (if length s < 2 \<or> s ! 0 \<noteq> CHR ''-'' then NoFlag
      else if s = ''--'' then NoFlag
      else
        let name = (if s ! 1 = CHR ''-'' then drop 2 s else drop 1 s)
        in if name = [] \<or> name ! 0 \<in> {CHR ''-'', CHR ''=''} then Malformed
           else (case Cut name CHR ''='' of
               None \<Rightarrow> FlagNamed name None
             | Some (k, v) \<Rightarrow> FlagNamed k (Some v)))"

definition set_flag :: "string \<Rightarrow> string \<Rightarrow> string option \<times> int option \<Rightarrow> (string option \<times> int option) option" where
  "set_flag name v = (\<lambda>(l, t).
     if name = ''listen'' then Some (Some v, t)
     else (case ParseInt v of None \<Rightarrow> None | Some n \<Rightarrow> Some (l, Some n)))"

fun parse_flags :: "string list \<Rightarrow> string option \<times> int option \<Rightarrow> flags" where
  "parse_flags [] fl = Flags (fst fl) (snd fl)"
| "parse_flags (s # args) fl =
     (case flag_arg s of
        NoFlag \<Rightarrow> Flags (fst fl) (snd fl)
      | Malformed \<Rightarrow> BadFlags
      | FlagNamed name val \<Rightarrow>
          if name \<notin> {''listen'', ''timeout''} then (if name \<in> {''help'', ''h''} then Usage else BadFlags)
          else (case val of
              Some v \<Rightarrow> (case set_flag name v fl of None \<Rightarrow> BadFlags | Some fl' \<Rightarrow> parse_flags args fl')
            | None \<Rightarrow>
                (case args of
                   [] \<Rightarrow> BadFlags
                 | v # args' \<Rightarrow> (case set_flag name v fl of None \<Rightarrow> BadFlags | Some fl' \<Rightarrow> parse_flags args' fl'))))"

section \<open>main\<close>

text \<open>The exit code of a program that ended, or the server it runs.\<close>

datatype started = Ended nat | RunsMem "memStore server" | RunsSql "sqliteStore server"

definition relay_main :: "directory \<Rightarrow> environ \<Rightarrow> string list \<Rightarrow> (string \<Rightarrow> string option \<times> sqliteStore) \<Rightarrow>
    World \<Rightarrow> started" where
  "relay_main dir env args disk w =
     (case parse_flags args (None, None) of
        Usage \<Rightarrow> Ended 0
      | BadFlags \<Rightarrow> Ended 2
      | Flags l t \<Rightarrow>
          let cfg = main_config dir env l t
          in (case openStore cfg disk of
                Inl e \<Rightarrow> Ended 1
              | Inr (InMemory m) \<Rightarrow> RunsMem (newServer cfg m w)
              | Inr (OnDisk d) \<Rightarrow> RunsSql (newServer cfg d w)))"

section \<open>Printing and reading integers\<close>

lemma uint_decimal:
  "list_all is_dec ds \<Longrightarrow> foldl dstep (int n) ds < 2 ^ 64 \<Longrightarrow> uint_loop 10 n ds = Some (nat (foldl dstep (int n) ds))"
proof (induction ds arbitrary: n)
  case (Cons c ds)
  let ?m = "n * 10 + digit_val c"
  have c: "\<not> 10 \<le> digit_val c" "c \<noteq> CHR ''_''" using Cons.prems(1) is_dec_not(2) by (auto simp: is_dec_def)
  have step: "foldl dstep (int n) (c # ds) = foldl dstep (int ?m) ds" by simp
  have "int ?m \<le> int ?m * 10 ^ length ds + dec_val ds"
    using dec_val_nonneg [of ds] mult_left_mono [of 1 "10 ^ length ds" "int ?m"] by simp
  then have "int ?m < 2 ^ 64" using Cons.prems(2) step foldl_dstep [of "int ?m" ds] by linarith
  then have "\<not> 2 ^ 64 \<le> ?m" by (simp only: of_nat_less_numeral_power_cancel_iff not_le)
  then have "uint_loop 10 n (c # ds) = uint_loop 10 ?m ds" using c by (simp only: uint_loop.simps if_False)
  then show ?case using Cons.IH [of ?m] Cons.prems step by simp
qed simp

lemma ParseUint_utoa:
  assumes "0 \<le> n" "n < 2 ^ 64"
  shows "ParseUint (utoa n) = Some (nat n)"
proof (cases "n = 0")
  case True
  have "char_of (48 :: nat) = CHR ''0''" by (simp add: char_of_def bit_0)
  then have "utoa n = ''0''" using True by (simp add: utoa.simps digit_char_def)
  then show ?thesis using True by (simp add: ParseUint_def base_prefix_def)
next
  case False
  note u = utoa_props [OF assms(1)]
  have "base_prefix (utoa n) = (10, utoa n)" using utoa_first False assms(1) by (simp add: base_prefix_def)
  moreover have "CHR ''_'' \<notin> set (utoa n)" using u is_dec_not(2) by (auto simp: list_all_iff)
  moreover have "uint_loop 10 0 (utoa n) = Some (nat n)"
    using uint_decimal [of "utoa n" 0] u assms by (simp add: dec_val_def)
  ultimately show ?thesis using u by (simp add: ParseUint_def)
qed

text \<open>Every 64-bit integer is read back from its decimal text.\<close>

lemma ParseInt_text:
  assumes "- (2 ^ 63) \<le> n" "n < 2 ^ 63"
  shows "ParseInt (Int_String n) = Some n"
proof (cases "n < 0")
  case True
  then have "ParseUint (utoa (- n)) = Some (nat (- n))" using assms by (intro ParseUint_utoa) simp_all
  then show ?thesis using True assms by (simp add: ParseInt_def Int_String_def nat_le_iff)
next
  case False
  have "list_all is_dec (utoa n)" "utoa n \<noteq> []" using utoa_props False by simp_all
  then have "utoa n ! 0 \<noteq> CHR ''+''" "utoa n ! 0 \<noteq> CHR ''-''"
    using is_dec_not(9,10) by (cases "utoa n"; auto)+
  then show ?thesis using False assms ParseUint_utoa [of n] \<open>utoa n \<noteq> []\<close>
    by (simp add: ParseInt_def Int_String_def le_nat_iff not_le nat_less_iff)
qed

section \<open>Settings on the command line\<close>

text \<open>A flag as a user writes it, with one dash or two, its value joined or in the next argument.\<close>

datatype setting = SetListen string | SetTimeout int

fun in_range :: "setting \<Rightarrow> bool" where
  "in_range (SetListen l) = True"
| "in_range (SetTimeout n) \<longleftrightarrow> - (2 ^ 63) \<le> n \<and> n < 2 ^ 63"

fun setting_text :: "setting \<Rightarrow> string \<times> string" where
  "setting_text (SetListen l) = (''listen'', l)"
| "setting_text (SetTimeout n) = (''timeout'', Int_String n)"

definition write_flag :: "bool \<times> bool \<times> setting \<Rightarrow> string list" where
  "write_flag = (\<lambda>(two, joined, x).
     let name = (if two then ''--'' else ''-'') @ fst (setting_text x); val = snd (setting_text x)
     in if joined then [name @ ''='' @ val] else [name, val])"

fun apply_setting :: "setting \<Rightarrow> string option \<times> int option \<Rightarrow> string option \<times> int option" where
  "apply_setting (SetListen l) fl = (Some l, snd fl)"
| "apply_setting (SetTimeout n) fl = (fst fl, Some n)"

lemma flag_arg_written:
  assumes "k \<in> {''listen'', ''timeout''}"
  shows "flag_arg (''-'' @ k) = FlagNamed k None" "flag_arg (''--'' @ k) = FlagNamed k None"
    "flag_arg (''-'' @ k @ ''='' @ v) = FlagNamed k (Some v)" "flag_arg (''--'' @ k @ ''='' @ v) = FlagNamed k (Some v)"
  using assms by (auto simp: flag_arg_def numeral_2_eq_2)

lemma set_flag_setting:
  "in_range x \<Longrightarrow> set_flag (fst (setting_text x)) (snd (setting_text x)) fl = Some (apply_setting x fl)"
  by (cases x) (auto simp: set_flag_def ParseInt_text split: prod.splits)

lemma parse_flag:
  assumes "k \<in> {''listen'', ''timeout''}" "set_flag k v fl = Some fl'"
  shows "flag_arg s = FlagNamed k (Some v) \<Longrightarrow> parse_flags (s # args) fl = parse_flags args fl'"
    "flag_arg s = FlagNamed k None \<Longrightarrow> parse_flags (s # v # args) fl = parse_flags args fl'"
  using assms by auto

lemma parse_written:
  assumes "in_range x"
  shows "parse_flags (write_flag (two, joined, x) @ args) fl = parse_flags args (apply_setting x fl)"
proof -
  have k: "fst (setting_text x) \<in> {''listen'', ''timeout''}" by (cases x) simp_all
  note p = parse_flag [OF k set_flag_setting [OF assms]]
  show ?thesis
    using p(1) [OF flag_arg_written(3) [OF k]] p(1) [OF flag_arg_written(4) [OF k]]
      p(2) [OF flag_arg_written(1) [OF k]] p(2) [OF flag_arg_written(2) [OF k]]
    by (cases two; cases joined) (simp_all add: write_flag_def Let_def)
qed

lemma parse_all:
  assumes "\<forall>(two, joined, x)\<in>set xs. in_range x"
  shows "parse_flags (concat (map write_flag xs)) fl = (let (l, t) = fold (apply_setting \<circ> snd \<circ> snd) xs fl in Flags l t)"
  using assms
proof (induction xs arbitrary: fl)
  case (Cons y xs)
  obtain two joined x where y: "y = (two, joined, x)" by (rule prod_cases3)
  then show ?case using Cons parse_written [of x two joined] by simp
qed (simp add: split_beta)

section \<open>The start\<close>

text \<open>The configuration in terms of the settings and of the environment after the environment files.\<close>

definition config_of :: "environ \<Rightarrow> setting list \<Rightarrow> Config" where
  "config_of env xs =
     (let (l, t) = fold apply_setting xs (None, None)
      in \<lparr>cfg_Listen = (case l of Some l \<Rightarrow> l
            | None \<Rightarrow> if Getenv env ''LISTEN'' = [] then '':8080'' else Getenv env ''LISTEN''),
          cfg_RequestTimeoutSeconds = (case t of Some t \<Rightarrow> t | None \<Rightarrow> 45),
          cfg_SQLitePath = Getenv env ''SQLITE_PATH''\<rparr>)"

lemma config_settings:
  assumes "fold apply_setting xs (None, None) = (l, t)"
  shows "main_config dir env l t = config_of (loadDotEnv dir env) xs"
  using assms by (simp add: main_config_def config_of_def envOr_def Let_def split: option.splits)

text \<open>
  C39. Starting up. With any flags in any of their spellings on the command line, the last of each
  kind wins over the environment and the defaults; without a database path the relay runs on an
  empty in-memory store, otherwise on the database found there with the content it had, or it ends
  with exit code 1. In every case the hub is empty and the limiter fresh.
\<close>

theorem program_start:
  assumes "\<forall>(two, joined, x)\<in>set xs. in_range x" "\<forall>p. sql_inv (snd (disk p))"
  shows "let cfg = config_of (loadDotEnv dir env) (map (snd \<circ> snd) xs);
             run = relay_main dir env (concat (map write_flag xs)) disk w
    in if cfg_SQLitePath cfg = [] then run = RunsMem (newServer cfg newMemStore w)
       else run = Ended 1 \<or> (\<exists>d. run = RunsSql (newServer cfg d w) \<and> sql_inv d
         \<and> sql_view d = sql_view (snd (disk (cfg_SQLitePath cfg))))"
proof -
  obtain l t where lt: "fold apply_setting (map (snd \<circ> snd) xs) (None, None) = (l, t)" by fastforce
  let ?cfg = "config_of (loadDotEnv dir env) (map (snd \<circ> snd) xs)"
  have cfg: "main_config dir env l t = ?cfg" by (rule config_settings [OF lt])
  have "parse_flags (concat (map write_flag xs)) (None, None) = Flags l t"
    using parse_all [OF assms(1), of "(None, None)"] lt by (simp add: fold_map comp_assoc)
  then have run: "relay_main dir env (concat (map write_flag xs)) disk w =
      (case openStore ?cfg disk of Inl e \<Rightarrow> Ended 1 | Inr (InMemory m) \<Rightarrow> RunsMem (newServer ?cfg m w)
        | Inr (OnDisk d) \<Rightarrow> RunsSql (newServer ?cfg d w))"
    unfolding relay_main_def by (simp only: flags.case Let_def cfg)
  show ?thesis
  proof (cases "cfg_SQLitePath ?cfg = []")
    case True
    then have "openStore ?cfg disk = Inr (InMemory newMemStore)" by (simp add: openStore_def)
    then show ?thesis using True run by simp
  next
    case False
    then show ?thesis using run open_store [OF _ assms(2), of ?cfg]
      by (cases "openStore ?cfg disk") (auto simp: Let_def split: opened.splits)
  qed
qed

theorem program_start_witness:
  "relay_main Map.empty [''LISTEN'' \<mapsto> '':1'', ''PATH'' \<mapsto> ''/''] [''--timeout'', ''30'', ''-timeout=-2''] (\<lambda>_. (None, sql_sample)) (still 0)
     = RunsMem (newServer \<lparr>cfg_Listen = '':1'', cfg_RequestTimeoutSeconds = - 2, cfg_SQLitePath = []\<rparr> newMemStore (still 0))"
proof -
  let ?xs = "[(True, False, SetTimeout 30), (False, True, SetTimeout (- 2))]"
  let ?env = "[''LISTEN'' \<mapsto> '':1'', ''PATH'' \<mapsto> ''/'']"
  have env: "loadDotEnv Map.empty ?env = ?env" by (simp add: loadDotEnv_def applyEnvFile_def)
  have cfg: "config_of ?env (map (snd \<circ> snd) ?xs) =
      \<lparr>cfg_Listen = '':1'', cfg_RequestTimeoutSeconds = - 2, cfg_SQLitePath = []\<rparr>"
    by (simp add: config_of_def Getenv_def)
  have "utoa 30 = ''30''" "utoa 2 = ''2''" by (simp_all add: utoa.simps digit_char_def char_of_def bit_0)
  then have args: "concat (map write_flag ?xs) = [''--timeout'', ''30'', ''-timeout=-2'']"
    by (simp add: write_flag_def Int_String_def)
  have "\<forall>(two, joined, x)\<in>set ?xs. in_range x" "\<forall>p. sql_inv (snd ((\<lambda>_. (None, sql_sample)) p))"
    using sample_ok(2) by simp_all
  from program_start [OF this, of Map.empty ?env "still 0"] show ?thesis unfolding env cfg args by simp
qed

end
