(* ===== verification/Spec2Isabelle.thy ===== *)
theory Spec2Isabelle
  imports Nano_Account Store_Props Hub_Props Nano_Amount Nano_Crypto Ratelimit Server_Props Http_Props
    Relay_Calls Relay_Guarantees Timers Wire_Relay Migrate Program_Start
begin

text \<open>
  A verification of the Nora relay.

  The relay (\<^verbatim>\<open>cmd/relay\<close>) is a server between the devices of Nano account owners and external
  callers. A device opens a websocket, announces accounts and proves them by signing a random
  challenge; it is then bound to these accounts in the hub. An owner's device registers API keys in
  the store. A caller shows the secret of a key and asks for a transaction or a read-only query; the relay
  sends it to the devices of the account that owns the key and hands back what a device answers.
  \<^verbatim>\<open>cmd/migrate\<close> copies the store from Postgres to SQLite, and \<^verbatim>\<open>internal/nano\<close> holds the account
  addresses, amounts, keys and signatures. Every Go file that is not a test has its part here.

  \<^bold>\<open>Theories and sources.\<close>

    \<^item> \<open>Relay_Prelude\<close>: errors and panics as values, and the functions of Go's \<^verbatim>\<open>strings\<close>, \<^verbatim>\<open>bytes\<close>,
      \<^verbatim>\<open>encoding/hex\<close> and \<^verbatim>\<open>crypto/rand\<close> that the code calls. Texts are byte strings, as in Go.
    \<^item> \<open>Nano_Hash\<close>, \<open>Nano_Account\<close>, \<open>Nano_Amount\<close>, \<open>Nano_Crypto\<close>: \<^verbatim>\<open>internal/nano\<close>, file by file.
    \<^item> \<open>Sha256\<close>, \<open>Json\<close>, \<open>Float64\<close>: SHA-256, the JSON decoder and encoder and double-precision
      rounding, which \<^verbatim>\<open>store.go\<close>, \<^verbatim>\<open>store_sqlite.go\<close>, \<^verbatim>\<open>http.go\<close> and \<^verbatim>\<open>ratelimit.go\<close> rest on.
    \<^item> \<open>Store\<close>, \<open>Store_Mem\<close>, \<open>Store_Sqlite\<close>, \<open>Store_Props\<close>: the interface of \<^verbatim>\<open>store.go\<close> as a record of
      operations, its two implementations, and an abstract store that both refine.
    \<^item> \<open>Protocol\<close>, \<open>World\<close>: the structs of \<^verbatim>\<open>internal/protocol\<close>; random bytes, clock and websocket
      writes as a state that the operations thread through.
    \<^item> \<open>Hub\<close>, \<open>Hub_Props\<close>: the methods of \<^verbatim>\<open>hub.go\<close>, each run to its end.
    \<^item> \<open>Mailbox\<close>, \<open>Hub_Concurrent\<close>, \<open>Hub_Concurrent_Props\<close>, \<open>Hub_Sequential\<close>: the same methods as
      threads that interleave at every lock, write and channel operation; the rendezvous of a waiter and a
      delivery as a machine that requests and queries share; and that the two models agree.
    \<^item> \<open>Ratelimit\<close>: \<^verbatim>\<open>ratelimit.go\<close>. \<open>Server\<close>, \<open>Server_Props\<close>, \<open>Server_Calls\<close>: the device side of
      \<^verbatim>\<open>http.go\<close> (enrolment, control messages, read loop). \<open>Http\<close>, \<open>Http_Body\<close>, \<open>Http_Props\<close>: its API
      side (routes, CORS, key check, requests, queries). \<open>Timers\<close>: read deadlines, pings, pruning.
    \<^item> \<open>Relay_System\<close>, \<open>Relay_Handlers\<close>, \<open>Relay_Calls\<close>, \<open>Relay_Props\<close>, \<open>Relay_Guarantees\<close>: the whole relay
      as one step relation over device connections, store, limiter, calls and hub threads; that serving a
      connection or an HTTP request is a run of it; and its invariants.
    \<^item> \<open>Json_Text\<close>, \<open>Base64\<close>, \<open>Rfc3339\<close>, \<open>Wire_Fields\<close>: texts of JSON values that read back, byte slices and
      times as JSON writes them, and how \<^verbatim>\<open>encoding/json\<close> fills a field of each type the structs have. \<open>Wire\<close>,
      \<open>Wire_Frames\<close>: the JSON of each struct of \<^verbatim>\<open>protocol.go\<close> by its field tags, and frames as texts.
      \<open>Wire_Props\<close>, \<open>Wire_Relay\<close>: connections and responses as bytes, and the frames of the running relay.
    \<^item> \<open>Env_Config\<close>, \<open>Program_Start\<close>: \<^verbatim>\<open>env.go\<close>, \<^verbatim>\<open>config.go\<close> and \<^verbatim>\<open>main.go\<close>. \<open>Migrate\<close>: \<^verbatim>\<open>cmd/migrate\<close>.

  Definitions have the names of the Go functions, with a suffix or prefix where a name is taken
  (\<open>mem_\<close>, \<open>sql_\<close>, \<open>rl_\<close>, \<open>kl_\<close>); record fields have a two-letter prefix.

  \<^bold>\<open>What the lemmas show.\<close>

    \<^item> The whole relay (\<open>Relay_Guarantees\<close>). In every state that any interleaving can reach, requests
      and queries go only to devices that proved the owner's account, results come back from such
      devices, every key and policy in the store was put there by a device of its account, challenges
      are fresh, and every frame is well typed. The evidence in these statements is what was sent and
      received on the connections (\<open>enrolled\<close>, \<open>sponsored\<close>, \<open>policy_from\<close>).
    \<^item> The concurrent hub: results are never mixed up, no delivery blocks, no waiter is left behind,
      every call can finish and each of its steps brings it closer to the end.
    \<^item> The handlers as functions: what each returns on every branch, which frames it writes and how it
      changes the store; control messages refine \<open>abs_control\<close> on the abstract store, refusals by the schema included;
      and a connection reaches only keys, secrets and policies of accounts it proved and key ids it registered.
    \<^item> The stores: both satisfy one contract, answer alike where no hash is shared and every policy has a
      blob (on the rest they differ, as the schema of SQLite refuses it), and keep their invariants
      when statements of the database fail.
    \<^item> The wire: every frame reads back as the envelope that was written, whatever its payload. In every
      reachable state what the relay wrote for a call is what the device reads; what a device reports is
      what the caller reads; and the run of a connection starts from the bytes the device sends.
    \<^item> The leaves: round trips of addresses, amounts and JSON bodies, correctness of signing and
      challenges, the invariant, burst and rate of the limiter, the precedence of the environment files,
      the exact result of the migration and its idempotence, the liveness of answering connections.

  \<^bold>\<open>Interfaces.\<close> \<open>store_contract\<close> (in \<open>Store\<close>) is what handlers and API rely on; it is interpreted on the
  in-memory store (\<open>mem\<close>) and on SQLite (\<open>sq\<close>). \<open>rounding\<close> is what the limiter needs of floating point,
  interpreted on the rounding of doubles (\<open>f64\<close>). \<open>mailbox_client\<close> is the rendezvous, interpreted on the
  hub's requests (\<open>rqs\<close>) and queries (\<open>qrs\<close>). \<open>row_copy\<close> is a loop of the migration, interpreted on
  keys (\<open>kc\<close>) and policies (\<open>pc\<close>). \<open>thread_run\<close> is a relation with the steps of one call, interpreted on the
  steps of all threads (\<open>any\<close>) and on those of the calls one names (\<open>owned\<close>). \<open>wire_field\<close> is a type of field
  whose text reads back, interpreted on strings, integers, lists of strings, byte slices, raw messages and
  maps (\<open>str\<close>, \<open>int\<close>, \<open>strs\<close>, \<open>bytes\<close>, \<open>blobs\<close> for slices that may be nil, \<open>raw\<close>, \<open>maps\<close>); \<open>wire_struct\<close> is a struct whose members do,
  interpreted on each struct of the protocol and on the envelope that points to them.

  \<^bold>\<open>Parameters.\<close> BLAKE2b (\<open>blake2b_ok\<close>: sizes and lengths) and the curve edwards25519 (\<open>ed_ok\<close>: what its
  package documents) are arguments, with a concrete instance for the witnesses. So are the answer of the
  websocket package to an upgrade, what Postgres returns, which database statements fail, what
  other goroutines do while a sequential call waits, and the identifiers a device can name in a
  result (\<open>G\<close> in \<open>relay_step\<close>; the code lets it name any).

  \<^bold>\<open>Bounds and fuel.\<close> The JSON parser runs with fuel \<open>2 * length s + 2\<close>: a value and its elements
  together take at most two calls per byte, and \<open>parse_json_complete\<close> (in \<open>Json_Text\<close>) proves that a value that any fuel
  parses is parsed with this. Bodies are cut at 65536 bytes, environment lines at 65535,
  messages at a mebibyte, as in the code. Every other recursion is structural or has a measure; the
  threads of the hub have a rank that each step decreases.

  \<^bold>\<open>Not modelled.\<close> What \<^verbatim>\<open>net/http\<close> itself writes for a redirect or after a panic; timestamp columns;
  percent-escapes in paths and the target \<open>*\<close>; TLS, listening, signals and the shutdown of the HTTP
  server; log lines. A message of the websocket is one text, read and written by \<^verbatim>\<open>encoding/json\<close> as the
  documentation of the websocket package says; its frames and masks are not there, and the read limit counts whole messages.
  A byte slice that reaches the database can be nil (\<open>blob\<close>), as SQLite refuses it; of other slices and of maps a nil
  and an empty one are the same here: the code only asks for their length and their elements, and the relay writes no nil
  one where the field is not \<^verbatim>\<open>omitempty\<close>.
  A raw message is written for valid JSON only. A read deadline during enrolment
  and a write deadline appear as a read or write that fails. A failing \<^verbatim>\<open>rand.Read\<close> does not occur since
  Go 1.24. The steps of the concurrent models happen one at a time, in some order: each stands for
  accesses under one lock, or for several whose order with other steps cannot be told. The limiter is the exception: it takes
  one lock to look a bucket up and another to draw from it, and the runs in which the bucket is pruned in between have
  steps of their own (\<open>AdmitPruned\<close>, \<open>QAdmitPruned\<close>).
\<close>

end
